(* ===== verification/Sundial_Prelude.thy ===== *)
theory Sundial_Prelude
  imports Main "HOL-Library.Multiset" "HOL-Library.AList" "HOL-Library.List_Lexorder" "HOL-Library.Char_ord"
begin

text \<open>
  Shared vocabulary of the development.

  \<^item> Go's fixed-width integers: a \<open>time.Duration\<close> (and every \<open>int\<close>) is a 64-bit two's
    complement number, here an \<open>int\<close> whose wrap-around is written out with \<open>wrap64\<close>.
  \<^item> \<open>time.Time\<close>: an instant, as the number of nanoseconds since 0001-01-01T00:00:00Z. That
    instant is Go's zero \<open>Time\<close>, which the program uses as "no further fire". The location a
    \<open>Time\<close> carries only affects printing, and every instant the program prints has been
    converted with \<open>UTC()\<close>, so \<open>UTC()\<close> is the identity here.
  \<^item> Decimal printing, the insertion-sort loop the program writes out twice, and the
    iteration order of a Go map.
\<close>

named_theorems go_time_simps \<open>arithmetic of instants and durations\<close>

section \<open>Integers and instants\<close>

type_synonym duration = int
type_synonym gotime = int

definition int64 :: "int \<Rightarrow> bool" where
  "int64 x \<longleftrightarrow> - (2 ^ 63) \<le> x \<and> x < 2 ^ 63"

definition wrap64 :: "int \<Rightarrow> int" where
  "wrap64 x = (x + 2 ^ 63) mod 2 ^ 64 - 2 ^ 63"

definition sat64 :: "int \<Rightarrow> int" where
  "sat64 x = (if x < - (2 ^ 63) then - (2 ^ 63) else if 2 ^ 63 - 1 < x then 2 ^ 63 - 1 else x)"

definition Millisecond :: duration where "Millisecond = 1000000"
definition Second :: duration where "Second = 1000000000"
definition Minute :: duration where "Minute = 60 * Second"

abbreviation (input) zero_time :: gotime where "zero_time \<equiv> 0"

definition IsZero :: "gotime \<Rightarrow> bool" where
  "IsZero t \<longleftrightarrow> t = zero_time"

definition time_Add :: "gotime \<Rightarrow> duration \<Rightarrow> gotime" where
  "time_Add t d = t + d"

text \<open>\<open>Time.Sub\<close> saturates at the ends of the \<open>Duration\<close> range instead of wrapping.\<close>

definition time_Sub :: "gotime \<Rightarrow> gotime \<Rightarrow> duration" where
  "time_Sub t u = sat64 (t - u)"

section \<open>Errors\<close>

text \<open>
  The sentinel errors of the package, an error made from a text, and \<open>fmt.Errorf\<close> with
  \<open>%w\<close>, which wraps another error. The texts are diagnostics: only the parts that carry data
  are kept.
\<close>

datatype go_error =
    ErrInvalidSchedule
  | ErrJobNotFound
  | ErrJobLocked
  | ErrEmptyNodeID
  | ErrTickTooSmall
  | ErrJobNameTaken
  | ErrEmptyJobName
  | ErrNilHandler
  | ErrNilSchedule
  | ErrSchedulerStopped
  | NewError string
  | Wrapf string go_error

fun errors_Is :: "go_error \<Rightarrow> go_error \<Rightarrow> bool" where
  "errors_Is (Wrapf m e) target \<longleftrightarrow> Wrapf m e = target \<or> errors_Is e target"
| "errors_Is e target \<longleftrightarrow> e = target"

text \<open>
  What becomes of a round trip to the database: answered, lost before the statement took effect, or
  lost after it did.
\<close>

datatype fate = Answered | Lost_before go_error | Lost_after go_error

section \<open>Decimal digits\<close>

definition digit_char :: "int \<Rightarrow> char" where
  "digit_char k = char_of (48 + k)"

definition is_digit :: "char \<Rightarrow> bool" where
  "is_digit c \<longleftrightarrow> 48 \<le> (of_char c :: int) \<and> (of_char c :: int) \<le> 57"

definition digit_val :: "char \<Rightarrow> int" where
  "digit_val c = of_char c - 48"

text \<open>The decimal digits of a non-negative integer.\<close>

function dec_string :: "int \<Rightarrow> string" where
  "dec_string n = (if n < 10 then [digit_char n] else dec_string (n div 10) @ [digit_char (n mod 10)])"
  by pat_completeness auto
termination
  by (relation "measure nat") auto

definition dec_val :: "string \<Rightarrow> int" where
  "dec_val ds = foldl (\<lambda>n c. 10 * n + digit_val c) 0 ds"

section \<open>The insertion-sort loop\<close>

text \<open>
  The program sorts twice with the same double loop
  \<^verbatim>\<open>for i := 1; i < len(xs); i++ { for k := i; k > 0; k-- { if xs[k-1] > xs[k] swap else break } }\<close>.
  \<open>sift gt k\<close> is the inner loop from index \<open>k\<close>, \<open>insertion_sort\<close> the outer one.
\<close>

fun sift :: "('a \<Rightarrow> 'a \<Rightarrow> bool) \<Rightarrow> nat \<Rightarrow> 'a list \<Rightarrow> 'a list" where
  "sift gt 0 xs = xs"
| "sift gt (Suc k) xs =
     (if gt (xs ! k) (xs ! Suc k) then sift gt k (xs[k := xs ! Suc k, Suc k := xs ! k]) else xs)"

definition insertion_sort :: "('a \<Rightarrow> 'a \<Rightarrow> bool) \<Rightarrow> 'a list \<Rightarrow> 'a list" where
  "insertion_sort gt xs = fold (sift gt) [1..<length xs] xs"

section \<open>Iteration order of a Go map\<close>

text \<open>
  \<open>for _, v := range m\<close> visits the entries of a map in an order Go leaves unspecified. A map is
  an association list with distinct keys, and the order of one iteration is a rearrangement
  \<open>rng\<close> of its entries.
\<close>

definition range_order :: "('a list \<Rightarrow> 'a list) \<Rightarrow> bool" where
  "range_order rng \<longleftrightarrow> (\<forall>xs. mset (rng xs) = mset xs)"

section \<open>Lemmas on integers and instants\<close>

lemma wrap64_id [simp]: "int64 x \<Longrightarrow> wrap64 x = x"
  by (simp add: int64_def wrap64_def)

lemma int64_wrap64 [simp]: "int64 (wrap64 x)"
  unfolding int64_def wrap64_def
  using pos_mod_bound [of "2 ^ 64 :: int" "x + 2 ^ 63"] pos_mod_sign [of "2 ^ 64 :: int" "x + 2 ^ 63"]
  by simp

lemma int64_sat64 [simp]: "int64 (sat64 x)"
  by (simp add: int64_def sat64_def)

lemma sat64_id [simp]: "int64 x \<Longrightarrow> sat64 x = x"
  by (simp add: int64_def sat64_def)

lemma sat64_mono: "x \<le> y \<Longrightarrow> sat64 x \<le> sat64 y"
  by (simp add: sat64_def)

lemma sat64_pos_iff: "0 < sat64 x \<longleftrightarrow> 0 < x"
  by (simp add: sat64_def)

lemmas [go_time_simps] = time_Add_def time_Sub_def IsZero_def
lemmas duration_units = Second_def Millisecond_def Minute_def

section \<open>Lemmas on decimal digits\<close>

declare dec_string.simps [simp del]

lemma of_char_digit_char [simp]: "0 \<le> k \<Longrightarrow> k < 10 \<Longrightarrow> (of_char (digit_char k) :: int) = 48 + k"
  by (simp add: digit_char_def of_char_of)

lemma is_digit_digit_char [simp]: "0 \<le> k \<Longrightarrow> k < 10 \<Longrightarrow> is_digit (digit_char k)"
  by (simp add: is_digit_def)

lemma digit_val_digit_char [simp]: "0 \<le> k \<Longrightarrow> k < 10 \<Longrightarrow> digit_val (digit_char k) = k"
  by (simp add: digit_val_def)

lemma dec_val_append: "dec_val (ds @ [c]) = 10 * dec_val ds + digit_val c"
  by (simp add: dec_val_def)

lemma dec_val_dec_string [simp]: "0 \<le> n \<Longrightarrow> dec_val (dec_string n) = n"
proof (induction n rule: dec_string.induct)
  case (1 n)
  then show ?case
    by (cases "n < 10") (simp_all add: dec_string.simps [of n] dec_val_append dec_val_def)
qed

lemma dec_string_inject: "0 \<le> m \<Longrightarrow> 0 \<le> n \<Longrightarrow> dec_string m = dec_string n \<longleftrightarrow> m = n"
  by (metis dec_val_dec_string)

lemma dec_string_digits: "0 \<le> n \<Longrightarrow> \<forall>c \<in> set (dec_string n). is_digit c"
proof (induction n rule: dec_string.induct)
  case (1 n)
  then show ?case by (cases "n < 10") (auto simp add: dec_string.simps [of n])
qed

lemma dec_string_not_Nil [simp]: "dec_string n \<noteq> []"
  by (subst dec_string.simps) simp

section \<open>Correctness of the insertion-sort loop\<close>

text \<open>
  The loop is correct for any comparison that is the strict part of a total preorder. The two
  comparisons of the program are interpretations (\<open>names\<close> below, and the fire order in the
  storage component).
\<close>

locale sort_order =
  fixes gt :: "'a \<Rightarrow> 'a \<Rightarrow> bool"
  assumes gt_asym: "gt a b \<Longrightarrow> \<not> gt b a"
    and not_gt_trans: "\<not> gt a b \<Longrightarrow> \<not> gt b c \<Longrightarrow> \<not> gt a c"
begin

lemma sift_snoc:
  "\<exists>ws. sift gt (length ys) (ys @ x # zs) = ws @ zs \<and> mset ws = mset (x # ys) \<and>
     (sorted_wrt (\<lambda>a b. \<not> gt a b) ys \<longrightarrow> sorted_wrt (\<lambda>a b. \<not> gt a b) ws)"
proof (induction ys arbitrary: zs rule: rev_induct)
  case Nil
  show ?case by (rule exI [of _ "[x]"]) simp
next
  case (snoc y ys)
  show ?case
  proof (cases "gt y x")
    case True
    from snoc.IH [of "y # zs"] obtain ws where
      ws: "sift gt (length ys) (ys @ x # y # zs) = ws @ y # zs" "mset ws = mset (x # ys)"
        "sorted_wrt (\<lambda>a b. \<not> gt a b) ys \<longrightarrow> sorted_wrt (\<lambda>a b. \<not> gt a b) ws"
      by blast
    have set_ws: "set ws = insert x (set ys)"
      using ws(2) by (metis list.set(2) set_mset_mset)
    have "sift gt (length (ys @ [y])) ((ys @ [y]) @ x # zs) = (ws @ [y]) @ zs"
      using True ws(1) by (simp add: nth_append list_update_append)
    moreover have "mset (ws @ [y]) = mset (x # ys @ [y])"
      using ws(2) by simp
    moreover have "sorted_wrt (\<lambda>a b. \<not> gt a b) (ys @ [y]) \<longrightarrow> sorted_wrt (\<lambda>a b. \<not> gt a b) (ws @ [y])"
      using ws(3) set_ws True gt_asym by (auto simp: sorted_wrt_append)
    ultimately show ?thesis by blast
  next
    case False
    have "sorted_wrt (\<lambda>a b. \<not> gt a b) (ys @ [y]) \<longrightarrow> sorted_wrt (\<lambda>a b. \<not> gt a b) (ys @ [y, x])"
      using False not_gt_trans by (auto simp: sorted_wrt_append)
    moreover have "sift gt (length (ys @ [y])) ((ys @ [y]) @ x # zs) = (ys @ [y, x]) @ zs"
      using False by (simp add: nth_append)
    ultimately show ?thesis
      by (intro exI [of _ "ys @ [y, x]"]) simp
  qed
qed

lemma fold_sift:
  "i \<le> length xs \<Longrightarrow>
     \<exists>ws. fold (sift gt) [1..<i] xs = ws @ drop i xs \<and> mset ws = mset (take i xs) \<and>
       sorted_wrt (\<lambda>a b. \<not> gt a b) ws"
proof (induction i)
  case 0
  then show ?case by simp
next
  case (Suc i)
  then obtain ws where
    ws: "fold (sift gt) [1..<i] xs = ws @ drop i xs" "mset ws = mset (take i xs)"
      "sorted_wrt (\<lambda>a b. \<not> gt a b) ws"
    by auto
  have len: "length ws = i"
    using ws(2) Suc.prems by (metis Suc_leD length_take min.absorb2 size_mset)
  have drop_i: "drop i xs = xs ! i # drop (Suc i) xs" and take_i: "take (Suc i) xs = take i xs @ [xs ! i]"
    using Suc.prems by (simp_all add: Cons_nth_drop_Suc take_Suc_conv_app_nth)
  show ?case
  proof (cases "i = 0")
    case True
    then show ?thesis using drop_i take_i by (intro exI [of _ "[xs ! 0]"]) simp
  next
    case False
    with ws(1) have "fold (sift gt) [1..<Suc i] xs = sift gt (length ws) (ws @ xs ! i # drop (Suc i) xs)"
      by (simp add: len drop_i)
    with sift_snoc [of ws "xs ! i" "drop (Suc i) xs"] ws(2,3) take_i show ?thesis
      by auto
  qed
qed

lemma mset_insertion_sort: "mset (insertion_sort gt xs) = mset xs"
  and sorted_insertion_sort: "sorted_wrt (\<lambda>a b. \<not> gt a b) (insertion_sort gt xs)"
  using fold_sift [of "length xs" xs] by (auto simp: insertion_sort_def)

lemma set_insertion_sort: "set (insertion_sort gt xs) = set xs"
  by (metis mset_insertion_sort set_mset_mset)

end

interpretation name_order: sort_order "(>) :: 'a::linorder \<Rightarrow> 'a \<Rightarrow> bool"
  by unfold_locales auto

lemma insertion_sort_eq_sort: "insertion_sort (>) xs = sort xs"
  using name_order.sorted_insertion_sort [of xs]
  by (intro properties_for_sort [symmetric]) (simp_all add: name_order.mset_insertion_sort not_less)

section \<open>Lists: unique matches and rearrangements\<close>

lemma range_order_set: "range_order rng \<Longrightarrow> set (rng xs) = set xs"
  unfolding range_order_def by (metis set_mset_mset)

lemma range_order_length: "range_order rng \<Longrightarrow> length (rng xs) = length xs"
  unfolding range_order_def by (metis size_mset)

lemma range_order_id [simp]: "range_order (\<lambda>xs. xs)"
  and range_order_rev [simp]: "range_order rev"
  by (simp_all add: range_order_def)

lemma upto_shift: "map (\<lambda>k. k + c) [a..b] = [a + c..b + c]"
  by (rule nth_equalityI) (auto simp: nth_upto)

text \<open>Where at most one element can match, the search does not depend on the order.\<close>

lemma find_unique:
  assumes "\<And>x y. x \<in> set xs \<Longrightarrow> y \<in> set xs \<Longrightarrow> P x \<Longrightarrow> P y \<Longrightarrow> x = y"
  shows "find P xs = Some x \<longleftrightarrow> x \<in> set xs \<and> P x"
proof -
  have "find P xs = Some y \<Longrightarrow> y \<in> set xs \<and> P y" for y
    by (induction xs) (auto split: if_splits)
  moreover have "find P xs = None \<longleftrightarrow> \<not> (\<exists>y \<in> set xs. P y)"
    by (auto simp: find_None_iff)
  ultimately show ?thesis
    using assms by (cases "find P xs") fastforce+
qed

text \<open>Updating an association list with distinct keys: in place, or at the end.\<close>

lemma update_existing:
  "distinct (map fst xs) \<Longrightarrow> (n, j) \<in> set xs \<Longrightarrow>
     AList.update n v xs = map (\<lambda>(k, x). (k, if k = n then v else x)) xs"
  by (induction xs) (force split: if_splits intro!: map_idI [symmetric] simp: rev_image_eqI)+

lemma update_new: "n \<notin> fst ` set xs \<Longrightarrow> AList.update n v xs = xs @ [(n, v)]"
  by (induction xs) auto

lemma sorted_wrt_unique:
  assumes "mset xs = mset ys" "sorted_wrt R xs" "sorted_wrt R ys"
    and anti: "\<And>a b. a \<in> set xs \<Longrightarrow> b \<in> set xs \<Longrightarrow> R a b \<Longrightarrow> R b a \<Longrightarrow> a = b"
  shows "xs = ys"
  using assms
proof (induction xs arbitrary: ys)
  case Nil
  then show ?case by simp
next
  case (Cons x xs)
  obtain y ys' where ys: "ys = y # ys'"
    using Cons.prems(1) by (cases ys) auto
  have sets: "set (x # xs) = set (y # ys')"
    using Cons.prems(1) ys by (metis set_mset_mset)
  have "x = y"
  proof (rule ccontr)
    assume neq: "x \<noteq> y"
    then have "y \<in> set xs" and "x \<in> set ys'"
      using sets by auto
    then have "R x y" and "R y x"
      using Cons.prems(2,3) ys by auto
    with Cons.prems(4) [of x y] \<open>y \<in> set xs\<close> neq show False by simp
  qed
  moreover have "xs = ys'"
    using Cons.prems ys \<open>x = y\<close> by (intro Cons.IH) auto
  ultimately show ?case using ys by simp
qed

end
