(* ===== verification/Go_Float64.thy ===== *)
theory Go_Float64
  imports Complex_Main Sundial_Prelude
begin

text \<open>
  Go's \<open>float64\<close>: IEEE 754 binary64 with rounding to nearest, ties to even. A finite value is
  the rational number it denotes (the sign of a zero is not kept: nothing the program computes
  divides by a zero or prints one). \<open>f64_round\<close> is the rounding of an exact rational result,
  \<open>math_Pow\<close> is the algorithm of \<open>math.Pow\<close> for the exponents the program passes (the
  conversion of a non-negative \<open>int\<close>), and the conversion of a value outside the integer range,
  which Go leaves to the implementation, is a parameter.
\<close>

section \<open>Values and rounding\<close>

datatype f64 = Finite rat | PosInf | NegInf | NaN

function ilog2 :: "rat \<Rightarrow> int" where
  "ilog2 x =
     (if x \<le> 0 then 0
      else if x < 1 then ilog2 (2 * x) - 1
      else if x < 2 then 0
      else ilog2 (x / 2) + 1)"
  by pat_completeness auto

lemma ilog2_ceiling_less: "0 < x \<Longrightarrow> 2 * x < 1 \<Longrightarrow> nat \<lceil>1 / (2 * x)\<rceil> < nat \<lceil>1 / x\<rceil>"
  for x :: rat
proof -
  assume x: "0 < x" "2 * x < 1"
  then have "1 / (2 * x) + 1 \<le> 1 / x"
    by (simp add: field_simps)
  then have "\<lceil>1 / (2 * x) + 1\<rceil> \<le> \<lceil>1 / x\<rceil>"
    by (rule ceiling_mono)
  moreover have "0 < \<lceil>1 / (2 * x)\<rceil>"
    using x by simp
  ultimately show ?thesis by simp
qed

lemma ilog2_ceiling_one: "0 < x \<Longrightarrow> x < 1 \<Longrightarrow> 1 < nat \<lceil>1 / x\<rceil>"
  for x :: rat
proof -
  assume "0 < x" "x < 1"
  then have "1 < 1 / x" by simp
  then have "1 < \<lceil>1 / x\<rceil>" by linarith
  then show ?thesis by simp
qed

lemma ilog2_floor_less: "2 \<le> x \<Longrightarrow> nat \<lfloor>x / 2\<rfloor> < nat \<lfloor>x\<rfloor>"
  for x :: rat
proof -
  assume "2 \<le> x"
  then have "x / 2 + 1 \<le> x" and "1 \<le> \<lfloor>x / 2\<rfloor>" by linarith+
  then have "\<lfloor>x / 2\<rfloor> + 1 \<le> \<lfloor>x\<rfloor>"
    using floor_mono [of "x / 2 + 1" x] by simp
  with \<open>1 \<le> \<lfloor>x / 2\<rfloor>\<close> show ?thesis by linarith
qed

lemma ilog2_floor_one: "1 \<le> x \<Longrightarrow> x < 2 \<Longrightarrow> \<lfloor>x\<rfloor> = 1"
  for x :: rat
  by linarith

termination ilog2
proof (relation "measure (\<lambda>x. if x < 1 then nat \<lceil>1 / x\<rceil> else nat \<lfloor>x\<rfloor>)", goal_cases)
  case 1
  show ?case by simp
next
  case (2 x)
  then show ?case
    using ilog2_ceiling_less [of x] ilog2_ceiling_one [of x] ilog2_floor_one [of "2 * x"]
    by (cases "2 * x < 1") auto
next
  case (3 x)
  then show ?case using ilog2_floor_less [of x] by auto
qed

declare ilog2.simps [simp del]

text \<open>Round to the nearest integer, a tie to the even one.\<close>

definition rne :: "rat \<Rightarrow> int" where
  "rne x =
     (let f = \<lfloor>x\<rfloor>; r = x - of_int f
      in if r < 1 / 2 then f else if 1 / 2 < r then f + 1 else if even f then f else f + 1)"

definition ulp_exp :: "rat \<Rightarrow> int" where
  "ulp_exp x = max (ilog2 \<bar>x\<bar> - 52) (- 1074)"

definition rnd :: "rat \<Rightarrow> rat" where
  "rnd x = (if x = 0 then 0 else of_int (rne (x / 2 powi ulp_exp x)) * 2 powi ulp_exp x)"

definition f64_round :: "rat \<Rightarrow> f64" where
  "f64_round x =
     (let y = rnd x in if 2 ^ 1024 \<le> y then PosInf else if y \<le> - (2 ^ 1024) then NegInf else Finite y)"

section \<open>Operations\<close>

definition f64_of_int :: "int \<Rightarrow> f64" where
  "f64_of_int n = f64_round (of_int n)"

fun f64_sgn :: "f64 \<Rightarrow> rat" where
  "f64_sgn (Finite x) = sgn x"
| "f64_sgn PosInf = 1"
| "f64_sgn NegInf = - 1"
| "f64_sgn NaN = 0"

definition f64_inf :: "rat \<Rightarrow> f64" where
  "f64_inf s = (if s = 0 then NaN else if 0 < s then PosInf else NegInf)"

fun f64_mul :: "f64 \<Rightarrow> f64 \<Rightarrow> f64" where
  "f64_mul (Finite x) (Finite y) = f64_round (x * y)"
| "f64_mul NaN _ = NaN"
| "f64_mul _ NaN = NaN"
| "f64_mul a b = f64_inf (f64_sgn a * f64_sgn b)"

fun f64_add :: "f64 \<Rightarrow> f64 \<Rightarrow> f64" where
  "f64_add (Finite x) (Finite y) = f64_round (x + y)"
| "f64_add NaN _ = NaN"
| "f64_add _ NaN = NaN"
| "f64_add PosInf NegInf = NaN"
| "f64_add NegInf PosInf = NaN"
| "f64_add PosInf _ = PosInf"
| "f64_add NegInf _ = NegInf"
| "f64_add _ PosInf = PosInf"
| "f64_add _ NegInf = NegInf"

fun f64_div :: "f64 \<Rightarrow> f64 \<Rightarrow> f64" where
  "f64_div (Finite x) (Finite y) = (if y = 0 then f64_inf (sgn x) else f64_round (x / y))"
| "f64_div NaN _ = NaN"
| "f64_div _ NaN = NaN"
| "f64_div (Finite _) _ = Finite 0"
| "f64_div a (Finite y) = f64_inf (f64_sgn a * (if y = 0 then 1 else sgn y))"
| "f64_div _ _ = NaN"

fun f64_less :: "f64 \<Rightarrow> f64 \<Rightarrow> bool" where
  "f64_less NaN _ = False"
| "f64_less _ NaN = False"
| "f64_less (Finite x) (Finite y) = (x < y)"
| "f64_less NegInf b = (b \<noteq> NegInf)"
| "f64_less _ NegInf = False"
| "f64_less PosInf _ = False"
| "f64_less (Finite _) PosInf = True"

text \<open>
  Conversion to a 64-bit integer truncates towards zero; outside the range (and for an infinity
  or a NaN) the result is the implementation's, \<open>oor\<close>.
\<close>

definition trunc :: "rat \<Rightarrow> int" where
  "trunc x = (if 0 \<le> x then \<lfloor>x\<rfloor> else \<lceil>x\<rceil>)"

fun f64_to_int64 :: "(f64 \<Rightarrow> int) \<Rightarrow> f64 \<Rightarrow> int" where
  "f64_to_int64 oor (Finite x) = (if int64 (trunc x) then trunc x else wrap64 (oor (Finite x)))"
| "f64_to_int64 oor a = wrap64 (oor a)"

section \<open>The power function\<close>

text \<open>
  The loop of \<open>math.Pow\<close> over the bits of the exponent: \<open>x1 * 2 ^ xe\<close> is the current
  square, \<open>a1 * 2 ^ ae\<close> the product so far. It ends early once the exponent is far outside the
  range.
\<close>

fun pow_loop :: "nat \<Rightarrow> rat \<Rightarrow> int \<Rightarrow> rat \<Rightarrow> int \<Rightarrow> rat \<times> int" where
  "pow_loop i x1 xe a1 ae =
     (if i = 0 then (a1, ae)
      else if xe < - (2 ^ 12) \<or> 2 ^ 12 < xe then (a1, ae + xe)
      else
        let (a1', ae') = (if odd i then (rnd (a1 * x1), ae + xe) else (a1, ae));
            x2 = rnd (x1 * x1);
            (x1', xe') = (if x2 < 1 / 2 then (x2 + x2, 2 * xe - 1) else (x2, 2 * xe))
        in pow_loop (i div 2) x1' xe' a1' ae')"

declare pow_loop.simps [simp del]

definition frexp_exp :: "rat \<Rightarrow> int" where
  "frexp_exp x = ilog2 \<bar>x\<bar> + 1"

text \<open>\<open>math_Pow x n\<close> is \<open>math.Pow(x, float64(n))\<close> for a non-negative \<open>int\<close> \<open>n\<close>.\<close>

definition math_Pow :: "f64 \<Rightarrow> int \<Rightarrow> f64" where
  "math_Pow x n =
     (let y = rnd (of_int n); yi = \<lfloor>y\<rfloor> in
      if yi = 0 \<or> x = Finite 1 then Finite 1
      else if yi = 1 then x
      else case x of
        NaN \<Rightarrow> NaN
      | PosInf \<Rightarrow> PosInf
      | NegInf \<Rightarrow> (if odd yi then NegInf else PosInf)
      | Finite r \<Rightarrow>
          if r = 0 then Finite 0
          else if 2 ^ 63 \<le> yi then
            (if r = - 1 then Finite 1 else if \<bar>r\<bar> < 1 then Finite 0 else PosInf)
          else
            let xe = frexp_exp r; (a1, ae) = pow_loop (nat yi) (r / 2 powi xe) xe 1 0
            in f64_round (a1 * 2 powi ae))"

section \<open>Rounding is exact on representable values and monotone\<close>

lemma powi_add: "(2::rat) powi (a + b) = 2 powi a * 2 powi b"
  by (simp add: power_int_add)

lemma powi_pos [simp]: "0 < (2::rat) powi a"
  by simp

lemma powi_mono: "a \<le> b \<Longrightarrow> (2::rat) powi a \<le> 2 powi b"
  by (simp add: power_int_increasing)

lemma powi_int: "0 \<le> a \<Longrightarrow> (2::rat) powi a = of_int (2 ^ nat a)"
  by (simp add: power_int_def)

lemma powi_shift: "e \<le> k \<Longrightarrow> (2::rat) ^ nat (k - e) * 2 powi e = 2 powi k"
proof -
  assume "e \<le> k"
  then have "(2::rat) powi k = 2 powi (k - e) * 2 powi e"
    by (simp flip: powi_add)
  with \<open>e \<le> k\<close> show ?thesis by (simp add: powi_int)
qed

lemma ilog2_bounds: "0 < x \<Longrightarrow> 2 powi ilog2 x \<le> x \<and> x < 2 powi (ilog2 x + 1)"
proof (induction x rule: ilog2.induct)
  case (1 x)
  consider "x < 1" | "1 \<le> x" "x < 2" | "2 \<le> x" by linarith
  then show ?case
  proof cases
    case 1
    with "1.IH"(1) "1.prems" have "2 powi ilog2 (2 * x) \<le> 2 * x \<and> 2 * x < 2 powi (ilog2 (2 * x) + 1)"
      by simp
    moreover have "ilog2 x = ilog2 (2 * x) - 1"
      using 1 "1.prems" by (simp add: ilog2.simps [of x])
    ultimately show ?thesis by (simp add: power_int_diff power_int_add)
  next
    case 2
    then show ?thesis by (simp add: ilog2.simps [of x])
  next
    case 3
    with "1.IH"(2) "1.prems" have "2 powi ilog2 (x / 2) \<le> x / 2 \<and> x / 2 < 2 powi (ilog2 (x / 2) + 1)"
      by simp
    moreover have "ilog2 x = ilog2 (x / 2) + 1"
      using 3 "1.prems" by (simp add: ilog2.simps [of x])
    ultimately show ?thesis by (simp add: power_int_add)
  qed
qed

lemma ilog2_mono: "0 < x \<Longrightarrow> x \<le> y \<Longrightarrow> ilog2 x \<le> ilog2 y"
proof (rule ccontr)
  assume a: "0 < x" "x \<le> y" "\<not> ilog2 x \<le> ilog2 y"
  then have "y < 2 powi (ilog2 y + 1)" "2 powi (ilog2 y + 1) \<le> (2::rat) powi ilog2 x" "2 powi ilog2 x \<le> x"
    using ilog2_bounds [of x] ilog2_bounds [of y] powi_mono [of "ilog2 y + 1" "ilog2 x"] by auto
  with a show False by linarith
qed

lemma rne_of_int [simp]: "rne (of_int n) = n"
  by (simp add: rne_def)

lemma rne_mono: "x \<le> y \<Longrightarrow> rne x \<le> rne y"
proof -
  assume xy: "x \<le> y"
  show ?thesis
  proof (cases "\<lfloor>x\<rfloor> = \<lfloor>y\<rfloor>")
    case True
    then show ?thesis using xy by (simp add: rne_def Let_def)
  next
    case False
    then have "\<lfloor>x\<rfloor> + 1 \<le> \<lfloor>y\<rfloor>" using floor_mono [OF xy] by linarith
    then show ?thesis by (auto simp: rne_def Let_def)
  qed
qed

lemma ulp_exp_mono: "0 < x \<Longrightarrow> x \<le> y \<Longrightarrow> ulp_exp x \<le> ulp_exp y"
  using ilog2_mono [of x y] by (auto simp: ulp_exp_def)

lemma rnd_grid:
  assumes "0 < x" and "ulp_exp x \<le> k"
  shows "x \<le> 2 powi k \<Longrightarrow> rnd x \<le> 2 powi k" and "2 powi k \<le> x \<Longrightarrow> 2 powi k \<le> rnd x"
proof -
  let ?e = "ulp_exp x"
  have k: "(2::rat) powi k / 2 powi ?e = of_int (2 ^ nat (k - ?e))"
    using assms(2) by (simp add: power_int_diff [symmetric] powi_int)
  have r: "rnd x = of_int (rne (x / 2 powi ?e)) * 2 powi ?e"
    using assms(1) by (simp add: rnd_def)
  have cancel: "of_int (rne (2 powi k / 2 powi ?e)) * 2 powi ?e = (2::rat) powi k"
    unfolding k rne_of_int using assms(2) by (simp add: powi_shift)
  show "x \<le> 2 powi k \<Longrightarrow> rnd x \<le> 2 powi k"
    using rne_mono [of "x / 2 powi ?e" "2 powi k / 2 powi ?e"] r cancel
    by (metis divide_right_mono mult_right_mono of_int_le_iff order_less_imp_le powi_pos)
  show "2 powi k \<le> x \<Longrightarrow> 2 powi k \<le> rnd x"
    using rne_mono [of "2 powi k / 2 powi ?e" "x / 2 powi ?e"] r cancel
    by (metis divide_right_mono mult_right_mono of_int_le_iff order_less_imp_le powi_pos)
qed

lemma rnd_mono:
  assumes "0 \<le> x" "x \<le> y"
  shows "rnd x \<le> rnd y"
proof (cases "x = 0")
  case True
  have "0 \<le> rne z" if "0 \<le> z" for z
    using rne_mono [of 0 z] that rne_of_int [of 0] by simp
  then show ?thesis using assms True by (simp add: rnd_def)
next
  case False
  then have pos: "0 < x" "0 < y" using assms by auto
  show ?thesis
  proof (cases "ulp_exp x = ulp_exp y")
    case True
    have "rne (x / 2 powi ulp_exp y) \<le> rne (y / 2 powi ulp_exp y)"
      using assms by (intro rne_mono divide_right_mono) auto
    then show ?thesis using pos True by (simp add: rnd_def)
  next
    case False
    then have less: "ulp_exp x < ulp_exp y"
      using ulp_exp_mono [of x y] assms pos by simp
    then have ey: "ulp_exp y = ilog2 y - 52" and lx: "ilog2 x < ilog2 y"
      using pos by (auto simp: ulp_exp_def)
    have "x \<le> 2 powi ilog2 y"
      using ilog2_bounds [OF pos(1)] powi_mono [of "ilog2 x + 1" "ilog2 y"] lx by linarith
    then have "rnd x \<le> 2 powi ilog2 y"
      using rnd_grid(1) [OF pos(1), of "ilog2 y"] less ey by simp
    also have "\<dots> \<le> rnd y"
      using rnd_grid(2) [OF pos(2), of "ilog2 y"] ilog2_bounds [OF pos(2)] ey by simp
    finally show ?thesis .
  qed
qed

text \<open>A value with a significand of at most 53 bits is representable, so rounding keeps it.\<close>

lemma rnd_exact:
  assumes "x = of_int m * 2 powi e" and "0 \<le> m" and "m \<le> 2 ^ 53" and "- 1074 \<le> e"
  shows "rnd x = x"
proof (cases "m = 0")
  case True
  then show ?thesis using assms by (simp add: rnd_def)
next
  case False
  then have m: "0 < m" and pos: "0 < x" using assms by auto
  have "ulp_exp x \<le> e \<or> m = 2 ^ 53"
  proof (rule disjCI)
    assume "m \<noteq> 2 ^ 53"
    then have "x < 2 ^ 53 * 2 powi e"
      using assms m by simp
    then have "x < 2 powi (e + 53)" by (simp add: power_int_add)
    then have "2 powi ilog2 x < (2::rat) powi (e + 53)"
      using ilog2_bounds [OF pos] by linarith
    then have "ilog2 x < e + 53"
      using powi_mono [of "e + 53" "ilog2 x"] by linarith
    then show "ulp_exp x \<le> e"
      using assms(4) pos by (simp add: ulp_exp_def)
  qed
  then show ?thesis
  proof
    assume le: "ulp_exp x \<le> e"
    have "x / 2 powi ulp_exp x = of_int (m * 2 ^ nat (e - ulp_exp x))"
      using assms(1) powi_shift [OF le] by (simp add: field_simps)
    then have "rnd x = x / 2 powi ulp_exp x * 2 powi ulp_exp x"
      using pos by (simp only: rnd_def rne_of_int) simp
    then show ?thesis by simp
  next
    assume "m = 2 ^ 53"
    then have x: "x = 2 powi (e + 53)" using assms(1) by (simp add: power_int_add)
    have "2 powi ilog2 x \<le> (2::rat) powi (e + 53)"
      using ilog2_bounds [OF pos] x by simp
    then have "ilog2 x \<le> e + 53"
      using powi_mono [of "e + 54" "ilog2 x"] powi_pos [of e]
      by (cases "ilog2 x \<le> e + 53") (simp_all add: power_int_add)
    then have "ulp_exp x \<le> e + 53"
      using assms(4) pos by (simp add: ulp_exp_def)
    then show ?thesis
      using rnd_grid [OF pos, of "e + 53"] x by simp
  qed
qed

lemma rnd_of_int: "0 \<le> m \<Longrightarrow> m \<le> 2 ^ 53 \<Longrightarrow> rnd (of_int m) = of_int m"
  using rnd_exact [of "of_int m" m 0] by simp

lemma rnd_nonneg: "0 \<le> x \<Longrightarrow> 0 \<le> rnd x"
  using rnd_mono [of 0 x] by (simp add: rnd_def)

lemma f64_of_int_exact: "0 \<le> m \<Longrightarrow> m \<le> 2 ^ 53 \<Longrightarrow> f64_of_int m = Finite (of_int m)"
proof -
  assume m: "0 \<le> m" "m \<le> 2 ^ 53"
  then have "(of_int m :: rat) \<le> 2 ^ 53"
    by (metis of_int_le_iff of_int_numeral of_int_power)
  also have "\<dots> < 2 ^ 1024" by (rule power_strict_increasing) simp_all
  finally show ?thesis
    using m by (simp add: f64_of_int_def f64_round_def rnd_of_int Let_def)
qed

lemma trunc_of_int [simp]: "trunc (of_int n) = n"
  by (simp add: trunc_def)

lemma trunc_mono: "0 \<le> x \<Longrightarrow> x \<le> y \<Longrightarrow> trunc x \<le> trunc y"
  by (simp add: trunc_def floor_mono)

lemma trunc_nonneg: "0 \<le> x \<Longrightarrow> 0 \<le> trunc x"
  by (simp add: trunc_def)

end
