(* ===== verification/Go_Duration.thy ===== *)
theory Go_Duration
  imports Go_Float64
begin

text \<open>
  \<open>time.Duration.String\<close> and \<open>time.ParseDuration\<close>, the two library functions by which an
  \<open>every\<close> schedule travels through the database: \<open>intervalSchedule.String\<close> stores the
  printed duration and the dispatcher parses it back on every tick. The last section proves that
  the pair is a round trip for every 64-bit duration.
\<close>

section \<open>Duration.String\<close>

text \<open>The fraction loop writes digits right to left and drops trailing zeros.\<close>

fun fmtFrac_loop :: "nat \<Rightarrow> int \<Rightarrow> bool \<Rightarrow> string \<Rightarrow> string \<times> int \<times> bool" where
  "fmtFrac_loop 0 v pr buf = (buf, v, pr)"
| "fmtFrac_loop (Suc k) v pr buf =
     (let digit = v mod 10; pr' = (pr \<or> digit \<noteq> 0)
      in fmtFrac_loop k (v div 10) pr' (if pr' then digit_char digit # buf else buf))"

definition fmtFrac :: "string \<Rightarrow> int \<Rightarrow> nat \<Rightarrow> string \<times> int" where
  "fmtFrac buf v prec =
     (case fmtFrac_loop prec v False buf of (buf', v', pr) \<Rightarrow> (if pr then CHR ''.'' # buf' else buf', v'))"

definition fmtInt :: "string \<Rightarrow> int \<Rightarrow> string" where
  "fmtInt buf v = dec_string v @ buf"

definition micro_sign :: string where
  "micro_sign = [CHR 0xC2, CHR 0xB5]"

definition duration_abs :: "int \<Rightarrow> string" where
  "duration_abs u =
     (if u < 1000000000 then
        (if u = 0 then ''0s''
         else
           let (unit, prec) =
                 (if u < 1000 then (''ns'', 0)
                  else if u < 1000000 then (micro_sign @ ''s'', 3)
                  else (''ms'', 6));
               (w, v) = fmtFrac unit u prec
           in fmtInt w v)
      else
        let (w, v) = fmtFrac ''s'' u 9;
            w = fmtInt w (v mod 60); v = v div 60
        in if v = 0 then w
           else
             let w = fmtInt (CHR ''m'' # w) (v mod 60); v = v div 60
             in if v = 0 then w else fmtInt (CHR ''h'' # w) v)"

definition duration_String :: "duration \<Rightarrow> string" where
  "duration_String d = (if d < 0 then CHR ''-'' # duration_abs \<bar>d\<bar> else duration_abs \<bar>d\<bar>)"

section \<open>ParseDuration\<close>

fun leadingInt :: "int \<Rightarrow> string \<Rightarrow> (int \<times> string) option" where
  "leadingInt x [] = Some (x, [])"
| "leadingInt x (c # cs) =
     (if \<not> is_digit c then Some (x, c # cs)
      else if 2 ^ 63 div 10 < x then None
      else let x' = x * 10 + digit_val c in if 2 ^ 63 < x' then None else leadingInt x' cs)"

text \<open>Digits that would overflow are skipped without being counted in the scale.\<close>

fun leadingFraction :: "int \<Rightarrow> f64 \<Rightarrow> bool \<Rightarrow> string \<Rightarrow> int \<times> f64 \<times> string" where
  "leadingFraction x scale ovf [] = (x, scale, [])"
| "leadingFraction x scale ovf (c # cs) =
     (if \<not> is_digit c then (x, scale, c # cs)
      else if ovf then leadingFraction x scale ovf cs
      else if (2 ^ 63 - 1) div 10 < x then leadingFraction x scale True cs
      else
        let y = x * 10 + digit_val c
        in if 2 ^ 63 < y then leadingFraction x scale True cs
           else leadingFraction y (f64_mul scale (Finite 10)) False cs)"

definition unitMap :: "string \<Rightarrow> int option" where
  "unitMap = map_of
     [(''ns'', 1), (''us'', 1000), (micro_sign @ ''s'', 1000),
      ([CHR 0xCE, CHR 0xBC] @ ''s'', 1000),
      (''ms'', 1000000), (''s'', 1000000000), (''m'', 60000000000), (''h'', 3600000000000)]"

definition num_char :: "char \<Rightarrow> bool" where
  "num_char c \<longleftrightarrow> c = CHR ''.'' \<or> is_digit c"

text \<open>
  The fractional part in nanoseconds, \<open>uint64(float64(f) * (float64(unit) / scale))\<close>. The
  product is below one unit of an hour, so the conversion is in range.
\<close>

definition fraction_ns :: "int \<Rightarrow> f64 \<Rightarrow> int \<Rightarrow> int" where
  "fraction_ns f scale unit =
     (case f64_mul (f64_of_int f) (f64_div (f64_of_int unit) scale) of
        Finite x \<Rightarrow> trunc x | _ \<Rightarrow> 0)"

text \<open>
  One number with its unit: the value in nanoseconds and the rest of the string. An optional
  \<open>.\<close> and digits follow the integer part; the flag says whether there were such digits.
\<close>

definition parse_fraction :: "string \<Rightarrow> int \<times> f64 \<times> string \<times> bool" where
  "parse_fraction s =
     (if s \<noteq> [] \<and> hd s = CHR ''.'' then
        (case leadingFraction 0 (Finite 1) False (tl s) of
           (f, scale, r) \<Rightarrow> (f, scale, r, length r \<noteq> length (tl s)))
      else (0, Finite 1, s, False))"

definition parse_component :: "string \<Rightarrow> (int \<times> string) option" where
  "parse_component s =
     (if s = [] \<or> \<not> num_char (hd s) then None
      else case leadingInt 0 s of
        None \<Rightarrow> None
      | Some (v, s1) \<Rightarrow>
          (case parse_fraction s1 of (f, scale, s2, post) \<Rightarrow>
             let pre = (length s1 \<noteq> length s);
                 u = takeWhile (\<lambda>c. \<not> num_char c) s2;
                 s3 = dropWhile (\<lambda>c. \<not> num_char c) s2
             in if \<not> pre \<and> \<not> post then None
                else if u = [] then None
                else case unitMap u of
                  None \<Rightarrow> None
                | Some unit \<Rightarrow>
                    if 2 ^ 63 div unit < v then None
                    else
                      let v' = (if 0 < f then v * unit + fraction_ns f scale unit else v * unit)
                      in if 0 < f \<and> 2 ^ 63 < v' then None else Some (v', s3)))"

lemma leadingInt_length: "leadingInt x s = Some (v, r) \<Longrightarrow> length r \<le> length s"
  by (induction x s rule: leadingInt.induct) (fastforce split: if_splits simp: Let_def)+

lemma leadingFraction_length: "leadingFraction x sc ov s = (f, sc', r) \<Longrightarrow> length r \<le> length s"
  by (induction x sc ov s rule: leadingFraction.induct) (fastforce split: if_splits simp: Let_def)+

lemma dropWhile_shorter: "takeWhile P s \<noteq> [] \<Longrightarrow> length (dropWhile P s) < length s"
  by (cases s) (auto split: if_splits simp: less_Suc_eq_le length_dropWhile_le)

lemma parse_fraction_length: "parse_fraction s = (f, sc, r, post) \<Longrightarrow> length r \<le> length s"
  by (cases s) (auto simp: parse_fraction_def split: if_splits prod.splits dest: leadingFraction_length)

lemma parse_component_shorter: "parse_component s = Some (v, r) \<Longrightarrow> length r < length s"
  by (auto simp: parse_component_def Let_def split: if_splits option.splits prod.splits
      dest!: leadingInt_length parse_fraction_length dropWhile_shorter)

function parse_components :: "int \<Rightarrow> string \<Rightarrow> int option" where
  "parse_components d s =
     (if s = [] then Some d
      else case parse_component s of
        None \<Rightarrow> None
      | Some (v, r) \<Rightarrow>
          let d' = (d + v) mod 2 ^ 64 in if 2 ^ 63 < d' then None else parse_components d' r)"
  by pat_completeness auto
termination
  by (relation "measure (\<lambda>(d, s). length s)") (auto dest: parse_component_shorter)

declare parse_components.simps [simp del]

definition ParseDuration :: "string \<Rightarrow> duration option" where
  "ParseDuration orig =
     (let neg = (orig \<noteq> [] \<and> hd orig = CHR ''-'');
          s = (if orig \<noteq> [] \<and> hd orig \<in> {CHR ''-'', CHR ''+''} then tl orig else orig)
      in if s = ''0'' then Some 0
         else if s = [] then None
         else case parse_components 0 s of
           None \<Rightarrow> None
         | Some d \<Rightarrow>
             if neg then Some (wrap64 (- wrap64 d))
             else if 2 ^ 63 - 1 < d then None
             else Some d)"

section \<open>Printing and parsing back\<close>

abbreviation (input) dec_from :: "int \<Rightarrow> string \<Rightarrow> int" where
  "dec_from x ds \<equiv> foldl (\<lambda>n c. 10 * n + digit_val c) x ds"

lemma digit_val_bounds: "is_digit c \<Longrightarrow> 0 \<le> digit_val c \<and> digit_val c \<le> 9"
  by (simp add: is_digit_def digit_val_def)

lemma dec_from_ge: "\<forall>c \<in> set ds. is_digit c \<Longrightarrow> 0 \<le> x \<Longrightarrow> x \<le> dec_from x ds"
proof (induction ds arbitrary: x)
  case (Cons c ds)
  then have "10 * x + digit_val c \<le> dec_from (10 * x + digit_val c) ds"
    using digit_val_bounds [of c] by simp
  with Cons.prems digit_val_bounds [of c] show ?case by simp
qed simp

lemma dec_from_less:
  "\<forall>c \<in> set ds. is_digit c \<Longrightarrow> 0 \<le> x \<Longrightarrow> x < 10 ^ k \<Longrightarrow> dec_from x ds < 10 ^ (k + length ds)"
proof (induction ds arbitrary: x k)
  case (Cons c ds)
  have "10 * x + digit_val c < 10 ^ Suc k"
    using Cons.prems digit_val_bounds [of c] by simp
  then show ?case
    using Cons.IH [of "10 * x + digit_val c" "Suc k"] Cons.prems digit_val_bounds [of c] by simp
qed simp

lemma dec_val_less: "\<forall>c \<in> set ds. is_digit c \<Longrightarrow> 0 \<le> dec_val ds \<and> dec_val ds < 10 ^ length ds"
  using dec_from_less [of ds 0 0] dec_from_ge [of ds 0] by (simp add: dec_val_def)

definition stops :: "string \<Rightarrow> bool" where
  "stops r \<longleftrightarrow> r = [] \<or> \<not> is_digit (hd r)"

lemma leadingInt_digits:
  "\<forall>c \<in> set ds. is_digit c \<Longrightarrow> stops r \<Longrightarrow> 0 \<le> x \<Longrightarrow> dec_from x ds \<le> 2 ^ 63 \<Longrightarrow>
     leadingInt x (ds @ r) = Some (dec_from x ds, r)"
proof (induction ds arbitrary: x)
  case Nil
  then show ?case by (cases r) (auto simp: stops_def)
next
  case (Cons c ds)
  let ?x = "10 * x + digit_val c"
  have d: "0 \<le> digit_val c" using Cons.prems(1) digit_val_bounds by simp
  have "?x \<le> dec_from ?x ds"
    using Cons.prems d by (intro dec_from_ge) auto
  then have le: "?x \<le> 2 ^ 63" using Cons.prems(4) by simp
  then have "\<not> 2 ^ 63 div 10 < x" using d by simp
  moreover have "leadingInt ?x (ds @ r) = Some (dec_from ?x ds, r)"
    using Cons.prems d by (intro Cons.IH) auto
  ultimately show ?case using Cons.prems(1) le by (simp add: mult.commute)
qed

lemma leadingFraction_digits:
  "\<forall>c \<in> set ds. is_digit c \<Longrightarrow> stops r \<Longrightarrow> 0 \<le> x \<Longrightarrow> x < 10 ^ k \<Longrightarrow> k + length ds \<le> 9 \<Longrightarrow>
     leadingFraction x (Finite (10 ^ k)) False (ds @ r) =
       (dec_from x ds, Finite (10 ^ (k + length ds)), r)"
proof (induction ds arbitrary: x k)
  case Nil
  then show ?case by (cases r) (auto simp: stops_def)
next
  case (Cons c ds)
  let ?x = "10 * x + digit_val c"
  have d: "0 \<le> digit_val c" "digit_val c \<le> 9" using Cons.prems(1) digit_val_bounds by auto
  have x: "?x < 10 ^ Suc k" using Cons.prems d by simp
  have k: "(10 ^ k :: int) \<le> 10 ^ 8" "(10 ^ Suc k :: int) \<le> 10 ^ 9"
    using Cons.prems(5) by (intro power_increasing; simp)+
  have "f64_mul (Finite (10 ^ k)) (Finite 10) = f64_of_int (10 ^ Suc k)"
    by (simp add: f64_of_int_def mult.commute)
  also have "\<dots> = Finite (of_int (10 ^ Suc k))"
    using k by (intro f64_of_int_exact) auto
  finally have sc: "f64_mul (Finite (10 ^ k)) (Finite 10) = Finite (10 ^ Suc k)" by simp
  have "leadingFraction ?x (Finite (10 ^ Suc k)) False (ds @ r) =
      (dec_from ?x ds, Finite (10 ^ (Suc k + length ds)), r)"
    using Cons.prems d x by (intro Cons.IH) auto
  moreover have "\<not> (2 ^ 63 - 1) div 10 < x" "\<not> 2 ^ 63 < x * 10 + digit_val c"
    using Cons.prems(4) x k by auto
  ultimately show ?case using Cons.prems(1) sc by (simp add: mult.commute)
qed

lemma fraction_ns_exact:
  assumes "0 \<le> f" "f < 10 ^ k" "k \<le> p" "p \<le> 9"
  shows "fraction_ns f (Finite (10 ^ k)) (10 ^ p) = f * 10 ^ (p - k)"
proof -
  have p: "(10 ^ p :: int) \<le> 10 ^ 9" "(10 ^ k :: int) \<le> 10 ^ 9" "(10 ^ (p - k) :: int) \<le> 10 ^ 9"
    using assms by (intro power_increasing; simp)+
  have pk: "(10 ^ p :: int) = 10 ^ k * 10 ^ (p - k)"
    using assms(3) by (simp flip: power_add)
  have pk_rat: "(10 ^ p :: rat) = 10 ^ k * 10 ^ (p - k)"
    using assms(3) by (simp flip: power_add)
  have "f64_of_int (10 ^ p) = Finite (10 ^ p)" "f64_of_int f = Finite (of_int f)"
    using p assms by (auto simp: f64_of_int_exact)
  moreover have "f64_round (10 ^ p / 10 ^ k) = f64_of_int (10 ^ (p - k))"
    using pk_rat by (simp add: f64_of_int_def)
  moreover have "f64_of_int (10 ^ (p - k)) = Finite (10 ^ (p - k))"
    using p by (simp add: f64_of_int_exact)
  moreover have "f64_round (of_int f * 10 ^ (p - k)) = f64_of_int (f * 10 ^ (p - k))"
    by (simp add: f64_of_int_def)
  moreover have "f64_of_int (f * 10 ^ (p - k)) = Finite (of_int (f * 10 ^ (p - k)))"
  proof (rule f64_of_int_exact)
    have "f * 10 ^ (p - k) \<le> 10 ^ k * 10 ^ (p - k)"
      using assms by (intro mult_right_mono) auto
    also have "\<dots> \<le> 10 ^ 9" using pk p(1) by simp
    finally show "f * 10 ^ (p - k) \<le> 2 ^ 53" by simp
  qed (use assms in auto)
  ultimately show ?thesis
    by (simp add: fraction_ns_def trunc_of_int [of "f * 10 ^ (p - k)", simplified])
qed

text \<open>The fraction loop, first once a digit has been printed, then from the start.\<close>

lemma fmtFrac_loop_printing:
  "0 \<le> v \<Longrightarrow> \<exists>fs. fmtFrac_loop k v True buf = (fs @ buf, v div 10 ^ k, True) \<and>
     length fs = k \<and> (\<forall>c \<in> set fs. is_digit c) \<and> dec_val fs = v mod 10 ^ k"
proof (induction k arbitrary: v buf)
  case 0
  then show ?case by (simp add: dec_val_def)
next
  case (Suc k)
  have "0 \<le> v div 10" using Suc.prems by simp
  from Suc.IH [OF this, of "digit_char (v mod 10) # buf"] obtain fs where
    fs: "fmtFrac_loop k (v div 10) True (digit_char (v mod 10) # buf) =
        (fs @ digit_char (v mod 10) # buf, v div 10 div 10 ^ k, True)"
      "length fs = k" "\<forall>c \<in> set fs. is_digit c" "dec_val fs = v div 10 mod 10 ^ k"
    by blast
  have "10 * (v div 10 mod 10 ^ k) + v mod 10 = v mod 10 ^ Suc k"
    by (simp add: zmod_zmult2_eq)
  then show ?case
    using fs by (intro exI [of _ "fs @ [digit_char (v mod 10)]"])
      (simp add: dec_val_append zdiv_zmult2_eq)
qed

lemma fmtFrac_loop_start:
  "0 \<le> v \<Longrightarrow> \<exists>fs. fmtFrac_loop k v False buf = (fs @ buf, v div 10 ^ k, fs \<noteq> []) \<and>
     length fs \<le> k \<and> (\<forall>c \<in> set fs. is_digit c) \<and> dec_val fs * 10 ^ (k - length fs) = v mod 10 ^ k"
proof (induction k arbitrary: v buf)
  case 0
  then show ?case by (simp add: dec_val_def)
next
  case (Suc k)
  have nonneg: "0 \<le> v div 10" using Suc.prems by simp
  have split: "v mod 10 ^ Suc k = 10 * (v div 10 mod 10 ^ k) + v mod 10"
    by (simp add: zmod_zmult2_eq)
  show ?case
  proof (cases "v mod 10 = 0")
    case True
    from Suc.IH [OF nonneg, of buf] obtain fs where
      fs: "fmtFrac_loop k (v div 10) False buf = (fs @ buf, v div 10 div 10 ^ k, fs \<noteq> [])"
        "length fs \<le> k" "\<forall>c \<in> set fs. is_digit c"
        "dec_val fs * 10 ^ (k - length fs) = v div 10 mod 10 ^ k"
      by blast
    then have "dec_val fs * 10 ^ (Suc k - length fs) = v mod 10 ^ Suc k"
      unfolding split True by (simp add: Suc_diff_le)
    with fs True show ?thesis
      by (intro exI [of _ fs]) (simp add: zdiv_zmult2_eq)
  next
    case False
    from fmtFrac_loop_printing [OF nonneg, of k "digit_char (v mod 10) # buf"] obtain fs where
      fs: "fmtFrac_loop k (v div 10) True (digit_char (v mod 10) # buf) =
          (fs @ digit_char (v mod 10) # buf, v div 10 div 10 ^ k, True)"
        "length fs = k" "\<forall>c \<in> set fs. is_digit c" "dec_val fs = v div 10 mod 10 ^ k"
      by blast
    with False show ?thesis
      unfolding split
      by (intro exI [of _ "fs @ [digit_char (v mod 10)]"])
        (simp add: dec_val_append zdiv_zmult2_eq)
  qed
qed

text \<open>
  One printed component is one parsed component. A unit name has no digit and no point, so it
  ends at the next number or at the end of the string.
\<close>

definition unit_name :: "string \<Rightarrow> int \<Rightarrow> bool" where
  "unit_name u n \<longleftrightarrow> u \<noteq> [] \<and> (\<forall>c \<in> set u. \<not> num_char c) \<and> unitMap u = Some n"

definition number_next :: "string \<Rightarrow> bool" where
  "number_next r \<longleftrightarrow> r = [] \<or> num_char (hd r)"

lemma unit_split:
  assumes "\<forall>c \<in> set u. \<not> num_char c" "number_next r"
  shows "takeWhile (\<lambda>c. \<not> num_char c) (u @ r) = u" and "dropWhile (\<lambda>c. \<not> num_char c) (u @ r) = r"
  using assms by (induction u) (auto simp: number_next_def takeWhile_eq_Nil_iff dropWhile_eq_self_iff)

lemma unit_name_stops: "unit_name u n \<Longrightarrow> stops (u @ r) \<and> hd (u @ r) \<noteq> CHR ''.''"
  by (cases u) (auto simp: unit_name_def stops_def num_char_def)

lemma dec_string_hd: "0 \<le> v \<Longrightarrow> num_char (hd (dec_string v @ r))"
  using dec_string_digits [of v] by (cases "dec_string v") (auto simp: num_char_def)

lemma dec_from_dec_string: "0 \<le> v \<Longrightarrow> dec_from 0 (dec_string v) = v"
  using dec_val_dec_string [of v] by (simp add: dec_val_def)

lemma le_div_of_mult_le: "0 < (n::int) \<Longrightarrow> v * n \<le> m \<Longrightarrow> \<not> m div n < v"
  by (metis nonzero_mult_div_cancel_right not_less order_less_irrefl zdiv_mono1)

lemma parse_component_int:
  assumes "unit_name u n" "0 < n" "number_next r" "0 \<le> v" "v * n \<le> 2 ^ 63"
  shows "parse_component (dec_string v @ u @ r) = Some (v * n, r)"
proof -
  have "v \<le> v * n" using assms(2,4) by (simp add: mult_le_cancel_left1)
  then have v: "v \<le> 2 ^ 63" using assms(5) by linarith
  have "leadingInt 0 (dec_string v @ u @ r) = Some (dec_from 0 (dec_string v), u @ r)"
    using assms(1,4) v dec_string_digits [of v] unit_name_stops [of u n r]
    by (intro leadingInt_digits) (auto simp: dec_from_dec_string)
  moreover have "parse_fraction (u @ r) = (0, Finite 1, u @ r, False)"
    using unit_name_stops [OF assms(1), of r] by (simp add: parse_fraction_def)
  ultimately show ?thesis
    using assms unit_split [of u r] le_div_of_mult_le [of n v "2 ^ 63"] dec_string_hd [of v "u @ r"]
    by (simp add: parse_component_def dec_from_dec_string unit_name_def Let_def)
qed

lemma parse_component_frac:
  assumes "unit_name u (10 ^ p)" "p \<le> 9" "number_next r" "0 \<le> v"
    and fs: "fs \<noteq> []" "\<forall>c \<in> set fs. is_digit c" "length fs \<le> p"
    and le: "v * 10 ^ p + dec_val fs * 10 ^ (p - length fs) \<le> 2 ^ 63"
  shows "parse_component (dec_string v @ CHR ''.'' # fs @ u @ r) =
    Some (v * 10 ^ p + dec_val fs * 10 ^ (p - length fs), r)"
proof -
  let ?f = "dec_val fs"
  have f: "0 \<le> ?f" "?f < 10 ^ length fs" using dec_val_less [OF fs(2)] by auto
  have vp: "v * 10 ^ p \<le> 2 ^ 63"
    using le f by (smt (verit) mult_nonneg_nonneg zero_le_power)
  moreover have "v \<le> v * 10 ^ p" using assms(4) by (simp add: mult_le_cancel_left1)
  ultimately have v: "v \<le> 2 ^ 63" by linarith
  have "leadingInt 0 (dec_string v @ CHR ''.'' # fs @ u @ r) =
      Some (dec_from 0 (dec_string v), CHR ''.'' # fs @ u @ r)"
    using assms(4) v dec_string_digits [of v]
    by (intro leadingInt_digits) (auto simp: dec_from_dec_string stops_def is_digit_def)
  moreover have "parse_fraction (CHR ''.'' # fs @ u @ r) = (?f, Finite (10 ^ length fs), u @ r, True)"
    using leadingFraction_digits [OF fs(2), of "u @ r" 0 0] unit_name_stops [OF assms(1), of r] fs assms(2)
    by (simp add: parse_fraction_def dec_val_def)
  moreover have "fraction_ns ?f (Finite (10 ^ length fs)) (10 ^ p) = ?f * 10 ^ (p - length fs)"
    using f fs assms(2) by (intro fraction_ns_exact) auto
  moreover have "\<not> 2 ^ 63 div 10 ^ p < v"
    using vp by (intro le_div_of_mult_le) auto
  ultimately show ?thesis
    using assms unit_split [of u r] dec_string_hd [OF assms(4)] f le
    by (auto simp: parse_component_def dec_from_dec_string unit_name_def Let_def)
qed

text \<open>The component that carries the fraction, whatever integer part is printed before it.\<close>

lemma parse_component_fmtFrac:
  assumes "unit_name u (10 ^ p)" "p \<le> 9" "0 \<le> n" "0 \<le> a" "a * 10 ^ p + n mod 10 ^ p \<le> 2 ^ 63"
    and w: "fmtFrac u n p = (w, v)"
  shows "v = n div 10 ^ p \<and> parse_component (dec_string a @ w) = Some (a * 10 ^ p + n mod 10 ^ p, [])"
proof -
  from fmtFrac_loop_start [OF assms(3), of p u] obtain fs where
    fs: "fmtFrac_loop p n False u = (fs @ u, n div 10 ^ p, fs \<noteq> [])" "length fs \<le> p"
      "\<forall>c \<in> set fs. is_digit c" "dec_val fs * 10 ^ (p - length fs) = n mod 10 ^ p"
    by blast
  show ?thesis
  proof (cases "fs = []")
    case True
    then have "n mod 10 ^ p = 0" using fs(4) by (simp add: dec_val_def)
    with True assms fs(1) parse_component_int [of u "10 ^ p" "[]" a] show ?thesis
      by (simp add: fmtFrac_def number_next_def)
  next
    case False
    with assms fs parse_component_frac [OF assms(1,2) _ assms(4) False fs(3,2), of "[]"] show ?thesis
      by (simp add: fmtFrac_def number_next_def)
  qed
qed

lemma parse_components_step:
  "parse_component s = Some (v, r) \<Longrightarrow> 0 \<le> d \<Longrightarrow> 0 \<le> v \<Longrightarrow> d + v \<le> 2 ^ 63 \<Longrightarrow>
     parse_components d s = parse_components (d + v) r"
  by (cases "s = []") (simp_all add: parse_components.simps [of d s] parse_component_def [of "[]"])

lemma parse_components_Nil [simp]: "parse_components d [] = Some d"
  by (simp add: parse_components.simps)

lemma unit_names:
  "unit_name ''ns'' (10 ^ 0)" "unit_name (micro_sign @ ''s'') (10 ^ 3)" "unit_name ''ms'' (10 ^ 6)"
  "unit_name ''s'' (10 ^ 9)" "unit_name ''m'' 60000000000" "unit_name ''h'' 3600000000000"
  by (simp_all add: unit_name_def unitMap_def num_char_def is_digit_def micro_sign_def)

lemma parse_small:
  assumes "unit_name u (10 ^ p)" "p \<le> 9" "0 \<le> n" "n \<le> 2 ^ 63" "fmtFrac u n p = (w, v)"
  shows "parse_components 0 (dec_string v @ w) = Some n"
proof -
  have "n div 10 ^ p * 10 ^ p + n mod 10 ^ p = n" by (rule div_mult_mod_eq)
  then have "parse_component (dec_string (n div 10 ^ p) @ w) = Some (n, [])" "v = n div 10 ^ p"
    using parse_component_fmtFrac [OF assms(1,2,3) _ _ assms(5), of "n div 10 ^ p"] assms(3,4)
    by (auto simp: pos_imp_zdiv_nonneg_iff)
  then show ?thesis
    using parse_components_step [of _ n "[]" 0] assms(3,4) by simp
qed

lemma number_next_dec: "0 \<le> v \<Longrightarrow> number_next (dec_string v @ r)"
  using dec_string_hd [of v r] by (simp add: number_next_def)

lemma parse_large:
  assumes n: "0 \<le> n" "n \<le> 2 ^ 63" and w: "fmtFrac ''s'' n 9 = (w, v)"
  defines "s \<equiv> v mod 60" and "m \<equiv> v div 60 mod 60" and "h \<equiv> v div 60 div 60"
  shows "parse_components 0 (dec_string h @ ''h'' @ dec_string m @ ''m'' @ dec_string s @ w) = Some n"
    and "h = 0 \<Longrightarrow> parse_components 0 (dec_string m @ ''m'' @ dec_string s @ w) = Some n"
    and "h = 0 \<Longrightarrow> m = 0 \<Longrightarrow> parse_components 0 (dec_string s @ w) = Some n"
proof -
  have u9: "unit_name ''s'' (10 ^ 9)" by (rule unit_names)
  have "v = n div 10 ^ 9"
    using parse_component_fmtFrac [OF u9 _ n(1) _ _ w, of 0] pos_mod_bound [of "10 ^ 9 :: int" n]
    by simp
  then have v: "0 \<le> v" "v * 1000000000 + n mod 1000000000 = n" using n(1) by simp_all
  have parts: "0 \<le> s" "s < 60" "0 \<le> m" "m < 60" "0 \<le> h" "v = 3600 * h + 60 * m + s"
    using v(1) unfolding s_def m_def h_def by (simp_all add: pos_imp_zdiv_nonneg_iff) presburger
  have total: "h * 3600000000000 + m * 60000000000 + (s * 1000000000 + n mod 1000000000) = n"
    using v(2) parts(6) by simp
  have nn: "0 \<le> n mod 1000000000" by simp
  have sec: "parse_component (dec_string s @ w) = Some (s * 1000000000 + n mod 1000000000, [])"
    using parse_component_fmtFrac [OF u9 _ n(1) parts(1) _ w] total parts n nn by simp
  have mn: "parse_component (dec_string m @ ''m'' @ dec_string s @ w) =
      Some (m * 60000000000, dec_string s @ w)"
    using parts total n nn by (intro parse_component_int number_next_dec unit_names) auto
  have hr: "parse_component (dec_string h @ ''h'' @ dec_string m @ ''m'' @ dec_string s @ w) =
      Some (h * 3600000000000, dec_string m @ ''m'' @ dec_string s @ w)"
    using parts total n nn by (intro parse_component_int number_next_dec unit_names) auto
  show "parse_components 0 (dec_string h @ ''h'' @ dec_string m @ ''m'' @ dec_string s @ w) = Some n"
    using total parts n nn
    by (simp only: parse_components_step [OF hr] parse_components_step [OF mn]
        parse_components_step [OF sec]) simp
  show "h = 0 \<Longrightarrow> parse_components 0 (dec_string m @ ''m'' @ dec_string s @ w) = Some n"
    using total parts n nn parse_components_step [OF mn, of 0]
      parse_components_step [OF sec, of "m * 60000000000"] by simp
  show "h = 0 \<Longrightarrow> m = 0 \<Longrightarrow> parse_components 0 (dec_string s @ w) = Some n"
    using total parts n nn parse_components_step [OF sec, of 0] by simp
qed

lemma parse_duration_abs:
  assumes "0 \<le> n" "n \<le> 2 ^ 63"
  shows "parse_components 0 (duration_abs n) = Some n"
proof -
  have "dec_string 0 = ''0''" by (simp add: dec_string.simps digit_char_def char_of_def)
  then have zero: "parse_components 0 ''0s'' = Some 0"
    using parse_components_step [OF parse_component_int [OF unit_names(4), of "[]" 0], of 0]
    by (simp add: number_next_def)
  show ?thesis
    using zero assms parse_small [OF unit_names(1) _ assms] parse_small [OF unit_names(2) _ assms]
      parse_small [OF unit_names(3) _ assms] parse_large [OF assms]
    by (auto simp: duration_abs_def fmtInt_def Let_def split: prod.splits)
qed

lemma duration_abs_hd: "0 \<le> n \<Longrightarrow> duration_abs n \<noteq> [] \<and> is_digit (hd (duration_abs n))"
proof -
  assume n: "0 \<le> n"
  have dec: "is_digit (hd (dec_string k))" if "0 \<le> k" for k
    using dec_string_digits [OF that] by (cases "dec_string k") auto
  have frac: "0 \<le> v" if "fmtFrac u n k = (w, v)" for u k w v
    using fmtFrac_loop_start [OF n, of k u] that n by (auto simp: fmtFrac_def pos_imp_zdiv_nonneg_iff)
  show ?thesis
    using n by (auto simp: duration_abs_def fmtInt_def Let_def is_digit_def [of "CHR ''0''"]
        split: prod.splits dest!: frac simp: dec pos_imp_zdiv_nonneg_iff)
qed

lemma parse_bare_zero: "parse_components 0 ''0'' = None"
  by (simp add: parse_components.simps parse_component_def num_char_def parse_fraction_def
      is_digit_def digit_val_def)

text \<open>
  Every 64-bit duration, the most negative one included, is parsed back from its printed form.
\<close>

lemma ParseDuration_String:
  assumes "int64 d"
  shows "ParseDuration (duration_String d) = Some d"
proof -
  let ?s = "duration_abs \<bar>d\<bar>"
  have parse: "parse_components 0 ?s = Some \<bar>d\<bar>"
    using assms by (intro parse_duration_abs) (auto simp: int64_def)
  have hd: "?s \<noteq> []" "is_digit (hd ?s)" using duration_abs_hd [of "\<bar>d\<bar>"] by auto
  then have sign: "hd ?s \<noteq> CHR ''-''" "hd ?s \<noteq> CHR ''+''" by (auto simp: is_digit_def)
  have "?s \<noteq> ''0''" using parse parse_bare_zero by auto
  moreover have "wrap64 (- wrap64 \<bar>d\<bar>) = d" if "d < 0"
  proof (cases "d = - (2 ^ 63)")
    case True
    then show ?thesis by (simp add: wrap64_def)
  next
    case False
    with that assms have "int64 \<bar>d\<bar>" by (auto simp: int64_def)
    with that assms show ?thesis by simp
  qed
  ultimately show ?thesis
    using assms hd sign parse by (auto simp: ParseDuration_def duration_String_def int64_def)
qed

end
