(* ===== verification/Go_RFC3339.thy ===== *)
theory Go_RFC3339
  imports Sundial_Prelude
begin

text \<open>
  \<open>Time.Format(time.RFC3339)\<close> on a UTC time and \<open>time.Parse(time.RFC3339, _)\<close>: the library
  functions by which an \<open>at\<close> schedule is stored and read back. The layout has no fraction, so
  printing drops what is below a second; the last section proves that parsing returns the instant
  truncated to the second, for the years 1 to 9999.
\<close>

section \<open>The calendar\<close>

definition isLeap :: "int \<Rightarrow> bool" where
  "isLeap y \<longleftrightarrow> y mod 4 = 0 \<and> (y mod 100 \<noteq> 0 \<or> y mod 400 = 0)"

definition daysBefore :: "int \<Rightarrow> int" where
  "daysBefore m = [0, 31, 59, 90, 120, 151, 181, 212, 243, 273, 304, 334, 365] ! nat m"

definition daysIn :: "int \<Rightarrow> int \<Rightarrow> int" where
  "daysIn m y = (if m = 2 \<and> isLeap y then 29 else daysBefore m - daysBefore (m - 1))"

text \<open>Days from 0001-01-01 to the first day of a year, and to a date.\<close>

definition daysSinceYear1 :: "int \<Rightarrow> int" where
  "daysSinceYear1 y = 365 * (y - 1) + (y - 1) div 4 - (y - 1) div 100 + (y - 1) div 400"

definition days_of_date :: "int \<Rightarrow> int \<Rightarrow> int \<Rightarrow> int" where
  "days_of_date y m d =
     daysSinceYear1 y + daysBefore (m - 1) + (if isLeap y \<and> 3 \<le> m then 1 else 0) + d - 1"

text \<open>The year and day of the year of a day number, by 400-, 100-, 4- and 1-year cycles.\<close>

definition year_yday :: "int \<Rightarrow> int \<times> int" where
  "year_yday days =
     (let n400 = days div 146097; d = days mod 146097;
          n100 = d div 36524; n100 = n100 - n100 div 4; d = d - 36524 * n100;
          n4 = d div 1461; d = d - 1461 * n4;
          n1 = d div 365; n1 = n1 - n1 div 4
      in (400 * n400 + 100 * n100 + 4 * n4 + n1 + 1, d - 365 * n1))"

definition month_day :: "bool \<Rightarrow> int \<Rightarrow> int \<times> int" where
  "month_day leap yday =
     (if leap \<and> yday = 59 then (2, 29)
      else
        let day = (if leap \<and> 59 < yday then yday - 1 else yday);
            m = day div 31; e = daysBefore (m + 1)
        in if e \<le> day then (m + 2, day - e + 1) else (m + 1, day - daysBefore m + 1))"

section \<open>Format\<close>

definition appendInt :: "int \<Rightarrow> nat \<Rightarrow> string" where
  "appendInt x width =
     (let ds = dec_string \<bar>x\<bar>
      in (if x < 0 then ''-'' else []) @ replicate (width - length ds) (CHR ''0'') @ ds)"

definition time_Format :: "gotime \<Rightarrow> string" where
  "time_Format t =
     (let secs = t div 1000000000; days = secs div 86400; sod = secs mod 86400;
          (y, yday) = year_yday days; (m, d) = month_day (isLeap y) yday
      in appendInt y 4 @ ''-'' @ appendInt m 2 @ ''-'' @ appendInt d 2 @ ''T'' @
         appendInt (sod div 3600) 2 @ '':'' @ appendInt (sod div 60 mod 60) 2 @ '':'' @
         appendInt (sod mod 60) 2 @ ''Z'')"

section \<open>Parse\<close>

definition is_digit_at :: "string \<Rightarrow> nat \<Rightarrow> bool" where
  "is_digit_at s i \<longleftrightarrow> i < length s \<and> is_digit (s ! i)"

definition getnum :: "string \<Rightarrow> bool \<Rightarrow> (int \<times> string) option" where
  "getnum s fixed =
     (if \<not> is_digit_at s 0 then None
      else if \<not> is_digit_at s 1 then
        (if fixed then None else Some (digit_val (s ! 0), drop 1 s))
      else Some (digit_val (s ! 0) * 10 + digit_val (s ! 1), drop 2 s))"

definition skip :: "char \<Rightarrow> string \<Rightarrow> string option" where
  "skip c s = (if s \<noteq> [] \<and> hd s = c then Some (tl s) else None)"

definition parse_year :: "string \<Rightarrow> (int \<times> string) option" where
  "parse_year s =
     (if 4 \<le> length s \<and> list_all is_digit (take 4 s) then Some (dec_val (take 4 s), drop 4 s) else None)"

text \<open>
  A fraction of a second is accepted after the seconds although the layout has none; it is cut
  after nine digits.
\<close>

definition parse_nanos :: "string \<Rightarrow> int \<times> string" where
  "parse_nanos s =
     (if 2 \<le> length s \<and> s ! 0 \<in> {CHR ''.'', CHR '',''} \<and> is_digit_at s 1 then
        let ds = takeWhile is_digit (tl s); ds9 = take 9 ds
        in (dec_val ds9 * 10 ^ (9 - length ds9), drop (length ds) (tl s))
      else (0, s))"

text \<open>The zone: \<open>Z\<close>, or a signed \<open>hh:mm\<close> offset, in seconds east of UTC.\<close>

definition parse_zone :: "string \<Rightarrow> (int \<times> string) option" where
  "parse_zone s =
     (if s \<noteq> [] \<and> hd s = CHR ''Z'' then Some (0, tl s)
      else if length s < 6 \<or> s ! 3 \<noteq> CHR '':'' then None
      else case (getnum (take 2 (drop 1 s)) True, getnum (take 2 (drop 4 s)) True) of
        (Some (hr, _), Some (mm, _)) \<Rightarrow>
          if 24 < hr \<or> 60 < mm then None
          else if s ! 0 = CHR ''+'' then Some ((hr * 60 + mm) * 60, drop 6 s)
          else if s ! 0 = CHR ''-'' then Some (- ((hr * 60 + mm) * 60), drop 6 s)
          else None
      | _ \<Rightarrow> None)"

definition time_Parse :: "string \<Rightarrow> gotime option" where
  "time_Parse s =
     Option.bind (parse_year s) (\<lambda>(y, s).
     Option.bind (skip (CHR ''-'') s) (\<lambda>s.
     Option.bind (getnum s True) (\<lambda>(mo, s).
     if mo \<le> 0 \<or> 12 < mo then None else
     Option.bind (skip (CHR ''-'') s) (\<lambda>s.
     Option.bind (getnum s True) (\<lambda>(d, s).
     Option.bind (skip (CHR ''T'') s) (\<lambda>s.
     Option.bind (getnum s False) (\<lambda>(h, s).
     if 24 \<le> h then None else
     Option.bind (skip (CHR '':'') s) (\<lambda>s.
     Option.bind (getnum s True) (\<lambda>(mi, s).
     if 60 \<le> mi then None else
     Option.bind (skip (CHR '':'') s) (\<lambda>s.
     Option.bind (getnum s True) (\<lambda>(sec, s).
     if 60 \<le> sec then None else
     case parse_nanos s of (ns, s) \<Rightarrow>
     Option.bind (parse_zone s) (\<lambda>(off, s).
     if s \<noteq> [] \<or> d < 1 \<or> daysIn mo y < d then None
     else Some ((days_of_date y mo d * 86400 + h * 3600 + mi * 60 + sec - off) * 1000000000 + ns)))))))))))))"

section \<open>Dates and day numbers\<close>

lemma div_sandwich: "0 < n \<Longrightarrow> n * (x div n) \<le> x \<and> x < n * (x div n) + n"
  for n x :: int
  by (smt (verit, best) mult_div_mod_eq pos_mod_bound pos_mod_sign)

text \<open>The index in a run of four equal cycles, where the last one may be a day longer.\<close>

lemma four_cycles:
  fixes d l :: int
  assumes "0 < l" "0 \<le> d" "d \<le> 4 * l"
  defines "k \<equiv> d div l - d div l div 4"
  shows "0 \<le> k" "k \<le> 3" "l * k \<le> d" "k \<noteq> 3 \<Longrightarrow> d < l * k + l" "k = 3 \<Longrightarrow> d \<le> l * k + l"
proof -
  let ?q = "d div l"
  have q: "l * ?q \<le> d" "d < l * ?q + l" using div_sandwich [OF assms(1), of d] by auto
  have q0: "0 \<le> ?q" using assms by (simp add: pos_imp_zdiv_nonneg_iff)
  have q4: "?q \<le> 4"
  proof (rule ccontr)
    assume "\<not> ?q \<le> 4"
    then have "l * 5 \<le> l * ?q" using assms(1) by (intro mult_left_mono) auto
    with q assms show False by linarith
  qed
  have "?q = 4 \<and> k = 3 \<or> ?q \<le> 3 \<and> k = ?q"
    using q0 q4 by (auto simp: k_def div_pos_pos_trivial)
  then show "0 \<le> k" "k \<le> 3" "l * k \<le> d" "k \<noteq> 3 \<Longrightarrow> d < l * k + l" "k = 3 \<Longrightarrow> d \<le> l * k + l"
    using q q0 assms by auto
qed

lemma daysSinceYear1_cycles:
  assumes "0 \<le> b" "b \<le> 3" "0 \<le> c" "c \<le> 24" "0 \<le> e" "e \<le> 3"
  shows "daysSinceYear1 (400 * a + 100 * b + 4 * c + e + 1) = 146097 * a + 36524 * b + 1461 * c + 365 * e"
    and "isLeap (400 * a + 100 * b + 4 * c + e + 1) \<longleftrightarrow> e = 3 \<and> (c < 24 \<or> b = 3)"
proof -
  let ?q = "400 * a + 100 * b + 4 * c + e"
  have "?q div 4 = 100 * a + 25 * b + c" "?q div 100 = 4 * a + b" "?q div 400 = a"
    using assms by auto
  then show "daysSinceYear1 (?q + 1) = 146097 * a + 36524 * b + 1461 * c + 365 * e"
    by (simp add: daysSinceYear1_def)
  show "isLeap (?q + 1) \<longleftrightarrow> e = 3 \<and> (c < 24 \<or> b = 3)"
  proof -
    have m4: "(?q + 1) mod 4 = (e + 1) mod 4"
      using mod_mult_self2 [of "e + 1" 4 "100 * a + 25 * b + c"] by (simp add: algebra_simps)
    have m100: "(?q + 1) mod 100 = (4 * c + e + 1) mod 100"
      using mod_mult_self2 [of "4 * c + e + 1" 100 "4 * a + b"] by (simp add: algebra_simps)
    have m400: "(?q + 1) mod 400 = (100 * b + 4 * c + e + 1) mod 400"
      using mod_mult_self2 [of "100 * b + 4 * c + e + 1" 400 a] by (simp add: algebra_simps)
    have e: "(e + 1) mod 4 = 0 \<longleftrightarrow> e = 3" using assms(5,6) by presburger
    have c: "(4 * c + 3 + 1) mod 100 = 0 \<longleftrightarrow> c = 24" using assms(3,4) by presburger
    have b: "(100 * b + 4 * 24 + 3 + 1) mod 400 = 0 \<longleftrightarrow> b = 3" using assms(1,2) by presburger
    show ?thesis
    proof (cases "e = 3")
      case True
      then show ?thesis
        unfolding isLeap_def m4 e using m100 m400 b c assms(4) by (cases "c = 24") auto
    qed (simp add: isLeap_def m4 e)
  qed
qed

lemma far_years:
  fixes q :: int
  shows "9999 \<le> q \<Longrightarrow> q < 4 * a + 4 \<Longrightarrow> 100 * b \<le> q \<Longrightarrow> q < 400 * c + 400 \<Longrightarrow>
    3652059 \<le> 365 * q + a - b + c"
  by linarith

lemma year_zero_or_before:
  fixes q :: int
  shows "q \<le> - 2 \<Longrightarrow> 4 * a \<le> q \<Longrightarrow> q < 100 * b + 100 \<Longrightarrow> 400 * c \<le> q \<Longrightarrow> 365 * q + a - b + c \<le> - 366"
  by linarith

lemma digits_sum: "x = 10 * a + d \<Longrightarrow> a = 10 * b + c \<Longrightarrow> b = 10 * e + f \<Longrightarrow> x = 1000 * e + 100 * f + 10 * c + d"
  for x :: int
  by simp

lemma hms_sum: "x = 60 * a + s \<Longrightarrow> a = 60 * h + m \<Longrightarrow> x = h * 3600 + m * 60 + s"
  for x :: int
  by simp

lemma year_yday_correct:
  assumes "year_yday n = (y, yd)"
  shows "n = daysSinceYear1 y + yd" and "0 \<le> yd" and "yd < 365 + (if isLeap y then 1 else 0)"
proof -
  define a d0 where "a = n div 146097" and "d0 = n mod 146097"
  define b where "b = d0 div 36524 - d0 div 36524 div 4"
  define d1 where "d1 = d0 - 36524 * b"
  define c where "c = d1 div 1461"
  define d2 where "d2 = d1 - 1461 * c"
  define e where "e = d2 div 365 - d2 div 365 div 4"
  have res: "y = 400 * a + 100 * b + 4 * c + e + 1" "yd = d2 - 365 * e"
    using assms [unfolded year_yday_def Let_def, folded a_def d0_def, folded b_def, folded d1_def,
        folded c_def, folded d2_def, folded e_def]
    by (simp_all only: prod.inject)
  have d0: "n = 146097 * a + d0" "0 \<le> d0" "d0 < 146097"
    by (simp_all add: a_def d0_def)
  then have b: "0 \<le> b" "b \<le> 3" "0 \<le> d1" "d1 < 36524 + (if b = 3 then 1 else 0)"
    using four_cycles [of 36524 d0] by (auto simp: d1_def b_def)
  have c: "0 \<le> c" "c \<le> 24" "0 \<le> d2" "d2 < 1461" "c = 24 \<Longrightarrow> b \<noteq> 3 \<Longrightarrow> d2 < 1460"
    using div_sandwich [of 1461 d1] b unfolding d2_def c_def by (auto split: if_splits)
  have "0 < (365::int)" "d2 \<le> 4 * 365" using c by auto
  note cyc = four_cycles [OF this(1) c(3) this(2), folded e_def]
  have e: "0 \<le> e" "e \<le> 3" "0 \<le> d2 - 365 * e" "d2 - 365 * e \<le> 365"
      "e \<noteq> 3 \<Longrightarrow> d2 - 365 * e < 365"
    using cyc by linarith+
  show "n = daysSinceYear1 y + yd"
    using daysSinceYear1_cycles(1) [OF b(1,2) c(1,2) e(1,2), of a] res d0(1)
    by (simp add: d1_def d2_def)
  show "0 \<le> yd" using e res by simp
  show "yd < 365 + (if isLeap y then 1 else 0)"
    unfolding res daysSinceYear1_cycles(2) [OF b(1,2) c(1,2) e(1,2)]
    using e c by (cases "e = 3") auto
qed

definition month_day_ok :: "bool \<Rightarrow> int \<Rightarrow> bool" where
  "month_day_ok leap yd \<longleftrightarrow>
     (case month_day leap yd of (m, d) \<Rightarrow>
        1 \<le> m \<and> m \<le> 12 \<and> 1 \<le> d \<and>
        d \<le> (if m = 2 \<and> leap then 29 else daysBefore m - daysBefore (m - 1)) \<and>
        daysBefore (m - 1) + (if leap \<and> 3 \<le> m then 1 else 0) + d - 1 = yd)"

lemma month_day_table: "list_all (month_day_ok True) [0..365]" "list_all (month_day_ok False) [0..364]"
  by code_simp+

lemma month_day_correct:
  "0 \<le> yd \<Longrightarrow> yd < 365 + (if leap then 1 else 0) \<Longrightarrow> month_day_ok leap yd"
  using month_day_table by (cases leap) (auto simp: list_all_iff)

lemma date_correct:
  assumes "year_yday n = (y, yd)" "month_day (isLeap y) yd = (m, d)"
  shows "days_of_date y m d = n" "1 \<le> m" "m \<le> 12" "1 \<le> d" "d \<le> daysIn m y" "d \<le> 31"
proof -
  note yd = year_yday_correct [OF assms(1)]
  have ok: "month_day_ok (isLeap y) yd" using yd(2,3) by (rule month_day_correct)
  then show m: "1 \<le> m" "m \<le> 12" "1 \<le> d"
    using assms(2) by (auto simp: month_day_ok_def)
  show d: "d \<le> daysIn m y"
    using ok assms(2) by (auto simp: month_day_ok_def daysIn_def)
  show "days_of_date y m d = n"
    using ok assms(2) yd(1) by (auto simp: month_day_ok_def days_of_date_def)
  have "list_all (\<lambda>m. daysBefore m - daysBefore (m - 1) \<le> 31) [1..12]" by code_simp
  then have "daysBefore m - daysBefore (m - 1) \<le> 31" using m by (simp add: list_all_iff)
  with d show "d \<le> 31" by (auto simp: daysIn_def split: if_splits)
qed

lemma year_bound: "year_yday n = (y, yd) \<Longrightarrow> 0 \<le> n \<Longrightarrow> n < 3652059 \<Longrightarrow> 1 \<le> y \<and> y \<le> 9999"
proof -
  assume a: "year_yday n = (y, yd)" "0 \<le> n" "n < 3652059"
  from year_yday_correct [OF a(1)] have b: "daysSinceYear1 y \<le> n" "n < daysSinceYear1 y + 366"
    by (auto split: if_splits)
  have sw: "4 * ((y - 1) div 4) \<le> y - 1" "y - 1 < 4 * ((y - 1) div 4) + 4"
      "100 * ((y - 1) div 100) \<le> y - 1" "y - 1 < 100 * ((y - 1) div 100) + 100"
      "400 * ((y - 1) div 400) \<le> y - 1" "y - 1 < 400 * ((y - 1) div 400) + 400"
    using div_sandwich [of 4 "y - 1"] div_sandwich [of 100 "y - 1"] div_sandwich [of 400 "y - 1"]
    by simp_all
  have "y < 10000"
  proof (rule ccontr)
    assume "\<not> y < 10000"
    then have "3652059 \<le> daysSinceYear1 y"
      using sw unfolding daysSinceYear1_def by (intro far_years) auto
    with a(3) b(1) show False by linarith
  qed
  moreover have "0 < y"
  proof (rule ccontr)
    assume "\<not> 0 < y"
    then have "daysSinceYear1 y \<le> - 366"
      using sw unfolding daysSinceYear1_def
      by (cases "y = 0") (simp, intro year_zero_or_before, auto)
    with a(2) b(2) show False by linarith
  qed
  ultimately show ?thesis by simp
qed

section \<open>Printing and parsing back\<close>

lemma appendInt_2:
  assumes "0 \<le> x" "x < 100"
  shows "appendInt x 2 = [digit_char (x div 10), digit_char (x mod 10)]"
proof (cases "x < 10")
  case True
  with assms show ?thesis
    by (simp add: appendInt_def dec_string.simps [of x] digit_char_def char_of_def div_pos_pos_trivial)
next
  case False
  with assms have "x div 10 < 10" by simp
  with False assms show ?thesis
    by (simp add: appendInt_def dec_string.simps [of x] dec_string.simps [of "x div 10"])
qed

lemma getnum_appendInt_2:
  "0 \<le> x \<Longrightarrow> x < 100 \<Longrightarrow> getnum (appendInt x 2 @ s) fixed = Some (x, s)"
  by (simp add: appendInt_2 getnum_def is_digit_at_def)

lemma digits4:
  assumes "0 \<le> x" "x < 10000"
  obtains a b c d where "appendInt x 4 = [digit_char a, digit_char b, digit_char c, digit_char d]"
    "x = 1000 * a + 100 * b + 10 * c + d" "0 \<le> a" "a < 10" "0 \<le> b" "b < 10" "0 \<le> c" "c < 10" "0 \<le> d" "d < 10"
proof -
  have zero: "digit_char 0 = CHR ''0''" by (simp add: digit_char_def char_of_def)
  have step: "dec_string n = (if n < 10 then [digit_char n] else dec_string (n div 10) @ [digit_char (n mod 10)])" for n
    by (rule dec_string.simps)
  let ?a = "x div 1000" and ?b = "x div 100 mod 10" and ?c = "x div 10 mod 10" and ?d = "x mod 10"
  have dd: "x div 10 div 10 = x div 100" "x div 100 div 10 = x div 1000"
    by (simp_all add: div_mult2_eq [symmetric] zdiv_zmult2_eq [symmetric])
  consider "x < 10" | "10 \<le> x" "x < 100" | "100 \<le> x" "x < 1000" | "1000 \<le> x" by linarith
  then have app: "appendInt x 4 = [digit_char ?a, digit_char ?b, digit_char ?c, digit_char ?d]"
  proof cases
    case 1
    then show ?thesis
      using assms zero by (simp add: appendInt_def step [of x] div_pos_pos_trivial eval_nat_numeral)
  next
    case 2
    then have "x div 10 < 10" "x div 100 = 0" "x div 1000 = 0" "x div 10 mod 10 = x div 10"
      using assms by auto
    with 2 show ?thesis
      using assms zero by (simp add: appendInt_def step [of x] step [of "x div 10"] eval_nat_numeral)
  next
    case 3
    then have "\<not> x div 10 < 10" "x div 100 < 10" "x div 1000 = 0" "x div 100 mod 10 = x div 100"
      using assms by auto
    with 3 show ?thesis
      using assms zero dd
      by (simp add: appendInt_def step [of x] step [of "x div 10"] step [of "x div 100"] eval_nat_numeral)
  next
    case 4
    then have "\<not> x div 10 < 10" "\<not> x div 100 < 10" "x div 1000 < 10"
      using assms by auto
    with 4 show ?thesis
      using assms dd
      by (simp add: appendInt_def step [of x] step [of "x div 10"] step [of "x div 100"]
          step [of "x div 1000"])
  qed
  have eq: "x = 1000 * ?a + 100 * ?b + 10 * ?c + ?d"
    by (rule digits_sum [OF mult_div_mod_eq [of 10 x, symmetric]
          mult_div_mod_eq [of 10 "x div 10", symmetric, unfolded dd]
          mult_div_mod_eq [of 10 "x div 100", symmetric, unfolded dd]])
  have top: "0 \<le> ?a" "?a < 10" using assms by auto
  have low: "0 \<le> ?b" "?b < 10" "0 \<le> ?c" "?c < 10" "0 \<le> ?d" "?d < 10"
    by (simp_all only: pos_mod_sign pos_mod_bound zero_less_numeral)
  show ?thesis by (rule that [OF app eq top low])
qed

lemma parse_year_appendInt: "0 \<le> y \<Longrightarrow> y < 10000 \<Longrightarrow> parse_year (appendInt y 4 @ s) = Some (y, s)"
  by (rule digits4 [of y]) (auto simp: parse_year_def dec_val_def)

lemma time_Parse_fields:
  assumes "0 \<le> y" "y < 10000" "1 \<le> m" "m \<le> 12" "1 \<le> d" "d \<le> daysIn m y" "d \<le> 31"
    "0 \<le> h" "h < 24" "0 \<le> mi" "mi < 60" "0 \<le> s" "s < 60"
  shows "time_Parse (appendInt y 4 @ ''-'' @ appendInt m 2 @ ''-'' @ appendInt d 2 @ ''T'' @
      appendInt h 2 @ '':'' @ appendInt mi 2 @ '':'' @ appendInt s 2 @ ''Z'') =
    Some ((days_of_date y m d * 86400 + h * 3600 + mi * 60 + s) * 1000000000)"
  using assms
  by (simp add: time_Parse_def parse_year_appendInt getnum_appendInt_2 skip_def parse_nanos_def
      parse_zone_def)

text \<open>
  The instants of the years 1 to 9999: parsing the printed instant returns it without its
  fraction of a second.
\<close>

lemma time_Parse_Format:
  assumes "0 \<le> t" "t < 3652059 * 86400 * 1000000000"
  shows "time_Parse (time_Format t) = Some (t div 1000000000 * 1000000000)"
proof -
  define secs where "secs = t div 1000000000"
  define days sod where "days = secs div 86400" and "sod = secs mod 86400"
  obtain y yd where y: "year_yday days = (y, yd)" by fastforce
  obtain m d where md: "month_day (isLeap y) yd = (m, d)" by fastforce
  have secs: "0 \<le> secs" "secs < 3652059 * 86400" using assms by (auto simp: secs_def)
  have days: "0 \<le> days" "days < 3652059" using secs by (auto simp: days_def)
  have sod: "0 \<le> sod" "sod < 86400" by (simp_all add: sod_def)
  note date = date_correct [OF y md]
  have yr: "0 \<le> y" "y < 10000" using year_bound [OF y days] by auto
  let ?h = "sod div 3600" and ?mi = "sod div 60 mod 60" and ?s = "sod mod 60"
  have hms: "0 \<le> ?h" "?h < 24" "sod = ?h * 3600 + ?mi * 60 + ?s"
  proof -
    show "0 \<le> ?h" "?h < 24" using sod by auto
    have "?h = sod div 60 div 60" by (simp add: zdiv_zmult2_eq [symmetric])
    then show "sod = ?h * 3600 + ?mi * 60 + ?s"
      using hms_sum [OF mult_div_mod_eq [of 60 sod, symmetric] mult_div_mod_eq [of 60 "sod div 60", symmetric]]
      by (simp only:)
  qed
  have secs_eq: "secs = days * 86400 + sod" unfolding days_def sod_def by (rule div_mult_mod_eq [symmetric])
  have "time_Format t = appendInt y 4 @ ''-'' @ appendInt m 2 @ ''-'' @ appendInt d 2 @ ''T'' @
         appendInt ?h 2 @ '':'' @ appendInt ?mi 2 @ '':'' @ appendInt ?s 2 @ ''Z''"
    unfolding time_Format_def Let_def secs_def [symmetric]
    unfolding days_def [symmetric] sod_def [symmetric] y by (simp only: prod.case md)
  then have "time_Parse (time_Format t) =
      Some ((days_of_date y m d * 86400 + ?h * 3600 + ?mi * 60 + ?s) * 1000000000)"
    using time_Parse_fields [OF yr date(2-6) hms(1,2), of ?mi ?s] by (simp only: pos_mod_sign pos_mod_bound zero_less_numeral)
  then show ?thesis
    using secs_eq date(1) hms(3) unfolding secs_def by (simp only: add.assoc)
qed

end
