(* ===== verification/Sundial_Schedule.thy ===== *)
theory Sundial_Schedule
  imports Go_Duration Go_RFC3339
begin

text \<open>
  \<open>schedule.go\<close> and \<open>cron.go\<close>: the \<open>Schedule\<close> interface, its three implementations, and
  \<open>iterateSchedule\<close>, the iterator behind the run-all recovery of missed fires. The cron parser
  (robfig/cron) is a parameter; a parsed cron schedule is the \<open>Next\<close> method of the value the
  parser returns. The locale \<open>fire_sequence\<close> is the contract the interface documents (\<open>Next\<close> is
  strictly later, or zero); \<open>slotted_sequence\<close> adds that \<open>Next\<close> returns the first fire
  after its argument, so that all instants between two fires agree on the next one.
\<close>

section \<open>Schedules\<close>

text \<open>A Go interface is open: \<open>userSchedule\<close> is an implementation of a caller's own.\<close>

datatype Schedule =
    intervalSchedule duration
  | atSchedule gotime
  | cronSchedule string "gotime \<Rightarrow> gotime"
  | userSchedule "gotime \<Rightarrow> gotime" string string

type_synonym cron_parser = "string \<Rightarrow> string + (gotime \<Rightarrow> gotime)"

fun schedule_Next :: "Schedule \<Rightarrow> gotime \<Rightarrow> gotime" where
  "schedule_Next (intervalSchedule d) after = time_Add after d"
| "schedule_Next (atSchedule t) after = (if t > after then t else zero_time)"
| "schedule_Next (cronSchedule expr parsed) after = parsed after"
| "schedule_Next (userSchedule nxt str kind) after = nxt after"

fun schedule_String :: "Schedule \<Rightarrow> string" where
  "schedule_String (intervalSchedule d) = duration_String d"
| "schedule_String (atSchedule t) = time_Format t"
| "schedule_String (cronSchedule expr parsed) = expr"
| "schedule_String (userSchedule nxt str kind) = str"

fun schedule_Kind :: "Schedule \<Rightarrow> string" where
  "schedule_Kind (intervalSchedule d) = ''every''"
| "schedule_Kind (atSchedule t) = ''at''"
| "schedule_Kind (cronSchedule expr parsed) = ''cron''"
| "schedule_Kind (userSchedule nxt str kind) = kind"

definition Every :: "duration \<Rightarrow> go_error + Schedule" where
  "Every d =
     (if d < Second then Inl (Wrapf (duration_String d) ErrInvalidSchedule)
      else Inr (intervalSchedule d))"

definition At :: "gotime \<Rightarrow> Schedule" where
  "At t = atSchedule t"

definition Cron :: "cron_parser \<Rightarrow> string \<Rightarrow> go_error + Schedule" where
  "Cron parse expr =
     (case parse expr of
        Inl err \<Rightarrow> Inl (Wrapf (expr @ err) ErrInvalidSchedule)
      | Inr parsed \<Rightarrow> Inr (cronSchedule expr parsed))"

section \<open>The missed-fire iterator\<close>

fun iterate_loop :: "Schedule \<Rightarrow> gotime \<Rightarrow> nat \<Rightarrow> gotime \<Rightarrow> gotime list" where
  "iterate_loop s until 0 t = []"
| "iterate_loop s until (Suc room) t =
     (let t' = schedule_Next s t
      in if IsZero t' \<or> \<not> t' < until then [] else t' # iterate_loop s until room t')"

definition iterateSchedule :: "Schedule option \<Rightarrow> gotime \<Rightarrow> gotime \<Rightarrow> int \<Rightarrow> gotime list" where
  "iterateSchedule s from until limit =
     (case s of
        None \<Rightarrow> []
      | Some s' \<Rightarrow>
          if \<not> from < until \<or> limit \<le> 0 then []
          else iterate_loop s' until (nat limit) from)"

section \<open>The contract of a schedule\<close>

locale fire_sequence =
  fixes s :: Schedule
  assumes next_later: "schedule_Next s t = zero_time \<or> t < schedule_Next s t"
begin

lemma loop_window:
  "sorted_wrt (<) (iterate_loop s until n t) \<and>
     (\<forall>f \<in> set (iterate_loop s until n t). t < f \<and> f < until)"
proof (induction n arbitrary: t)
  case 0
  show ?case by simp
next
  case (Suc n)
  show ?case
    using Suc.IH [of "schedule_Next s t"] next_later [of t]
    by (auto simp: IsZero_def Let_def intro: less_trans)
qed

lemma loop_length: "length (iterate_loop s until n t) \<le> n"
  by (induction n arbitrary: t) (auto simp: Let_def)

lemma loop_nth:
  "i < length (iterate_loop s until n t) \<Longrightarrow>
     iterate_loop s until n t ! i = (schedule_Next s ^^ Suc i) t"
proof (induction n arbitrary: t i)
  case 0
  then show ?case by simp
next
  case (Suc n)
  show ?case
  proof (cases i)
    case 0
    with Suc.prems show ?thesis by (auto simp: Let_def split: if_splits)
  next
    case (Suc j)
    with Suc.prems Suc.IH [of j "schedule_Next s t"] show ?thesis
      by (auto simp: Let_def funpow_swap1 split: if_splits)
  qed
qed

text \<open>When the iterator stops early, the next instant is zero or outside the window.\<close>

lemma loop_stops:
  "length (iterate_loop s until n t) = k \<Longrightarrow> k < n \<Longrightarrow>
     (schedule_Next s ^^ Suc k) t = zero_time \<or> until \<le> (schedule_Next s ^^ Suc k) t"
proof (induction n arbitrary: t k)
  case 0
  then show ?case by simp
next
  case (Suc n)
  show ?case
  proof (cases k)
    case 0
    with Suc.prems show ?thesis by (auto simp: Let_def IsZero_def split: if_splits)
  next
    case (Suc j)
    with Suc.prems Suc.IH [of "schedule_Next s t" j] show ?thesis
      by (auto simp: Let_def funpow_swap1 split: if_splits)
  qed
qed

end

locale slotted_sequence = fire_sequence +
  assumes next_first: "t \<le> u \<Longrightarrow> u < schedule_Next s t \<Longrightarrow> schedule_Next s u = schedule_Next s t"
begin

text \<open>
  No fire is skipped: the fire that follows an instant \<open>u\<close> of the window is returned, unless the
  limit cut the list, provided the schedule does not report "no further fire" in between.
\<close>

lemma loop_complete:
  "length (iterate_loop s until n t) < n \<Longrightarrow> t \<le> u \<Longrightarrow> schedule_Next s u < until \<Longrightarrow>
     (\<And>v. t \<le> v \<Longrightarrow> v \<le> u \<Longrightarrow> schedule_Next s v \<noteq> zero_time) \<Longrightarrow>
     schedule_Next s u \<in> set (iterate_loop s until n t)"
proof (induction n arbitrary: t)
  case 0
  then show ?case by simp
next
  case (Suc n)
  let ?t = "schedule_Next s t"
  have nz: "?t \<noteq> zero_time" using Suc.prems by simp
  then have later: "t < ?t" using next_later [of t] by simp
  show ?case
  proof (cases "u < ?t")
    case True
    then have "schedule_Next s u = ?t" using Suc.prems next_first by simp
    with nz Suc.prems show ?thesis by (auto simp: Let_def IsZero_def)
  next
    case False
    have "u < schedule_Next s u"
      using next_later [of u] Suc.prems(2) Suc.prems(4) [of u] by auto
    with False Suc.prems(3) have t: "?t < until" by simp
    then have "schedule_Next s u \<in> set (iterate_loop s until n ?t)"
      using nz False Suc.prems later by (intro Suc.IH) (auto simp: IsZero_def Let_def)
    with t nz show ?thesis by (auto simp: Let_def IsZero_def)
  qed
qed

end

text \<open>One-shot schedules keep the whole contract, interval schedules the first part.\<close>

interpretation at: slotted_sequence "At t" for t
  by unfold_locales (auto simp: At_def)

lemma Every_fire_sequence: "Every d = Inr s \<Longrightarrow> fire_sequence s"
  by unfold_locales (auto simp: Every_def Second_def time_Add_def split: if_splits)

lemma Every_Inr: "Every d = Inr s \<longleftrightarrow> Second \<le> d \<and> s = intervalSchedule d"
  by (auto simp: Every_def)

lemma Every_Inl: "Every d = Inl e \<longleftrightarrow> d < Second \<and> e = Wrapf (duration_String d) ErrInvalidSchedule"
  by (auto simp: Every_def)

text \<open>The iterator on an interval schedule in closed form.\<close>

lemma iterate_loop_interval:
  assumes "0 < d" "0 \<le> t"
  shows "iterate_loop (intervalSchedule d) until n t =
    map (\<lambda>k. t + k * d) [1..min (int n) ((until - t - 1) div d)]"
  using assms(2)
proof (induction n arbitrary: t)
  case 0
  then show ?case by simp
next
  case (Suc n)
  let ?m = "(until - t - 1) div d"
  have sub: "(until - (t + d) - 1) div d = ?m - 1"
    using assms(1) div_add_self2 [of d "until - t - 1 - d"] by (simp add: algebra_simps)
  show ?case
  proof (cases "t + d < until")
    case True
    have "d \<le> until - t - 1" using True by simp
    then have m: "1 \<le> ?m" using assms(1) by (metis div_self less_imp_neq zdiv_mono1)
    have "[1..min (int (Suc n)) ?m] = 1 # map (\<lambda>k. k + 1) [1..min (int n) (?m - 1)]"
      using m by (simp add: upto_rec1 [of 1] upto_shift min_def add.commute)
    moreover have "iterate_loop (intervalSchedule d) until n (t + d) =
        map (\<lambda>k. t + d + k * d) [1..min (int n) (?m - 1)]"
      using Suc.IH [of "t + d"] Suc.prems assms(1) sub by simp
    ultimately show ?thesis
      using True Suc.prems assms(1)
      by (simp add: Let_def IsZero_def time_Add_def algebra_simps comp_def)
  next
    case False
    then have "until - t - 1 < d" by simp
    then have "?m \<le> 0" using assms(1)
      by (smt (verit) div_pos_pos_trivial pos_imp_zdiv_neg_iff)
    with False show ?thesis by (simp add: Let_def time_Add_def)
  qed
qed

section \<open>Properties\<close>

text \<open>
  Property C26. On every schedule that keeps the documented contract of \<open>Next\<close> (a later
  instant, or zero) the iterator returns the successive fires after \<open>from\<close> in strictly increasing
  order, all of them inside the open window and at most \<open>limit\<close> of them; and when it returns fewer, the
  fire that follows is zero or not before the end of the window.
\<close>

theorem iterate_window:
  assumes "\<And>t. schedule_Next s t = zero_time \<or> t < schedule_Next s t" "from < until" "0 \<le> limit"
    and "fires = iterateSchedule (Some s) from until limit"
  shows "sorted_wrt (<) fires \<and> (\<forall>f \<in> set fires. from < f \<and> f < until) \<and> int (length fires) \<le> limit \<and>
    (\<forall>i < length fires. fires ! i = (schedule_Next s ^^ Suc i) from) \<and>
    (int (length fires) < limit \<longrightarrow>
      (schedule_Next s ^^ Suc (length fires)) from = zero_time \<or> until \<le> (schedule_Next s ^^ Suc (length fires)) from)"
proof -
  have fs: "fire_sequence s" using assms(1) by (rule fire_sequence.intro)
  have fires: "fires = iterate_loop s until (nat limit) from"
    using assms(2-4) by (cases "limit = 0") (simp_all add: iterateSchedule_def)
  have "int (length fires) \<le> limit"
    using fire_sequence.loop_length [OF fs, of until "nat limit" "from"] assms(3) fires by simp
  moreover have "(schedule_Next s ^^ Suc (length fires)) from = zero_time \<or> until \<le> (schedule_Next s ^^ Suc (length fires)) from"
    if "int (length fires) < limit"
    using fire_sequence.loop_stops [OF fs, of until "nat limit" "from" "length fires"] that fires by simp
  ultimately show ?thesis
    using fire_sequence.loop_window [OF fs, of until "nat limit" "from"]
      fire_sequence.loop_nth [OF fs, of _ until "nat limit" "from"] fires by blast
qed

theorem iterate_window_witness:
  "sorted_wrt (<) (iterateSchedule (Some (intervalSchedule Second)) 7 (10 * Second) 4) \<and>
   iterateSchedule (Some (intervalSchedule Second)) 7 (10 * Second) 4 = [1000000007, 2000000007, 3000000007, 4000000007]"
proof
  show "sorted_wrt (<) (iterateSchedule (Some (intervalSchedule Second)) 7 (10 * Second) 4)"
    using iterate_window [of "intervalSchedule Second" 7 "10 * Second" 4, OF _ _ _ refl]
    by (simp add: time_Add_def duration_units)
  show "iterateSchedule (Some (intervalSchedule Second)) 7 (10 * Second) 4 = [1000000007, 2000000007, 3000000007, 4000000007]"
    by code_simp
qed

text \<open>
  Property C27. On an interval schedule the iterator is the arithmetic progression of the
  window, cut at the limit: the loop is equivalent to its closed form.
\<close>

theorem iterate_every:
  assumes "Every d = Inr s" "0 \<le> from" "0 \<le> limit"
  shows "iterateSchedule (Some s) from until limit =
    map (\<lambda>k. from + k * d) [1..min limit ((until - from - 1) div d)]"
proof -
  have d: "0 < d" "s = intervalSchedule d" using assms(1) by (auto simp: Every_Inr Second_def)
  show ?thesis
  proof (cases "from < until \<and> 0 < limit")
    case True
    then show ?thesis
      using iterate_loop_interval [OF d(1) assms(2), of until "nat limit"] assms(3) d(2)
      by (simp add: iterateSchedule_def)
  next
    case False
    have "(until - from - 1) div d < 0" if "\<not> from < until"
      using that d(1) by (simp add: pos_imp_zdiv_neg_iff)
    with False assms(3) have "min limit ((until - from - 1) div d) \<le> 0" by auto
    with False show ?thesis by (auto simp: iterateSchedule_def)
  qed
qed

theorem iterate_every_witness:
  "iterateSchedule (Some (intervalSchedule (2 * Second))) 5 (7 * Second) 256 =
     map (\<lambda>k. 5 + k * (2 * Second)) [1..min 256 ((7 * Second - 5 - 1) div (2 * Second))]"
  using iterate_every [of "2 * Second" "intervalSchedule (2 * Second)" 5 256 "7 * Second"] by (simp add: Every_Inr duration_units)

end
