(* ===== verification/Sundial_Job.thy ===== *)
theory Sundial_Job
  imports Sundial_Schedule
begin

text \<open>
  \<open>job.go\<close>: handlers, missed-fire policies, retry policies, job options with their defaults,
  and the \<open>Job\<close> record. A handler is the caller's code: a function from what it can observe
  (its context) to how the call ends.
\<close>

section \<open>Handlers\<close>

text \<open>
  The context carries the deadline the dispatcher sets and stands for everything else the handler
  can observe (\<open>ctx_call\<close>), so that two calls of one handler can end differently. A call
  returns \<open>nil\<close> or an error (its text), or panics with a value (printed).
\<close>

record Context =
  ctx_deadline :: "gotime option"
  ctx_call :: nat

text \<open>
  What a call of a handler that ends can do. A call that never ends is an event of the loop when the loop
  itself makes it (\<open>On_hung_tick\<close> in \<open>Sundial_Dispatcher\<close>), and an execution that is never settled when a goroutine does
  (\<open>Sundial_Cluster\<close>).
\<close>

datatype handler_result = Returns "string option" | Panics string

type_synonym HandlerFunc = "Context \<Rightarrow> handler_result"

section \<open>Policies and options\<close>

type_synonym MissedFirePolicy = int

definition MissedFireRunOnce :: MissedFirePolicy where "MissedFireRunOnce = 0"
definition MissedFireSkip :: MissedFirePolicy where "MissedFireSkip = 1"
definition MissedFireRunAll :: MissedFirePolicy where "MissedFireRunAll = 2"

lemmas missed_fire_policies = MissedFireRunOnce_def MissedFireSkip_def MissedFireRunAll_def

record RetryPolicy =
  MaxAttempts :: int
  InitialBackoff :: duration
  MaxBackoff :: duration
  Multiplier :: f64

record JobOptions =
  Timeout :: duration
  LeaderOnly :: bool
  MissedFire :: MissedFirePolicy
  Retry :: RetryPolicy

record Job =
  job_Name :: string
  job_Schedule :: Schedule
  job_Handler :: HandlerFunc
  job_Options :: JobOptions

text \<open>The zero value \<open>JobOptions{}\<close>.\<close>

definition zero_JobOptions :: JobOptions where
  "zero_JobOptions =
     \<lparr>Timeout = 0, LeaderOnly = False, MissedFire = MissedFireRunOnce,
      Retry = \<lparr>MaxAttempts = 0, InitialBackoff = 0, MaxBackoff = 0, Multiplier = Finite 0\<rparr>\<rparr>"

definition retry_defaults :: "RetryPolicy \<Rightarrow> RetryPolicy" where
  "retry_defaults r =
     (let r = (if MaxAttempts r = 0 then r\<lparr>MaxAttempts := 3\<rparr> else r);
          r = (if InitialBackoff r = 0 then r\<lparr>InitialBackoff := Second\<rparr> else r);
          r = (if MaxBackoff r = 0 then r\<lparr>MaxBackoff := 5 * Minute\<rparr> else r)
      in if Multiplier r = Finite 0 then r\<lparr>Multiplier := Finite 2\<rparr> else r)"

definition withDefaults :: "JobOptions \<Rightarrow> JobOptions" where
  "withDefaults opts = opts\<lparr>Retry := retry_defaults (Retry opts)\<rparr>"

section \<open>Job options as functions\<close>

type_synonym JobOption = "JobOptions \<Rightarrow> JobOptions"

definition WithTimeout :: "duration \<Rightarrow> JobOption" where
  "WithTimeout d o' = o'\<lparr>Timeout := d\<rparr>"

definition WithLeaderOnly :: JobOption where
  "WithLeaderOnly o' = o'\<lparr>LeaderOnly := True\<rparr>"

definition WithMissedFire :: "MissedFirePolicy \<Rightarrow> JobOption" where
  "WithMissedFire p o' = o'\<lparr>MissedFire := p\<rparr>"

definition WithRetry :: "RetryPolicy \<Rightarrow> JobOption" where
  "WithRetry r o' = o'\<lparr>Retry := r\<rparr>"

lemmas job_option_defs = WithTimeout_def WithLeaderOnly_def WithMissedFire_def WithRetry_def

section \<open>Properties of the defaults\<close>

definition policy_set :: "RetryPolicy \<Rightarrow> bool" where
  "policy_set r \<longleftrightarrow>
     MaxAttempts r \<noteq> 0 \<and> InitialBackoff r \<noteq> 0 \<and> MaxBackoff r \<noteq> 0 \<and> Multiplier r \<noteq> Finite 0"

lemma retry_defaults_fields [simp]:
  "MaxAttempts (retry_defaults r) = (if MaxAttempts r = 0 then 3 else MaxAttempts r)"
  "InitialBackoff (retry_defaults r) = (if InitialBackoff r = 0 then Second else InitialBackoff r)"
  "MaxBackoff (retry_defaults r) = (if MaxBackoff r = 0 then 5 * Minute else MaxBackoff r)"
  "Multiplier (retry_defaults r) = (if Multiplier r = Finite 0 then Finite 2 else Multiplier r)"
  by (simp_all add: retry_defaults_def Let_def)

lemma policy_set_retry_defaults: "policy_set (retry_defaults r)"
  by (simp add: policy_set_def duration_units)

lemma retry_defaults_id: "policy_set r \<Longrightarrow> retry_defaults r = r"
  by (simp add: policy_set_def retry_defaults_def Let_def)

section \<open>Properties\<close>

text \<open>
  After \<open>withDefaults\<close> no field of the retry policy is zero, the other
  options and every field the caller set are kept, and applying the defaults again changes nothing.
\<close>

theorem defaults_complete:
  "policy_set (Retry (withDefaults opts)) \<and> withDefaults (withDefaults opts) = withDefaults opts \<and>
   Timeout (withDefaults opts) = Timeout opts \<and> LeaderOnly (withDefaults opts) = LeaderOnly opts \<and>
   MissedFire (withDefaults opts) = MissedFire opts \<and>
   (MaxAttempts (Retry opts) \<noteq> 0 \<longrightarrow> MaxAttempts (Retry (withDefaults opts)) = MaxAttempts (Retry opts)) \<and>
   (policy_set (Retry opts) \<longrightarrow> withDefaults opts = opts)"
  using policy_set_retry_defaults [of "Retry opts"]
  by (auto simp: withDefaults_def retry_defaults_id)

theorem defaults_complete_witness:
  "MaxAttempts (Retry (withDefaults (zero_JobOptions\<lparr>Retry := \<lparr>MaxAttempts = 7, InitialBackoff = 0, MaxBackoff = 0, Multiplier = Finite 0\<rparr>\<rparr>))) = 7"
  using defaults_complete [of "zero_JobOptions\<lparr>Retry := \<lparr>MaxAttempts = 7, InitialBackoff = 0, MaxBackoff = 0, Multiplier = Finite 0\<rparr>\<rparr>"]
  by simp

end
