(* ===== verification/Sundial_Scheduler.thy ===== *)
theory Sundial_Scheduler
  imports Sundial_Job
begin

text \<open>
  \<open>sundial.go\<close> without \<open>Run\<close>: node identifiers, options and their defaults, the construction
  of a scheduler, and the registry of jobs. A pool, a logger and a caller's own storage or leader
  are references (numbers); the storage and the leader the constructor derives from the pool are
  constructors of their own.
\<close>

section \<open>Node identifiers\<close>

definition hex_digit :: "int \<Rightarrow> char" where
  "hex_digit k = (if k < 10 then digit_char k else char_of (87 + k))"

definition EncodeToString :: "int list \<Rightarrow> string" where
  "EncodeToString bs = concat (map (\<lambda>b. [hex_digit (b div 16), hex_digit (b mod 16)]) bs)"

text \<open>
  The answers of the operating system are arguments: \<open>os.Hostname\<close>, the variable
  \<open>HOSTNAME\<close>, and the four bytes of \<open>rand.Read\<close> (\<open>None\<close> when it fails).
\<close>

definition AutoNodeID :: "go_error + string \<Rightarrow> string \<Rightarrow> (int \<times> int \<times> int \<times> int) option \<Rightarrow> string" where
  "AutoNodeID hostname env rand =
     (case hostname of
        Inr h \<Rightarrow>
          if h \<noteq> [] \<and> h \<noteq> ''localhost'' then h
          else if env \<noteq> [] then env
          else (case rand of Some (a, b, c, d) \<Rightarrow> ''sundial-'' @ EncodeToString [a, b, c, d]
                | None \<Rightarrow> ''sundial-unknown'')
      | Inl err \<Rightarrow>
          if env \<noteq> [] then env
          else (case rand of Some (a, b, c, d) \<Rightarrow> ''sundial-'' @ EncodeToString [a, b, c, d]
                | None \<Rightarrow> ''sundial-unknown''))"

section \<open>Options and the scheduler\<close>

record Options =
  NodeID :: string
  TickInterval :: duration
  ShutdownGrace :: duration
  Schema :: string
  LeaderRenewInterval :: duration

type_synonym pool = nat

datatype storage_impl = PostgresStorage_of pool string | Given_storage nat
datatype leader_impl = PostgresLeader_of pool | Given_leader nat

record Scheduler =
  sc_pool :: "pool option"
  sc_storage :: "storage_impl option"
  sc_leader :: "leader_impl option"
  sc_logger :: nat
  sc_opts :: Options
  sc_jobs :: "(string \<times> Job) list"
  sc_running :: bool
  sc_stopped :: bool

datatype SchedulerOption =
    WithStorage "storage_impl option"
  | WithLogger "nat option"
  | WithLeader "leader_impl option"

fun apply_option :: "SchedulerOption \<Rightarrow> Scheduler \<Rightarrow> Scheduler" where
  "apply_option (WithStorage s) sc = (case s of None \<Rightarrow> sc | Some s' \<Rightarrow> sc\<lparr>sc_storage := Some s'\<rparr>)"
| "apply_option (WithLogger l) sc = (case l of None \<Rightarrow> sc | Some l' \<Rightarrow> sc\<lparr>sc_logger := l'\<rparr>)"
| "apply_option (WithLeader l) sc = sc\<lparr>sc_leader := l\<rparr>"

section \<open>Construction\<close>

definition NewPostgresStorage :: "pool \<Rightarrow> string \<Rightarrow> storage_impl" where
  "NewPostgresStorage p schema = PostgresStorage_of p (if schema = [] then ''public'' else schema)"

definition option_defaults :: "Options \<Rightarrow> Options" where
  "option_defaults opts =
     (let opts = (if ShutdownGrace opts = 0 then opts\<lparr>ShutdownGrace := 30 * Second\<rparr> else opts);
          opts = (if Schema opts = [] then opts\<lparr>Schema := ''public''\<rparr> else opts)
      in if LeaderRenewInterval opts = 0 then opts\<lparr>LeaderRenewInterval := 10 * Second\<rparr> else opts)"

text \<open>The loop over the options, with the flag \<open>leaderConfigured\<close>.\<close>

fun apply_options :: "SchedulerOption list \<Rightarrow> Scheduler \<Rightarrow> bool \<Rightarrow> Scheduler \<times> bool" where
  "apply_options [] sc leaderConfigured = (sc, leaderConfigured)"
| "apply_options (apply # rest) sc leaderConfigured =
     (let before = sc_leader sc; sc = apply_option apply sc
      in apply_options rest sc
           (if sc_leader sc \<noteq> None \<or> sc_leader sc \<noteq> before then True else leaderConfigured))"

definition New ::
  "nat \<Rightarrow> pool option \<Rightarrow> Options \<Rightarrow> SchedulerOption list \<Rightarrow> go_error + Scheduler" where
  "New default_logger pool opts schedOpts =
     (if NodeID opts = [] then Inl ErrEmptyNodeID
      else
        let opts = (if TickInterval opts = 0 then opts\<lparr>TickInterval := Second\<rparr> else opts)
        in if TickInterval opts < 100 * Millisecond then
             Inl (Wrapf (duration_String (TickInterval opts)) ErrTickTooSmall)
           else
             let opts = option_defaults opts;
                 sc = \<lparr>sc_pool = pool, sc_storage = None, sc_leader = None, sc_logger = default_logger,
                       sc_opts = opts, sc_jobs = [], sc_running = False, sc_stopped = False\<rparr>;
                 (sc, leaderConfigured) = apply_options schedOpts sc False;
                 derive = (\<lambda>sc. if leaderConfigured then sc
                                else case pool of None \<Rightarrow> sc
                                     | Some p \<Rightarrow> sc\<lparr>sc_leader := Some (PostgresLeader_of p)\<rparr>)
             in case sc_storage sc of
                  Some s \<Rightarrow> Inr (derive sc)
                | None \<Rightarrow>
                    (case pool of
                       None \<Rightarrow> Inl (NewError ''sundial: either pool or WithStorage(...) is required'')
                     | Some p \<Rightarrow> Inr (derive (sc\<lparr>sc_storage := Some (NewPostgresStorage p (Schema opts))\<rparr>))))"

section \<open>The registry\<close>

definition lookup :: "Scheduler \<Rightarrow> string \<Rightarrow> Job option" where
  "lookup s name = map_of (sc_jobs s) name"

definition Schedule_job ::
  "Scheduler \<Rightarrow> string \<Rightarrow> Schedule option \<Rightarrow> HandlerFunc option \<Rightarrow> JobOption list \<Rightarrow>
     Scheduler \<times> (go_error + Job)" where
  "Schedule_job s name schedule fn opts =
     (if name = [] then (s, Inl ErrEmptyJobName)
      else case schedule of
        None \<Rightarrow> (s, Inl ErrNilSchedule)
      | Some sched \<Rightarrow>
          (case fn of
             None \<Rightarrow> (s, Inl ErrNilHandler)
           | Some h \<Rightarrow>
               let jobOpts = withDefaults (fold (\<lambda>apply o'. apply o') opts zero_JobOptions)
               in if sc_stopped s then (s, Inl ErrSchedulerStopped)
                  else if lookup s name \<noteq> None then (s, Inl (Wrapf name ErrJobNameTaken))
                  else
                    let job = \<lparr>job_Name = name, job_Schedule = sched, job_Handler = h, job_Options = jobOpts\<rparr>
                    in (s\<lparr>sc_jobs := AList.update name job (sc_jobs s)\<rparr>, Inr job)))"

type_synonym job_range = "(string \<times> Job) list \<Rightarrow> (string \<times> Job) list"

definition Jobs :: "job_range \<Rightarrow> Scheduler \<Rightarrow> Job option list" where
  "Jobs rng s =
     (let names = map fst (rng (sc_jobs s))
      in map (lookup s) (insertion_sort (>) names))"

definition Stop :: "Scheduler \<Rightarrow> Scheduler" where
  "Stop s = s\<lparr>sc_stopped := True\<rparr>"

definition markStopped :: "Scheduler \<Rightarrow> Scheduler" where
  "markStopped s = s\<lparr>sc_running := False\<rparr>"

section \<open>The registry invariant\<close>

definition registry_inv :: "Scheduler \<Rightarrow> bool" where
  "registry_inv s \<longleftrightarrow>
     distinct (map fst (sc_jobs s)) \<and>
     list_all (\<lambda>(n, j). n \<noteq> [] \<and> job_Name j = n \<and> policy_set (Retry (job_Options j))) (sc_jobs s)"

lemma withDefaults_policy_set: "policy_set (Retry (withDefaults opts))"
  by (simp add: withDefaults_def policy_set_retry_defaults)

lemma registry_entry:
  "registry_inv s \<Longrightarrow> lookup s n = Some j \<Longrightarrow> job_Name j = n \<and> policy_set (Retry (job_Options j))"
  by (force simp: registry_inv_def lookup_def list_all_iff dest: map_of_SomeD)

text \<open>The one branch of \<open>Schedule\<close> that changes the registry.\<close>

lemma Schedule_job_cases:
  obtains (rejected) e where "Schedule_job s name schedule fn opts = (s, Inl e)"
  | (added) sched h j where
      "name \<noteq> []" "schedule = Some sched" "fn = Some h" "\<not> sc_stopped s" "lookup s name = None"
      "j = \<lparr>job_Name = name, job_Schedule = sched, job_Handler = h,
            job_Options = withDefaults (fold (\<lambda>apply o'. apply o') opts zero_JobOptions)\<rparr>"
      "Schedule_job s name schedule fn opts = (s\<lparr>sc_jobs := sc_jobs s @ [(name, j)]\<rparr>, Inr j)"
proof (cases "name \<noteq> [] \<and> schedule \<noteq> None \<and> fn \<noteq> None \<and> \<not> sc_stopped s \<and> lookup s name = None")
  case True
  then have "AList.update name j (sc_jobs s) = sc_jobs s @ [(name, j)]" for j
    by (intro update_new) (simp add: lookup_def map_of_eq_None_iff)
  with True show ?thesis
    by (intro added [of "the schedule" "the fn"]) (auto simp: Schedule_job_def Let_def)
next
  case False
  then show ?thesis
    by (intro rejected [of "case snd (Schedule_job s name schedule fn opts) of Inl e \<Rightarrow> e"])
      (auto simp: Schedule_job_def Let_def split: option.splits)
qed

lemma registry_inv_Schedule:
  assumes "registry_inv s" "Schedule_job s name schedule fn opts = (s', r)"
  shows "registry_inv s'"
proof (cases rule: Schedule_job_cases [of s name schedule fn opts])
  case (rejected e)
  then show ?thesis using assms by simp
next
  case (added sched h j)
  then show ?thesis
    using assms by (auto simp: registry_inv_def lookup_def map_of_eq_None_iff withDefaults_policy_set)
qed

lemma Jobs_sorted:
  assumes "range_order rng" "registry_inv s"
  shows "Jobs rng s = map (lookup s) (sort (map fst (sc_jobs s)))"
proof -
  have "mset (map fst (rng (sc_jobs s))) = mset (map fst (sc_jobs s))"
    using assms(1) by (simp add: range_order_def)
  then have "sort (map fst (rng (sc_jobs s))) = sort (map fst (sc_jobs s))"
    by (metis mset_sort properties_for_sort sorted_sort)
  then show ?thesis by (simp add: Jobs_def Let_def insertion_sort_eq_sort)
qed

section \<open>The leader after construction\<close>

definition leader_args :: "SchedulerOption list \<Rightarrow> leader_impl option list" where
  "leader_args os = concat (map (\<lambda>p. case p of WithLeader l \<Rightarrow> [l] | _ \<Rightarrow> []) os)"

lemma leader_args_simps [simp]:
  "leader_args [] = []"
  "leader_args (WithLeader l # os) = l # leader_args os"
  "leader_args (WithStorage x # os) = leader_args os"
  "leader_args (WithLogger y # os) = leader_args os"
  by (simp_all add: leader_args_def)

text \<open>The arguments of the other two kinds of options that are not nil.\<close>

definition storage_args :: "SchedulerOption list \<Rightarrow> storage_impl list" where
  "storage_args os = concat (map (\<lambda>p. case p of WithStorage (Some s) \<Rightarrow> [s] | _ \<Rightarrow> []) os)"

definition logger_args :: "SchedulerOption list \<Rightarrow> nat list" where
  "logger_args os = concat (map (\<lambda>p. case p of WithLogger (Some l) \<Rightarrow> [l] | _ \<Rightarrow> []) os)"

lemma apply_options_storage:
  "apply_options os sc b = (sc', b') \<Longrightarrow>
     sc_storage sc' = (if storage_args os = [] then sc_storage sc else Some (last (storage_args os))) \<and>
     sc_logger sc' = last (sc_logger sc # logger_args os) \<and> sc_running sc' = sc_running sc"
proof (induction os arbitrary: sc b)
  case (Cons p rest)
  from Cons.prems obtain b1 where "apply_options rest (apply_option p sc) b1 = (sc', b')" by (auto simp: Let_def)
  from Cons.IH [OF this] show ?case
    by (cases p) (auto simp: storage_args_def logger_args_def split: option.splits)
qed (simp add: storage_args_def logger_args_def)

lemma apply_option_frame:
  "sc_opts (apply_option p sc) = sc_opts sc" "sc_jobs (apply_option p sc) = sc_jobs sc"
  "sc_pool (apply_option p sc) = sc_pool sc" "sc_stopped (apply_option p sc) = sc_stopped sc"
  by (cases p; simp split: option.splits)+

lemma apply_options_frame:
  "apply_options os sc b = (sc', b') \<Longrightarrow>
     sc_opts sc' = sc_opts sc \<and> sc_jobs sc' = sc_jobs sc \<and> sc_pool sc' = sc_pool sc \<and> sc_stopped sc' = sc_stopped sc"
  by (induction os sc b rule: apply_options.induct) (auto simp: Let_def apply_option_frame split: if_splits)

lemma apply_options_leader:
  "apply_options os sc b = (sc', b') \<Longrightarrow>
     sc_leader sc' = last (sc_leader sc # leader_args os) \<and>
     b' = (b \<or> (\<exists>l. Some l \<in> set (leader_args os)) \<or> (sc_leader sc \<noteq> None \<and> os \<noteq> []))"
proof (induction os arbitrary: sc b)
  case Nil
  then show ?case by simp
next
  case (Cons p rest)
  let ?sc = "apply_option p sc"
  let ?b = "if sc_leader ?sc \<noteq> None \<or> sc_leader ?sc \<noteq> sc_leader sc then True else b"
  have "apply_options rest ?sc ?b = (sc', b')" using Cons.prems by (simp add: Let_def)
  note IH = Cons.IH [OF this]
  show ?case
  proof (cases p)
    case (WithLeader l)
    then show ?thesis using IH by (cases l) (auto split: if_splits)
  next
    case (WithStorage x)
    then have "sc_leader ?sc = sc_leader sc" by (simp split: option.splits)
    then show ?thesis using IH WithStorage by (auto split: if_splits)
  next
    case (WithLogger x)
    then have "sc_leader ?sc = sc_leader sc" by (simp split: option.splits)
    then show ?thesis using IH WithLogger by (auto split: if_splits)
  qed
qed

section \<open>Sequences of registry calls\<close>

datatype registry_call =
    Call_Schedule string "Schedule option" "HandlerFunc option" "JobOption list"
  | Call_Stop

fun registry_step :: "registry_call \<Rightarrow> Scheduler \<Rightarrow> Scheduler" where
  "registry_step (Call_Schedule name schedule fn opts) s = fst (Schedule_job s name schedule fn opts)"
| "registry_step Call_Stop s = Stop s"

lemma registry_step_keeps:
  "lookup s n = Some j \<Longrightarrow> lookup (registry_step c s) n = Some j"
proof (cases c)
  case (Call_Schedule name schedule fn opts)
  assume "lookup s n = Some j"
  then show ?thesis
    using Call_Schedule
    by (cases rule: Schedule_job_cases [of s name schedule fn opts])
      (auto simp: lookup_def map_add_def split: option.splits)
qed (simp add: lookup_def Stop_def)

lemma registry_steps_keep:
  "lookup s n = Some j \<Longrightarrow> lookup (fold registry_step cs s) n = Some j"
  by (induction cs arbitrary: s) (simp_all add: registry_step_keeps)

lemma registry_step_inv: "registry_inv s \<Longrightarrow> registry_inv (registry_step c s)"
proof (cases c)
  case (Call_Schedule name schedule fn opts)
  assume "registry_inv s"
  then show ?thesis
    using registry_inv_Schedule [of s name schedule fn opts] Call_Schedule
    by (cases "Schedule_job s name schedule fn opts") simp
qed (simp add: registry_inv_def Stop_def)

lemma registry_steps_inv: "registry_inv s \<Longrightarrow> registry_inv (fold registry_step cs s)"
  by (induction cs arbitrary: s) (simp_all add: registry_step_inv)

lemma hex_digit_inj:
  assumes "0 \<le> a" "a < 16" "0 \<le> b" "b < 16" "hex_digit a = hex_digit b"
  shows "a = b"
proof -
  have val: "(of_char (hex_digit k) :: int) = (if k < 10 then 48 + k else 87 + k)" if "0 \<le> k" "k < 16" for k
    using that by (simp add: hex_digit_def of_char_of)
  have "(if a < 10 then 48 + a else 87 + a) = (if b < 10 then 48 + b else 87 + b)"
    unfolding val [OF assms(1,2), symmetric] val [OF assms(3,4), symmetric] assms(5) ..
  then show ?thesis by (simp split: if_splits)
qed

lemma EncodeToString_inj:
  "\<lbrakk>set xs \<subseteq> {0..255}; set ys \<subseteq> {0..255}; EncodeToString xs = EncodeToString ys\<rbrakk> \<Longrightarrow> xs = ys"
proof (induction xs arbitrary: ys)
  case Nil
  then show ?case by (cases ys) (simp_all add: EncodeToString_def)
next
  case (Cons x xs)
  then obtain y zs where ys: "ys = y # zs" by (cases ys) (simp_all add: EncodeToString_def)
  have rest: "EncodeToString xs = EncodeToString zs"
    and digits: "hex_digit (x div 16) = hex_digit (y div 16)" "hex_digit (x mod 16) = hex_digit (y mod 16)"
    using Cons.prems(3) by (simp_all add: ys EncodeToString_def)
  have hi: "0 \<le> b div 16 \<and> b div 16 < 16" if "b \<in> {0..255}" for b :: int
    using that zdiv_mono1 [of b 255 16] by (simp add: pos_imp_zdiv_nonneg_iff)
  have "x div 16 = y div 16"
    using hi [of x] hi [of y] Cons.prems digits(1) ys by (intro hex_digit_inj) auto
  moreover have "x mod 16 = y mod 16"
    using digits(2) by (intro hex_digit_inj) auto
  ultimately have "x = y" by (metis div_mult_mod_eq)
  with Cons.IH [OF _ _ rest] Cons.prems ys show ?case by auto
qed

section \<open>Properties\<close>

text \<open>
  Property C36. What \<open>New\<close> returns, for every pool, all options and every list of functional options. It refuses an empty node identifier,
  a tick interval under 100 ms (unset counts as one second), and a missing pool without a storage, in this order. Otherwise
  the scheduler has exactly the given options with the four documented defaults for the unset ones (a grace period or
  renewal interval that is negative is kept), the storage and the logger of the last option that gives one (or the Postgres storage
  of the pool in its schema, and the default logger), and an empty registry that accepts jobs.
\<close>

theorem new_exact:
  "New lg pool opts os =
     (let interval = (if TickInterval opts = 0 then Second else TickInterval opts);
          schema = (if Schema opts = [] then ''public'' else Schema opts)
      in if NodeID opts = [] then Inl ErrEmptyNodeID
         else if interval < 100 * Millisecond then Inl (Wrapf (duration_String interval) ErrTickTooSmall)
         else if storage_args os = [] \<and> pool = None then Inl (NewError ''sundial: either pool or WithStorage(...) is required'')
         else Inr
           \<lparr>sc_pool = pool,
            sc_storage = Some (if storage_args os = [] then PostgresStorage_of (the pool) schema else last (storage_args os)),
            sc_leader = (if \<exists>l. Some l \<in> set (leader_args os) then last (leader_args os) else map_option PostgresLeader_of pool),
            sc_logger = last (lg # logger_args os),
            sc_opts =
              \<lparr>NodeID = NodeID opts, TickInterval = interval,
               ShutdownGrace = (if ShutdownGrace opts = 0 then 30 * Second else ShutdownGrace opts), Schema = schema,
               LeaderRenewInterval = (if LeaderRenewInterval opts = 0 then 10 * Second else LeaderRenewInterval opts)\<rparr>,
            sc_jobs = [], sc_running = False, sc_stopped = False\<rparr>)"
proof -
  let ?opts = "if TickInterval opts = 0 then opts\<lparr>TickInterval := Second\<rparr> else opts"
  let ?init = "\<lparr>sc_pool = pool, sc_storage = None, sc_leader = None, sc_logger = lg,
    sc_opts = option_defaults ?opts, sc_jobs = [], sc_running = False, sc_stopped = False\<rparr>"
  obtain sc1 b where ap: "apply_options os ?init False = (sc1, b)" by fastforce
  have l: "sc_leader sc1 = last (None # leader_args os)" "b = (\<exists>l. Some l \<in> set (leader_args os))"
    using apply_options_leader [OF ap] by simp_all
  have none: "sc_leader sc1 = None" if "\<not> b"
    using that l by (cases "leader_args os = []") (auto, metis last_in_set not_None_eq)
  have given: "last (None # leader_args os) = last (leader_args os)" if b using that l(2) by auto
  have opts: "option_defaults ?opts =
      \<lparr>NodeID = NodeID opts, TickInterval = (if TickInterval opts = 0 then Second else TickInterval opts),
       ShutdownGrace = (if ShutdownGrace opts = 0 then 30 * Second else ShutdownGrace opts), Schema = (if Schema opts = [] then ''public'' else Schema opts),
       LeaderRenewInterval = (if LeaderRenewInterval opts = 0 then 10 * Second else LeaderRenewInterval opts)\<rparr>"
    by (cases opts) (simp add: option_defaults_def Let_def)
  have sc1: "sc1 = \<lparr>sc_pool = pool, sc_storage = (if storage_args os = [] then None else Some (last (storage_args os))), sc_leader = last (None # leader_args os),
      sc_logger = last (lg # logger_args os), sc_opts = option_defaults ?opts, sc_jobs = [], sc_running = False, sc_stopped = False\<rparr>"
    using apply_options_storage [OF ap] apply_options_frame [OF ap] l(1) by (cases sc1) simp
  show ?thesis
    using ap l none given unfolding New_def Let_def sc1 opts
    by (cases b; cases pool) (auto simp: NewPostgresStorage_def)
qed



text \<open>
  Property C34. A job that \<open>Schedule\<close> accepted stays registered under its name
  whatever calls of \<open>Schedule\<close> and \<open>Stop\<close> follow, a second registration of the name is refused,
  and after \<open>Stop\<close> no job is accepted.
\<close>

theorem registry_stable:
  assumes "registry_inv s" "Schedule_job s name schedule fn opts = (s1, Inr j)" "s2 = fold registry_step cs s1"
  shows "registry_inv s2 \<and> lookup s2 name = Some j \<and>
    (\<forall>schedule' fn' opts'. \<exists>e. Schedule_job s2 name schedule' fn' opts' = (s2, Inl e)) \<and>
    (\<forall>name' schedule' fn' opts'. \<exists>e. Schedule_job (Stop s2) name' schedule' fn' opts' = (Stop s2, Inl e))"
proof (intro conjI allI)
  show "registry_inv s2"
    using registry_steps_inv registry_inv_Schedule [OF assms(1,2)] assms(3) by simp
  have "lookup s1 name = Some j"
    using assms(2)
    by (cases rule: Schedule_job_cases [of s name schedule fn opts]) (auto simp: lookup_def map_add_def)
  then show reg: "lookup s2 name = Some j" using registry_steps_keep assms(3) by simp
  show "\<exists>e. Schedule_job s2 name schedule' fn' opts' = (s2, Inl e)" for schedule' fn' opts'
    using reg by (cases rule: Schedule_job_cases [of s2 name schedule' fn' opts']) auto
  show "\<exists>e. Schedule_job (Stop s2) name' schedule' fn' opts' = (Stop s2, Inl e)" for name' schedule' fn' opts'
    by (cases rule: Schedule_job_cases [of "Stop s2" name' schedule' fn' opts']) (auto simp: Stop_def)
qed

definition empty_scheduler :: Scheduler where
  "empty_scheduler =
     \<lparr>sc_pool = None, sc_storage = Some (Given_storage 0), sc_leader = None, sc_logger = 0,
      sc_opts = \<lparr>NodeID = ''n1'', TickInterval = Second, ShutdownGrace = 30 * Second, Schema = ''public'',
                 LeaderRenewInterval = 10 * Second\<rparr>,
      sc_jobs = [], sc_running = False, sc_stopped = False\<rparr>"

theorem registry_stable_witness:
  "\<exists>j. lookup (Stop (fst (Schedule_job empty_scheduler ''a'' (Some (At 5)) (Some (\<lambda>_. Returns None)) []))) ''a'' = Some j"
proof -
  obtain s1 j where sj: "Schedule_job empty_scheduler ''a'' (Some (At 5)) (Some (\<lambda>_. Returns None)) [] = (s1, Inr j)"
    by (simp add: Schedule_job_def empty_scheduler_def Let_def lookup_def)
  have "registry_inv empty_scheduler" by (simp add: registry_inv_def empty_scheduler_def)
  from registry_stable [OF this sj, of "Stop s1" "[Call_Stop]"] sj show ?thesis by auto
qed

text \<open>
  \<open>Jobs\<close> lists every registered job once, in the order of the names,
  whatever the iteration order of the map and the order of registration.
\<close>

theorem jobs_snapshot:
  assumes "range_order rng" "registry_inv s"
  shows "sorted (map (job_Name \<circ> the) (Jobs rng s)) \<and> distinct (map (job_Name \<circ> the) (Jobs rng s)) \<and>
    set (Jobs rng s) = {Some j | j. lookup s (job_Name j) = Some j}"
proof -
  have known: "\<exists>j. lookup s n = Some j \<and> job_Name j = n" if "n \<in> fst ` set (sc_jobs s)" for n
    using that registry_entry [OF assms(2), of n] by (cases "lookup s n") (auto simp: lookup_def map_of_eq_None_iff)
  have "map (job_Name \<circ> the) (Jobs rng s) = map (\<lambda>n. n) (sort (map fst (sc_jobs s)))"
    unfolding Jobs_sorted [OF assms] map_map
    by (rule map_cong [OF refl]) (use known in force)
  then have names: "map (job_Name \<circ> the) (Jobs rng s) = sort (map fst (sc_jobs s))" by simp
  have dist: "distinct (map fst (sc_jobs s))" using assms(2) by (simp add: registry_inv_def)
  have "set (Jobs rng s) = {Some j | j. lookup s (job_Name j) = Some j}"
  proof (intro equalityI subsetI)
    fix x assume "x \<in> set (Jobs rng s)"
    then obtain n where n: "n \<in> fst ` set (sc_jobs s)" "x = lookup s n"
      by (auto simp: Jobs_sorted [OF assms])
    then obtain j where "lookup s n = Some j" "job_Name j = n" using known by blast
    with n show "x \<in> {Some j | j. lookup s (job_Name j) = Some j}" by auto
  next
    fix x assume "x \<in> {Some j | j. lookup s (job_Name j) = Some j}"
    then obtain j where j: "x = Some j" "lookup s (job_Name j) = Some j" by blast
    then have "job_Name j \<in> set (map fst (sc_jobs s))"
      by (force simp: lookup_def dest: map_of_SomeD)
    with j show "x \<in> set (Jobs rng s)" by (metis Jobs_sorted [OF assms] imageI set_map set_sort)
  qed
  with names dist show ?thesis by simp
qed

theorem jobs_snapshot_witness:
  "sorted (map (job_Name \<circ> the) (Jobs rev (fst (Schedule_job (fst (Schedule_job empty_scheduler
       ''b'' (Some (At 5)) (Some (\<lambda>_. Returns None)) [])) ''a'' (Some (At 5)) (Some (\<lambda>_. Returns None)) []))))"
proof -
  let ?s = "fold registry_step [Call_Schedule ''b'' (Some (At 5)) (Some (\<lambda>_. Returns None)) [],
    Call_Schedule ''a'' (Some (At 5)) (Some (\<lambda>_. Returns None)) []] empty_scheduler"
  have "registry_inv ?s" by (rule registry_steps_inv) (simp add: registry_inv_def empty_scheduler_def)
  from jobs_snapshot [OF range_order_rev this] show ?thesis by simp
qed

text \<open>
  \<open>AutoNodeID\<close> is never empty, and two processes that fall back on
  random bytes get the same identifier only when they drew the same bytes.
\<close>

theorem auto_node_id:
  "AutoNodeID hostname env rand \<noteq> [] \<and>
   ({a, b, c, d, a', b', c', d'} \<subseteq> {0..255} \<longrightarrow>
    AutoNodeID (Inl e) [] (Some (a, b, c, d)) = AutoNodeID (Inl e') [] (Some (a', b', c', d')) \<longrightarrow>
    (a, b, c, d) = (a', b', c', d'))"
proof (intro conjI impI)
  show "AutoNodeID hostname env rand \<noteq> []"
    by (auto simp: AutoNodeID_def split: sum.splits option.splits)
  assume bytes: "{a, b, c, d, a', b', c', d'} \<subseteq> {0..255}"
    and "AutoNodeID (Inl e) [] (Some (a, b, c, d)) = AutoNodeID (Inl e') [] (Some (a', b', c', d'))"
  then have "EncodeToString [a, b, c, d] = EncodeToString [a', b', c', d']"
    by (simp add: AutoNodeID_def)
  then have "[a, b, c, d] = [a', b', c', d']"
    using bytes by (intro EncodeToString_inj) auto
  then show "(a, b, c, d) = (a', b', c', d')" by simp
qed

theorem auto_node_id_witness:
  "AutoNodeID (Inl ErrJobNotFound) [] (Some (1, 2, 3, 4)) \<noteq> AutoNodeID (Inl ErrJobNotFound) [] (Some (1, 2, 3, 5))"
  using auto_node_id [of "Inl ErrJobNotFound" "[]" None 1 2 3 4 1 2 3 5 ErrJobNotFound ErrJobNotFound] by auto

end
