(* ===== verification/Sundial_Storage.thy ===== *)
theory Sundial_Storage
  imports Sundial_Job
begin

text \<open>
  The types and the interface of \<open>storage.go\<close>. An implementation of the Go interface
  \<open>Storage\<close> is a record of operations on a backend state; the locale \<open>storage_contract\<close> states
  what every implementation promises over an abstract table of jobs and a log of runs, and
  \<open>reliable_storage\<close> what one promises whose operations cannot fail. The in-memory and the
  Postgres backends interpret them in their own theories, and the dispatcher's properties are
  proved from the locale.
\<close>

section \<open>Data\<close>

record DueJob =
  dj_ID :: string
  dj_Name :: string
  dj_NextFireTime :: gotime
  dj_ScheduleExpr :: string
  dj_ScheduleKind :: string

datatype RunOutcome = RunSucceeded | RunFailed | RunDeadLetter

fun outcome_string :: "RunOutcome \<Rightarrow> string" where
  "outcome_string RunSucceeded = ''success''"
| "outcome_string RunFailed = ''failed''"
| "outcome_string RunDeadLetter = ''dead-letter''"

record RunRecord =
  rr_JobID :: string
  rr_FireTime :: gotime
  rr_StartedAt :: gotime
  rr_FinishedAt :: gotime
  rr_NodeID :: string
  rr_Attempt :: int
  rr_Outcome :: RunOutcome
  rr_Error :: string

text \<open>What both implementations of \<open>RecordRun\<close> fill in before they store a record.\<close>

definition fill_run :: "gotime \<Rightarrow> RunRecord \<Rightarrow> RunRecord" where
  "fill_run now run =
     (let run = (if IsZero (rr_FinishedAt run) then run\<lparr>rr_FinishedAt := now\<rparr> else run);
          run = (if IsZero (rr_StartedAt run) then run\<lparr>rr_StartedAt := rr_FinishedAt run\<rparr> else run)
      in if rr_Attempt run < 1 then run\<lparr>rr_Attempt := 1\<rparr> else run)"

section \<open>The interface\<close>

text \<open>
  \<open>RecordRun\<close> reads the clock when a record has no finish time: the instant is its second
  argument.
\<close>

record 's Storage =
  EnsureJob :: "'s \<Rightarrow> Job option \<Rightarrow> gotime \<Rightarrow> 's \<times> (go_error + string)"
  FetchDue :: "'s \<Rightarrow> gotime \<Rightarrow> int \<Rightarrow> 's \<times> (go_error + DueJob list)"
  ClaimJob :: "'s \<Rightarrow> string \<Rightarrow> gotime \<Rightarrow> 's \<times> (go_error + bool)"
  RecordRun :: "'s \<Rightarrow> gotime \<Rightarrow> RunRecord \<Rightarrow> 's \<times> go_error option"
  ScheduleRetry :: "'s \<Rightarrow> string \<Rightarrow> gotime \<Rightarrow> 's \<times> go_error option"

section \<open>The fire order\<close>

text \<open>
  Due jobs are ordered by fire time, then by name. The key type is a linear order, so that the
  library's \<open>sort_key\<close> is the specification of the order.
\<close>

datatype fire_key = Fire_key gotime string

instantiation fire_key :: linorder
begin

fun less_eq_fire_key :: "fire_key \<Rightarrow> fire_key \<Rightarrow> bool" where
  "less_eq_fire_key (Fire_key t n) (Fire_key u m) \<longleftrightarrow> t < u \<or> t = u \<and> n \<le> m"

fun less_fire_key :: "fire_key \<Rightarrow> fire_key \<Rightarrow> bool" where
  "less_fire_key (Fire_key t n) (Fire_key u m) \<longleftrightarrow> t < u \<or> t = u \<and> n < m"

instance
proof
  fix x y z :: fire_key
  show "(x < y) = (x \<le> y \<and> \<not> y \<le> x)" by (cases x; cases y) auto
  show "x \<le> x" by (cases x) auto
  show "x \<le> y \<Longrightarrow> y \<le> z \<Longrightarrow> x \<le> z" by (cases x; cases y; cases z) auto
  show "x \<le> y \<Longrightarrow> y \<le> x \<Longrightarrow> x = y" by (cases x; cases y) auto
  show "x \<le> y \<or> y \<le> x" by (cases x; cases y) auto
qed

end

definition due_key :: "DueJob \<Rightarrow> fire_key" where
  "due_key d = Fire_key (dj_NextFireTime d) (dj_Name d)"

section \<open>The abstract table\<close>

record jobrow =
  row_Name :: string
  row_NextFire :: gotime
  row_Expr :: string
  row_Kind :: string

type_synonym jobtable = "string \<rightharpoonup> jobrow"

definition due_of_row :: "string \<Rightarrow> jobrow \<Rightarrow> DueJob" where
  "due_of_row i r =
     \<lparr>dj_ID = i, dj_Name = row_Name r, dj_NextFireTime = row_NextFire r,
      dj_ScheduleExpr = row_Expr r, dj_ScheduleKind = row_Kind r\<rparr>"

text \<open>Advancing a row (a claim), pulling it back (a retry) and registering a job.\<close>

definition advance :: "jobtable \<Rightarrow> string \<Rightarrow> gotime \<Rightarrow> jobtable" where
  "advance T i t =
     (case T i of
        Some r \<Rightarrow> if row_NextFire r < t then T(i \<mapsto> r\<lparr>row_NextFire := t\<rparr>) else T
      | None \<Rightarrow> T)"

definition claimable :: "jobtable \<Rightarrow> string \<Rightarrow> gotime \<Rightarrow> bool" where
  "claimable T i t \<longleftrightarrow> (case T i of Some r \<Rightarrow> row_NextFire r < t | None \<Rightarrow> False)"

definition pull_back :: "jobtable \<Rightarrow> string \<Rightarrow> gotime \<Rightarrow> jobtable" where
  "pull_back T i t =
     (case T i of
        Some r \<Rightarrow> if t < row_NextFire r then T(i \<mapsto> r\<lparr>row_NextFire := t\<rparr>) else T
      | None \<Rightarrow> T)"

definition registered :: "jobtable \<Rightarrow> Job \<Rightarrow> gotime \<Rightarrow> string \<Rightarrow> jobtable \<Rightarrow> bool" where
  "registered T j firstFire i T' \<longleftrightarrow>
     (case T i of
        Some r \<Rightarrow>
          row_Name r = job_Name j \<and>
          T' = T(i \<mapsto> r\<lparr>row_Expr := schedule_String (job_Schedule j),
                        row_Kind := schedule_Kind (job_Schedule j)\<rparr>)
      | None \<Rightarrow>
          (\<forall>r \<in> ran T. row_Name r \<noteq> job_Name j) \<and>
          T' = T(i \<mapsto> \<lparr>row_Name = job_Name j, row_NextFire = firstFire,
                       row_Expr = schedule_String (job_Schedule j),
                       row_Kind = schedule_Kind (job_Schedule j)\<rparr>))"

definition effective_limit :: "int \<Rightarrow> int" where
  "effective_limit limit = (if limit \<le> 0 then 32 else limit)"

text \<open>
  What a fetch may return: distinct due rows in order of fire time, at most the limit, and no due
  row left out that is earlier than one returned or for which there was room.
\<close>

definition due_snapshot :: "jobtable \<Rightarrow> gotime \<Rightarrow> int \<Rightarrow> DueJob list \<Rightarrow> bool" where
  "due_snapshot T now limit ds \<longleftrightarrow>
     distinct (map dj_ID ds) \<and>
     (\<forall>d \<in> set ds. \<exists>r. T (dj_ID d) = Some r \<and> row_NextFire r \<le> now \<and> d = due_of_row (dj_ID d) r) \<and>
     sorted (map dj_NextFireTime ds) \<and>
     int (length ds) \<le> effective_limit limit \<and>
     (\<forall>i r. T i = Some r \<and> row_NextFire r \<le> now \<and> i \<notin> dj_ID ` set ds \<longrightarrow>
        int (length ds) = effective_limit limit \<and> (\<forall>d \<in> set ds. dj_NextFireTime d \<le> row_NextFire r))"

section \<open>Sequences of calls\<close>

datatype storage_call =
    Call_EnsureJob "Job option" gotime
  | Call_FetchDue gotime int
  | Call_ClaimJob string gotime
  | Call_ScheduleRetry string gotime
  | Call_RecordRun gotime RunRecord

fun storage_step :: "'s Storage \<Rightarrow> storage_call \<Rightarrow> 's \<Rightarrow> 's" where
  "storage_step S (Call_EnsureJob j t) s = fst (EnsureJob S s j t)"
| "storage_step S (Call_FetchDue now limit) s = fst (FetchDue S s now limit)"
| "storage_step S (Call_ClaimJob i t) s = fst (ClaimJob S s i t)"
| "storage_step S (Call_ScheduleRetry i t) s = fst (ScheduleRetry S s i t)"
| "storage_step S (Call_RecordRun now r) s = fst (RecordRun S s now r)"

fun retries_job :: "string \<Rightarrow> storage_call \<Rightarrow> bool" where
  "retries_job i (Call_ScheduleRetry k t) \<longleftrightarrow> k = i"
| "retries_job i c \<longleftrightarrow> False"

text \<open>No call removes a job or changes the name behind an id; without a retry no fire moves back.\<close>

definition names_kept :: "jobtable \<Rightarrow> jobtable \<Rightarrow> bool" where
  "names_kept T T' \<longleftrightarrow> (\<forall>i r. T i = Some r \<longrightarrow> (\<exists>r'. T' i = Some r' \<and> row_Name r' = row_Name r))"

definition fire_forward :: "string \<Rightarrow> jobtable \<Rightarrow> jobtable \<Rightarrow> bool" where
  "fire_forward i T T' \<longleftrightarrow>
     (\<forall>r. T i = Some r \<longrightarrow> (\<exists>r'. T' i = Some r' \<and> row_NextFire r \<le> row_NextFire r'))"

section \<open>The contract\<close>

text \<open>
  \<open>ts\<close> is what the backend keeps of an instant: all of it in memory, microseconds in a database.
  It is monotone, and it is applied to every instant that reaches the backend.
\<close>

definition run_ts :: "(gotime \<Rightarrow> gotime) \<Rightarrow> RunRecord \<Rightarrow> RunRecord" where
  "run_ts ts r =
     r\<lparr>rr_FireTime := ts (rr_FireTime r), rr_StartedAt := ts (rr_StartedAt r), rr_FinishedAt := ts (rr_FinishedAt r)\<rparr>"

locale storage_contract =
  fixes S :: "'s Storage"
    and table :: "'s \<Rightarrow> jobtable"
    and runs :: "'s \<Rightarrow> RunRecord list"
    and inv :: "'s \<Rightarrow> bool"
    and ts :: "gotime \<Rightarrow> gotime"
  assumes ts_mono: "t \<le> u \<Longrightarrow> ts t \<le> ts u"
    and claim_law:
      "inv s \<Longrightarrow> ClaimJob S s i t = (s', r) \<Longrightarrow>
         inv s' \<and> runs s' = runs s \<and>
         (r = Inr True \<longrightarrow> claimable (table s) i (ts t) \<and> table s' = advance (table s) i (ts t)) \<and>
         (r = Inr False \<longrightarrow> table s' = table s) \<and>
         (table s' = table s \<or> table s' = advance (table s) i (ts t))"
    and retry_law:
      "inv s \<Longrightarrow> ScheduleRetry S s i t = (s', e) \<Longrightarrow>
         inv s' \<and> runs s' = runs s \<and>
         (e = None \<longrightarrow> table s' = pull_back (table s) i (ts t)) \<and>
         (table s' = table s \<or> table s' = pull_back (table s) i (ts t))"
    and record_law:
      "inv s \<Longrightarrow> RecordRun S s now run = (s', e) \<Longrightarrow>
         inv s' \<and> table s' = table s \<and>
         (e = None \<longrightarrow> runs s' = runs s @ [run_ts ts (fill_run now run)]) \<and>
         (runs s' = runs s \<or> runs s' = runs s @ [run_ts ts (fill_run now run)])"
    and fetch_law:
      "inv s \<Longrightarrow> FetchDue S s now limit = (s', due) \<Longrightarrow>
         inv s' \<and> table s' = table s \<and> runs s' = runs s \<and>
         (\<forall>ds. due = Inr ds \<longrightarrow> due_snapshot (table s) (ts now) limit ds)"
    and ensure_law:
      "inv s \<Longrightarrow> EnsureJob S s (Some j) first = (s', id') \<Longrightarrow>
         inv s' \<and> runs s' = runs s \<and>
         (\<forall>i. id' = Inr i \<longrightarrow> registered (table s) j (ts first) i (table s')) \<and>
         (table s' = table s \<or> (\<exists>i. registered (table s) j (ts first) i (table s')))"
    and ensure_nil: "EnsureJob S s None first = (s, Inl (NewError ''sundial: nil job''))"

locale reliable_storage = storage_contract +
  assumes claim_reliable: "inv s \<Longrightarrow> ClaimJob S s i t = (s', r) \<Longrightarrow>
      r = (if i \<in> dom (table s) then Inr (claimable (table s) i (ts t)) else Inl ErrJobNotFound)"
    and retry_reliable: "inv s \<Longrightarrow> i \<in> dom (table s) \<Longrightarrow> snd (ScheduleRetry S s i t) = None"
    and record_reliable: "inv s \<Longrightarrow> snd (RecordRun S s now run) = None"
    and fetch_reliable: "inv s \<Longrightarrow> \<exists>ds. snd (FetchDue S s now limit) = Inr ds"
    and ensure_reliable: "inv s \<Longrightarrow> \<exists>i. snd (EnsureJob S s (Some j) first) = Inr i"

section \<open>Lemmas on the table\<close>

lemma advance_apply:
  "advance T i t k =
     (if k = i then map_option (\<lambda>r. r\<lparr>row_NextFire := max (row_NextFire r) t\<rparr>) (T i) else T k)"
  by (auto simp: advance_def max_def split: option.splits)

lemma pull_back_apply:
  "pull_back T i t k =
     (if k = i then map_option (\<lambda>r. r\<lparr>row_NextFire := min (row_NextFire r) t\<rparr>) (T i) else T k)"
  by (auto simp: pull_back_def min_def split: option.splits)

lemma dom_advance [simp]: "dom (advance T i t) = dom T"
  and dom_pull_back [simp]: "dom (pull_back T i t) = dom T"
  by (auto simp: advance_def pull_back_def split: option.splits)

lemma advance_idle: "\<not> claimable T i t \<Longrightarrow> advance T i t = T"
  by (auto simp: advance_def claimable_def split: option.splits)

lemma advance_not_claimable: "\<not> claimable (advance T i t) i t"
  by (auto simp: claimable_def advance_apply split: option.splits)

lemma claimable_mono: "claimable T i t \<Longrightarrow> t \<le> u \<Longrightarrow> claimable T i u"
  by (auto simp: claimable_def split: option.splits)

lemma fill_run_id:
  "\<not> IsZero (rr_FinishedAt run) \<Longrightarrow> \<not> IsZero (rr_StartedAt run) \<Longrightarrow> 1 \<le> rr_Attempt run \<Longrightarrow>
     fill_run now run = run"
  by (simp add: fill_run_def)

lemma run_ts_id [simp]: "run_ts (\<lambda>t. t) r = r"
  by (simp add: run_ts_def)

lemma run_ts_fields [simp]:
  "rr_JobID (run_ts ts r) = rr_JobID r" "rr_FireTime (run_ts ts r) = ts (rr_FireTime r)"
  "rr_NodeID (run_ts ts r) = rr_NodeID r" "rr_Attempt (run_ts ts r) = rr_Attempt r"
  "rr_Outcome (run_ts ts r) = rr_Outcome r" "rr_Error (run_ts ts r) = rr_Error r"
  by (simp_all add: run_ts_def)

lemma fill_run_filled: "1 \<le> rr_Attempt (fill_run now run)"
  by (simp add: fill_run_def Let_def)

text \<open>
  The prefix of a list of all due rows sorted by fire time is a snapshot: the cut keeps the earliest.
\<close>

lemma due_snapshot_take:
  assumes dist: "distinct (map dj_ID all)" and srt: "sorted (map dj_NextFireTime all)"
    and rows: "\<And>d. d \<in> set all \<longleftrightarrow>
      (\<exists>r. T (dj_ID d) = Some r \<and> row_NextFire r \<le> now \<and> d = due_of_row (dj_ID d) r)"
  shows "due_snapshot T now limit (take (nat (effective_limit limit)) all)"
proof -
  let ?n = "nat (effective_limit limit)"
  let ?ds = "take ?n all" and ?rest = "drop ?n all"
  have "sorted_wrt (\<lambda>a b. dj_NextFireTime a \<le> dj_NextFireTime b) (?ds @ ?rest)"
    using srt by (simp add: sorted_wrt_map)
  then have cut: "a \<in> set ?ds \<Longrightarrow> b \<in> set ?rest \<Longrightarrow> dj_NextFireTime a \<le> dj_NextFireTime b" for a b
    unfolding sorted_wrt_append by blast
  have left_out: "int (length ?ds) = effective_limit limit \<and> (\<forall>d \<in> set ?ds. dj_NextFireTime d \<le> row_NextFire row)"
    if i: "T i = Some row" "row_NextFire row \<le> now" "i \<notin> dj_ID ` set ?ds" for i row
  proof -
    let ?d = "due_of_row i row"
    have "?d \<in> set all" unfolding rows using i by (auto simp: due_of_row_def)
    then have d: "?d \<in> set ?rest"
      using i(3) by (metis DueJob.select_convs(1) Un_iff append_take_drop_id due_of_row_def imageI set_append)
    then have "?n < length all" by (auto intro: ccontr)
    moreover have "\<forall>d \<in> set ?ds. dj_NextFireTime d \<le> row_NextFire row"
      using cut [OF _ d] by (simp add: due_of_row_def)
    ultimately show ?thesis by (auto simp: effective_limit_def min_def split: if_splits)
  qed
  show ?thesis
    unfolding due_snapshot_def
  proof (intro conjI allI impI ballI)
    show "distinct (map dj_ID ?ds)" using dist by (metis distinct_take take_map)
    show "\<exists>r. T (dj_ID d) = Some r \<and> row_NextFire r \<le> now \<and> d = due_of_row (dj_ID d) r" if "d \<in> set ?ds" for d
      using in_set_takeD [OF that] unfolding rows .
    show "sorted (map dj_NextFireTime ?ds)" using srt by (metis sorted_wrt_take take_map)
    show "int (length ?ds) \<le> effective_limit limit" by (auto simp: effective_limit_def min_def)
  qed (use left_out in auto)
qed

section \<open>Consequences for every client\<close>

context storage_contract begin

text \<open>A claim target can be won once: the same or an earlier target then fails.\<close>

lemma claim_once:
  assumes "inv s" "ClaimJob S s i t = (s1, Inr True)" "u \<le> t" "ClaimJob S s1 i u = (s2, r)"
  shows "r \<noteq> Inr True"
proof
  assume r: "r = Inr True"
  have s1: "inv s1" "table s1 = advance (table s) i (ts t)"
    using claim_law [OF assms(1,2)] by auto
  from claim_law [OF s1(1) assms(4)] r have "claimable (table s1) i (ts u)" by simp
  with s1(2) claimable_mono [OF _ ts_mono [OF assms(3)]] advance_not_claimable show False by metis
qed

text \<open>A claimed job is no longer due at instants before the target.\<close>

lemma claimed_not_due:
  assumes "inv s" "ClaimJob S s i t = (s1, Inr True)" "ts now < ts t" "FetchDue S s1 now limit = (s2, Inr ds)"
  shows "i \<notin> dj_ID ` set ds"
proof
  assume "i \<in> dj_ID ` set ds"
  moreover have "inv s1" "table s1 = advance (table s) i (ts t)"
    using claim_law [OF assms(1,2)] by auto
  ultimately obtain r where "advance (table s) i (ts t) i = Some r" "row_NextFire r \<le> ts now"
    using fetch_law [OF _ assms(4)] by (auto simp: due_snapshot_def)
  with assms(3) show False by (auto simp: advance_apply)
qed

text \<open>An operation other than a retry never moves a fire back.\<close>

lemma claim_forward:
  assumes "inv s" "ClaimJob S s i t = (s', r)" "table s k = Some row"
  shows "\<exists>row'. table s' k = Some row' \<and> row_NextFire row \<le> row_NextFire row'"
  using claim_law [OF assms(1,2)] assms(3) by (auto simp: advance_apply)

lemma retry_backward:
  assumes "inv s" "ScheduleRetry S s i t = (s', e)" "table s k = Some row"
  shows "\<exists>row'. table s' k = Some row' \<and> row_NextFire row' \<le> row_NextFire row"
  using retry_law [OF assms(1,2)] assms(3) by (auto simp: pull_back_apply)

lemma claim_dom: "inv s \<Longrightarrow> ClaimJob S s i t = (s', r) \<Longrightarrow> dom (table s') = dom (table s)"
  using claim_law dom_advance by metis

lemma retry_dom: "inv s \<Longrightarrow> ScheduleRetry S s i t = (s', e) \<Longrightarrow> dom (table s') = dom (table s)"
  using retry_law dom_pull_back by metis

end

section \<open>Consequences for sequences of calls\<close>

lemma table_steps [simp]:
  "names_kept T T" "fire_forward i T T"
  "names_kept T (advance T k t)" "names_kept T (pull_back T k t)"
  "fire_forward i T (advance T k t)" "k \<noteq> i \<Longrightarrow> fire_forward i T (pull_back T k t)"
  by (auto simp: names_kept_def fire_forward_def advance_apply pull_back_apply)

lemma registered_steps:
  "registered T j f k T' \<Longrightarrow> names_kept T T'" "registered T j f k T' \<Longrightarrow> fire_forward i T T'"
  by (auto simp: names_kept_def fire_forward_def registered_def split: option.splits)

lemma fire_forward_trans: "fire_forward i T T' \<Longrightarrow> fire_forward i T' T'' \<Longrightarrow> fire_forward i T T''"
  unfolding fire_forward_def by (meson order_trans)

lemma names_kept_trans: "names_kept T T' \<Longrightarrow> names_kept T' T'' \<Longrightarrow> names_kept T T''"
  unfolding names_kept_def by metis

context storage_contract begin

lemma step_keeps:
  assumes "inv s"
  shows "inv (storage_step S c s)" "names_kept (table s) (table (storage_step S c s))"
    "\<not> retries_job i c \<Longrightarrow> fire_forward i (table s) (table (storage_step S c s))"
proof -
  have "inv (storage_step S c s) \<and> names_kept (table s) (table (storage_step S c s)) \<and>
      (\<not> retries_job i c \<longrightarrow> fire_forward i (table s) (table (storage_step S c s)))"
  proof (cases c)
    case (Call_EnsureJob jo t)
    show ?thesis
    proof (cases jo)
      case None
      then show ?thesis using Call_EnsureJob assms by (simp add: ensure_nil)
    next
      case (Some j)
      obtain s' r where e: "EnsureJob S s (Some j) t = (s', r)" by fastforce
      have "inv s'" "table s' = table s \<or> (\<exists>i. registered (table s) j (ts t) i (table s'))"
        using ensure_law [OF assms e] by auto
      then have "inv s' \<and> names_kept (table s) (table s') \<and> fire_forward i (table s) (table s')"
        using registered_steps by (metis table_steps(1,2))
      with e Call_EnsureJob Some show ?thesis by simp
    qed
  next
    case (Call_FetchDue now limit)
    then show ?thesis using fetch_law [OF assms, of now limit] by (cases "FetchDue S s now limit") simp
  next
    case (Call_ClaimJob k t)
    obtain s' r where e: "ClaimJob S s k t = (s', r)" by fastforce
    have "inv s'" "table s' = table s \<or> table s' = advance (table s) k (ts t)" using claim_law [OF assms e] by auto
    then show ?thesis using Call_ClaimJob e by auto
  next
    case (Call_ScheduleRetry k t)
    obtain s' r where e: "ScheduleRetry S s k t = (s', r)" by fastforce
    have "inv s'" "table s' = table s \<or> table s' = pull_back (table s) k (ts t)" using retry_law [OF assms e] by auto
    then show ?thesis using Call_ScheduleRetry e by auto
  next
    case (Call_RecordRun now r)
    then show ?thesis using record_law [OF assms, of now r] by (cases "RecordRun S s now r") simp
  qed
  then show "inv (storage_step S c s)" "names_kept (table s) (table (storage_step S c s))"
    "\<not> retries_job i c \<Longrightarrow> fire_forward i (table s) (table (storage_step S c s))"
    by auto
qed

lemma steps_keep:
  assumes "inv s"
  shows "inv (fold (storage_step S) cs s) \<and> names_kept (table s) (table (fold (storage_step S) cs s)) \<and>
    (list_all (\<lambda>c. \<not> retries_job i c) cs \<longrightarrow> fire_forward i (table s) (table (fold (storage_step S) cs s)))"
  using assms
proof (induction cs arbitrary: s)
  case (Cons c cs)
  let ?s = "storage_step S c s"
  show ?case
    using Cons.IH [of ?s] step_keeps(1,2) [OF Cons.prems, of c] step_keeps(3) [OF Cons.prems, of i c] names_kept_trans [of "table s" "table ?s"]
      fire_forward_trans [of i "table s" "table ?s"]
    by auto
qed simp

text \<open>
  A claim target is won once and for all: after any calls that do not retry the job, a claim for the
  same or an earlier target fails.
\<close>

lemma claim_once_ever:
  assumes "inv s" "ClaimJob S s i t = (s1, Inr True)" "list_all (\<lambda>c. \<not> retries_job i c) cs" "u \<le> t"
  shows "snd (ClaimJob S (fold (storage_step S) cs s1) i u) \<noteq> Inr True"
proof
  let ?s2 = "fold (storage_step S) cs s1"
  obtain s3 r where c: "ClaimJob S ?s2 i u = (s3, r)" by fastforce
  assume "snd (ClaimJob S ?s2 i u) = Inr True"
  then have r: "r = Inr True" using c by simp
  have s1: "inv s1" "claimable (table s) i (ts t)" "table s1 = advance (table s) i (ts t)"
    using claim_law [OF assms(1,2)] by auto
  then obtain row where "table s1 i = Some row" "row_NextFire row = ts t"
    by (auto simp: claimable_def advance_def split: option.splits if_splits)
  then obtain row2 where "table ?s2 i = Some row2" "ts t \<le> row_NextFire row2"
    using steps_keep [OF s1(1), of cs i] assms(3) by (auto simp: fire_forward_def)
  moreover have "claimable (table ?s2) i (ts u)"
    using claim_law [OF _ c] steps_keep [OF s1(1), of cs i] r by simp
  ultimately show False using ts_mono [OF assms(4)] by (simp add: claimable_def)
qed

end

context reliable_storage begin

text \<open>A claim on a known row: won when the row is earlier, and the row ends at the later instant.\<close>

lemma claim_row:
  assumes "inv s" "table s i = Some row"
  obtains s' where "ClaimJob S s i t = (s', Inr (row_NextFire row < ts t))"
    "table s' = (table s)(i \<mapsto> row\<lparr>row_NextFire := max (row_NextFire row) (ts t)\<rparr>)" "runs s' = runs s" "inv s'"
proof -
  obtain s' r where c: "ClaimJob S s i t = (s', r)" by fastforce
  have r: "r = Inr (row_NextFire row < ts t)"
    using claim_reliable [OF assms(1) c] assms(2) by (auto simp: claimable_def)
  have "table s' = advance (table s) i (ts t)"
    using claim_law [OF assms(1) c] r assms(2) advance_idle [of "table s" i "ts t"] by (auto simp: claimable_def)
  then have "table s' = (table s)(i \<mapsto> row\<lparr>row_NextFire := max (row_NextFire row) (ts t)\<rparr>)"
    using assms(2) by (auto simp: advance_apply fun_eq_iff)
  moreover have "runs s' = runs s" "inv s'" using claim_law [OF assms(1) c] by auto
  ultimately show ?thesis using c r that by simp
qed

text \<open>A job read as due can be claimed for any later target, as long as nobody else moved it.\<close>

lemma due_claimable:
  assumes "inv s" "FetchDue S s now limit = (s1, Inr ds)" "d \<in> set ds" "ts now < ts t"
  shows "snd (ClaimJob S s1 (dj_ID d) t) = Inr True"
proof -
  have s1: "inv s1" "table s1 = table s" "due_snapshot (table s) (ts now) limit ds"
    using fetch_law [OF assms(1,2)] by auto
  then obtain r where "table s1 (dj_ID d) = Some r" "row_NextFire r \<le> ts now"
    using assms(3) by (auto simp: due_snapshot_def)
  with claim_reliable [OF s1(1), of "dj_ID d" t] assms(4) show ?thesis
    by (cases "ClaimJob S s1 (dj_ID d) t") (auto simp: claimable_def)
qed

end

end
