(* ===== verification/Sundial_Reload.thy ===== *)
theory Sundial_Reload
  imports Sundial_Storage
begin

text \<open>
  The two functions of \<open>dispatcher.go\<close> that turn the stored pair (kind, expression) back into a
  schedule: \<open>loadScheduleFromDue\<close> and \<open>computeNextFire\<close>. They are separate switches in the
  code; the lemmas show that they agree, and that what \<open>EnsureJob\<close> stored is read back.
\<close>

section \<open>Definitions\<close>

definition loadScheduleFromDue :: "cron_parser \<Rightarrow> DueJob \<Rightarrow> go_error + Schedule" where
  "loadScheduleFromDue parse dj =
     (if dj_ScheduleKind dj = ''cron'' then Cron parse (dj_ScheduleExpr dj)
      else if dj_ScheduleKind dj = ''every'' then
        (case ParseDuration (dj_ScheduleExpr dj) of
           None \<Rightarrow> Inl (NewError (dj_ScheduleExpr dj))
         | Some d \<Rightarrow> Every d)
      else if dj_ScheduleKind dj = ''at'' then
        (case time_Parse (dj_ScheduleExpr dj) of
           None \<Rightarrow> Inl (NewError (dj_ScheduleExpr dj))
         | Some t \<Rightarrow> Inr (At t))
      else Inl (NewError (dj_ScheduleKind dj)))"

definition computeNextFire :: "cron_parser \<Rightarrow> DueJob \<Rightarrow> gotime \<Rightarrow> go_error + gotime" where
  "computeNextFire parse dj from =
     (if dj_ScheduleKind dj = ''cron'' then
        (case Cron parse (dj_ScheduleExpr dj) of
           Inl err \<Rightarrow> Inl (Wrapf (dj_ScheduleExpr dj) err)
         | Inr s \<Rightarrow> Inr (schedule_Next s from))
      else if dj_ScheduleKind dj = ''every'' then
        (case ParseDuration (dj_ScheduleExpr dj) of
           None \<Rightarrow> Inl (Wrapf (dj_ScheduleExpr dj) (NewError (dj_ScheduleExpr dj)))
         | Some d \<Rightarrow>
             (case Every d of
                Inl err \<Rightarrow> Inl err
              | Inr s \<Rightarrow> Inr (schedule_Next s from)))
      else if dj_ScheduleKind dj = ''at'' then
        (case time_Parse (dj_ScheduleExpr dj) of
           None \<Rightarrow> Inl (Wrapf (dj_ScheduleExpr dj) (NewError (dj_ScheduleExpr dj)))
         | Some t \<Rightarrow> Inr (schedule_Next (At t) from))
      else Inl (NewError (dj_ScheduleKind dj)))"

section \<open>The two switches agree\<close>

lemma computeNextFire_load_Inr:
  "loadScheduleFromDue parse dj = Inr s \<Longrightarrow> computeNextFire parse dj from = Inr (schedule_Next s from)"
  by (auto simp: loadScheduleFromDue_def computeNextFire_def split: if_splits option.splits)

lemma computeNextFire_load_Inl:
  "loadScheduleFromDue parse dj = Inl e \<Longrightarrow>
     computeNextFire parse dj from = Inl e \<or> computeNextFire parse dj from = Inl (Wrapf (dj_ScheduleExpr dj) e)"
  by (auto simp: loadScheduleFromDue_def computeNextFire_def split: if_splits option.splits sum.splits)

lemma computeNextFire_Inr_iff:
  "computeNextFire parse dj from = Inr t \<longleftrightarrow>
     (\<exists>s. loadScheduleFromDue parse dj = Inr s \<and> t = schedule_Next s from)"
  by (cases "loadScheduleFromDue parse dj")
    (use computeNextFire_load_Inl [of parse dj _ "from"] computeNextFire_load_Inr [of parse dj _ "from"] in fastforce)+

section \<open>Reading back what was stored\<close>

definition stored_due :: "string \<Rightarrow> string \<Rightarrow> gotime \<Rightarrow> Schedule \<Rightarrow> DueJob" where
  "stored_due i name next s =
     \<lparr>dj_ID = i, dj_Name = name, dj_NextFireTime = next, dj_ScheduleExpr = schedule_String s,
      dj_ScheduleKind = schedule_Kind s\<rparr>"

lemma reload_every:
  "Every d = Inr s \<Longrightarrow> int64 d \<Longrightarrow> loadScheduleFromDue parse (stored_due i n t s) = Inr s"
  by (auto simp: Every_Inr stored_due_def loadScheduleFromDue_def ParseDuration_String)

lemma reload_cron:
  "Cron parse expr = Inr s \<Longrightarrow> loadScheduleFromDue parse (stored_due i n t s) = Inr s"
  by (auto simp: Cron_def stored_due_def loadScheduleFromDue_def split: sum.splits)

lemma reload_at:
  "0 \<le> t \<Longrightarrow> t < 3652059 * 86400 * 1000000000 \<Longrightarrow>
     loadScheduleFromDue parse (stored_due i n next (At t)) = Inr (At (t div 1000000000 * 1000000000))"
  by (simp add: At_def stored_due_def loadScheduleFromDue_def time_Parse_Format)

text \<open>A one-shot job that is due has no next fire, whatever the fraction of a second was.\<close>

lemma due_at_no_next:
  assumes "dj_ScheduleKind dj = ''at''" "time_Parse (dj_ScheduleExpr dj) = Some t" "t \<le> now"
  shows "computeNextFire parse dj now = Inr zero_time"
  using assms by (simp add: computeNextFire_def At_def)

section \<open>Properties\<close>

lemma errors_Is_refl [simp]: "errors_Is e e"
  by (cases e) simp_all

text \<open>
  Property C28. The two functions that read a stored schedule agree on every row: where
  one loads a schedule, the other returns its next fire; where one fails, the other fails with the
  same error, possibly wrapped.
\<close>

theorem switches_agree:
  "case loadScheduleFromDue parse dj of
     Inr s \<Rightarrow> computeNextFire parse dj t = Inr (schedule_Next s t)
   | Inl e \<Rightarrow> (\<exists>e'. computeNextFire parse dj t = Inl e' \<and> errors_Is e' e)"
  by (cases "loadScheduleFromDue parse dj")
    (use computeNextFire_load_Inl [of parse dj _ t] in \<open>auto simp: computeNextFire_load_Inr\<close>)

text \<open>
  Property C23. What \<open>EnsureJob\<close> stores of a schedule (its kind and its text) is
  read back as the same schedule: exactly for intervals (every 64-bit duration, through
  \<open>Duration.String\<close> and \<open>ParseDuration\<close>) and cron expressions, and up to the second for one-shot
  instants of the years 1 to 9999.
\<close>

theorem stored_schedule_roundtrip:
  "(Every d = Inr s \<longrightarrow> int64 d \<longrightarrow> loadScheduleFromDue parse (stored_due i n t s) = Inr s) \<and>
   (Cron parse expr = Inr s' \<longrightarrow> loadScheduleFromDue parse (stored_due i n t s') = Inr s') \<and>
   (0 \<le> u \<longrightarrow> u < 3652059 * 86400 * 1000000000 \<longrightarrow>
     loadScheduleFromDue parse (stored_due i n t (At u)) = Inr (At (u div 1000000000 * 1000000000)))"
  using reload_every reload_cron reload_at by blast

theorem stored_schedule_roundtrip_witness:
  "loadScheduleFromDue (\<lambda>_. Inl []) (stored_due ''1'' ''j'' 0 (intervalSchedule (90 * Second))) = Inr (intervalSchedule (90 * Second)) \<and>
   schedule_String (intervalSchedule (90 * Second)) = ''1m30s''"
proof
  show "loadScheduleFromDue (\<lambda>_. Inl []) (stored_due ''1'' ''j'' 0 (intervalSchedule (90 * Second))) = Inr (intervalSchedule (90 * Second))"
    using stored_schedule_roundtrip [of "90 * Second" "intervalSchedule (90 * Second)" "\<lambda>_. Inl []" "''1''" "''j''" 0 "[]" "At 0" 0]
    by (simp add: Every_Inr duration_units int64_def)
  show "schedule_String (intervalSchedule (90 * Second)) = ''1m30s''" by code_simp
qed

end
