(* ===== verification/Sundial_Retry.thy ===== *)
theory Sundial_Retry
  imports Sundial_Job
begin

text \<open>
  The retry machinery of \<open>dispatcher.go\<close>: the attempt counters, the backoff with its jitter, and
  \<open>safeRun\<close>, which turns a panic of the handler into an error.
\<close>

section \<open>Attempt counters\<close>

type_synonym attempts = "string \<rightharpoonup> int"

text \<open>A missing key reads as 0; the nil map of a fresh dispatcher is the empty map.\<close>

definition attempt_count :: "attempts \<Rightarrow> string \<Rightarrow> int" where
  "attempt_count A jobID = (case A jobID of None \<Rightarrow> 0 | Some n \<Rightarrow> n)"

definition bumpAttempt :: "attempts \<Rightarrow> string \<Rightarrow> attempts \<times> int" where
  "bumpAttempt A jobID =
     (let n = wrap64 (attempt_count A jobID + 1) in (A(jobID \<mapsto> n), n))"

definition forgetAttempt :: "attempts \<Rightarrow> string \<Rightarrow> attempts" where
  "forgetAttempt A jobID = A(jobID := None)"

section \<open>Backoff\<close>

text \<open>
  \<open>u\<close> is the value of \<open>rand.Float64()\<close>, \<open>oor\<close> the implementation's result for a float that
  does not fit a \<open>Duration\<close>.
\<close>

definition computeBackoff :: "(f64 \<Rightarrow> int) \<Rightarrow> RetryPolicy \<Rightarrow> int \<Rightarrow> f64 \<Rightarrow> duration" where
  "computeBackoff oor p attempt u =
     (let attempt = (if attempt < 1 then 1 else attempt);
          base = f64_mul (f64_of_int (InitialBackoff p)) (math_Pow (Multiplier p) (attempt - 1));
          base = (if f64_less (f64_of_int (MaxBackoff p)) base then f64_of_int (MaxBackoff p) else base);
          jitter = f64_add (Finite (1 / 2)) u
      in f64_to_int64 oor (f64_mul base jitter))"

section \<open>Running a handler\<close>

definition safeRun :: "Context \<Rightarrow> HandlerFunc \<Rightarrow> string option" where
  "safeRun ctx h =
     (case h ctx of
        Returns err \<Rightarrow> err
      | Panics v \<Rightarrow> Some (''sundial: handler panicked: '' @ v))"

section \<open>Lemmas on the counters\<close>

lemma bumpAttempt_simps [simp]:
  "attempt_count (fst (bumpAttempt A i)) k = (if k = i then wrap64 (attempt_count A i + 1) else attempt_count A k)"
  "snd (bumpAttempt A i) = wrap64 (attempt_count A i + 1)"
  by (simp_all add: bumpAttempt_def attempt_count_def Let_def)

lemma forgetAttempt_simps [simp]:
  "attempt_count (forgetAttempt A i) k = (if k = i then 0 else attempt_count A k)"
  by (simp add: forgetAttempt_def attempt_count_def)

section \<open>Lemmas on the power and the backoff\<close>

lemma pow_loop_nonneg:
  "0 \<le> x1 \<Longrightarrow> 0 \<le> a1 \<Longrightarrow> pow_loop i x1 xe a1 ae = (a, e) \<Longrightarrow> 0 \<le> a"
proof (induction i x1 xe a1 ae arbitrary: a e rule: pow_loop.induct)
  case (1 i x1 xe a1 ae)
  show ?case
  proof (cases "i = 0 \<or> xe < - (2 ^ 12) \<or> 2 ^ 12 < xe")
    case True
    with "1.prems" show ?thesis by (auto simp: pow_loop.simps [of i] split: if_splits)
  next
    case False
    then obtain x1' xe' a1' ae' where step: "pow_loop i x1 xe a1 ae = pow_loop (i div 2) x1' xe' a1' ae'"
      and nn: "0 \<le> x1'" "0 \<le> a1'"
      and ih: "\<And>a e. pow_loop (i div 2) x1' xe' a1' ae' = (a, e) \<Longrightarrow> 0 \<le> a"
      using "1.IH" "1.prems"(1,2) rnd_nonneg [of "a1 * x1"] rnd_nonneg [of "x1 * x1"]
      by (fastforce simp: pow_loop.simps [of i x1] Let_def split: if_splits)
    from ih [of a e] step "1.prems"(3) show ?thesis by simp
  qed
qed

lemma f64_round_nonneg: "0 \<le> x \<Longrightarrow> (\<exists>y \<ge> 0. f64_round x = Finite y) \<or> f64_round x = PosInf"
  using rnd_nonneg [of x] by (auto simp: f64_round_def Let_def)

lemma math_Pow_nonneg:
  assumes "0 \<le> r"
  shows "(\<exists>y \<ge> 0. math_Pow (Finite r) n = Finite y) \<or> math_Pow (Finite r) n = PosInf"
proof -
  have loop: "0 \<le> a * 2 powi e" if "pow_loop i (r / 2 powi xe) xe 1 0 = (a, e)" for i xe a e
    using pow_loop_nonneg [OF _ _ that] assms by simp
  show ?thesis
    using assms f64_round_nonneg [OF loop]
    by (auto simp: math_Pow_def Let_def split: prod.splits)
qed

lemma rnd_powi: "- 1074 \<le> e \<Longrightarrow> rnd (2 powi e) = 2 powi e"
  using rnd_exact [of "2 powi e" 1 e] by simp

text \<open>With a base of 2 every step of the power loop is exact.\<close>

lemma pow_loop_two:
  "1 \<le> k \<Longrightarrow> k * int i \<le> 4095 \<Longrightarrow> 0 \<le> j \<Longrightarrow> j + int i \<le> 1073 \<Longrightarrow>
     \<exists>a e. pow_loop i (1 / 2) (k + 1) (2 powi (- j)) ae = (a, e) \<and> a * 2 powi e = 2 powi (ae - j + k * int i)"
proof (induction i arbitrary: k j ae rule: less_induct)
  case (less i)
  show ?case
  proof (cases "i = 0")
    case True
    then show ?thesis by (simp add: pow_loop.simps power_int_add [symmetric])
  next
    case False
    have "k * 1 \<le> k * int i" using False less.prems(1) by (intro mult_left_mono) auto
    then have k: "k \<le> 4095" using less.prems(2) by linarith
    have quarter: "rnd (1 / 4) = 1 / 4" using rnd_powi [of "- 2"] by (simp add: power_int_def power2_eq_square)
    have half: "rnd (2 powi (- j) / 2) = 2 powi (- (j + 1))"
      using rnd_powi [of "- (j + 1)"] less.prems False by (simp add: power_int_diff)
    have i2: "int i = 2 * int (i div 2) + (if odd i then 1 else 0)" by (simp add: zdiv_int)
    have le: "2 * k * int (i div 2) \<le> 4095" "i div 2 < i" "j + 1 + int (i div 2) \<le> 1073" "j + int (i div 2) \<le> 1073"
      using less.prems False i2 by (auto simp: algebra_simps split: if_splits)
    show ?thesis
    proof (cases "odd i")
      case True
      have "pow_loop i (1 / 2) (k + 1) (2 powi (- j)) ae =
          pow_loop (i div 2) (1 / 2) (2 * k + 1) (2 powi (- (j + 1))) (ae + (k + 1))"
        using True False k less.prems(1) half by (simp add: pow_loop.simps [of i] quarter add.commute)
      moreover have ex: "ae + (k + 1) - (j + 1) + 2 * k * int (i div 2) = ae - j + k * int i"
        using i2 True by (simp add: algebra_simps)
      ultimately show ?thesis
        using less.IH [OF le(2), of "2 * k" "j + 1" "ae + (k + 1)", unfolded ex] less.prems le by auto
    next
      case even: False
      have "pow_loop i (1 / 2) (k + 1) (2 powi (- j)) ae =
          pow_loop (i div 2) (1 / 2) (2 * k + 1) (2 powi (- j)) ae"
        using even False k less.prems(1) by (simp add: pow_loop.simps [of i] quarter add.commute)
      moreover have ex: "ae - j + 2 * k * int (i div 2) = ae - j + k * int i"
        using i2 even by (simp add: algebra_simps)
      ultimately show ?thesis
        using less.IH [OF le(2), of "2 * k" j ae, unfolded ex] less.prems le by auto
    qed
  qed
qed

lemma f64_round_powi: "- 1074 \<le> e \<Longrightarrow> e < 1024 \<Longrightarrow> f64_round (2 powi e) = Finite (2 powi e)"
proof -
  assume e: "- 1074 \<le> e" "e < 1024"
  have "(2::rat) powi e < 2 powi 1024" using e by (intro power_int_strict_increasing) auto
  moreover have "(2::rat) powi 1024 = 2 ^ 1024" by (simp add: power_int_def)
  moreover have "- (2 ^ 1024) < (2::rat) powi e"
    by (rule less_trans [of _ 0]) simp_all
  ultimately show ?thesis using e by (simp add: f64_round_def Let_def rnd_powi)
qed

lemma math_Pow_two:
  assumes "0 \<le> n" "n \<le> 1000"
  shows "math_Pow (Finite 2) n = Finite (2 ^ nat n)"
proof -
  have rn: "rnd (of_int n) = of_int n" using assms by (intro rnd_of_int) auto
  have pow: "(2::rat) powi n = 2 ^ nat n" using assms by (simp add: power_int_def)
  have xe: "frexp_exp 2 = 2" by (simp add: frexp_exp_def ilog2.simps [of 2] ilog2.simps [of 1])
  have two: "(2::rat) / 2 powi 2 = 1 / 2" by (simp add: power_int_def)
  obtain a e where loop: "pow_loop (nat n) (1 / 2) (1 + 1) (2 powi (- 0)) 0 = (a, e)"
      "a * 2 powi e = 2 powi (0 - 0 + 1 * int (nat n))"
    using pow_loop_two [of 1 "nat n" 0 0] assms by auto
  then have "f64_round (a * 2 powi e) = Finite (2 powi n)"
    using assms f64_round_powi [of n] by simp
  then show ?thesis
    using assms loop rn xe two pow by (auto simp: math_Pow_def Let_def)
qed

text \<open>Jitter, and the scaling of a base between 0 and the cap.\<close>

lemma jitter_range:
  assumes "0 \<le> x" "x < 1"
  obtains j where "f64_add (Finite (1 / 2)) (Finite x) = Finite j" "1 / 2 \<le> j" "j \<le> 3 / 2"
proof -
  let ?y = "1 / 2 + x"
  have half: "rnd (1 / 2) = 1 / 2" using rnd_exact [of "1 / 2" 1 "- 1"] by (simp add: power_int_def)
  have three: "rnd (3 / 2) = 3 / 2" using rnd_exact [of "3 / 2" 3 "- 1"] by (simp add: power_int_def)
  have lo: "1 / 2 \<le> rnd ?y" using rnd_mono [of "1 / 2" ?y] half assms by simp
  have hi: "rnd ?y \<le> 3 / 2" using rnd_mono [of ?y "3 / 2"] three assms by simp
  have "(3 / 2 :: rat) < 2 ^ 1024"
    using power_increasing [of 1 1024 "2::rat"] by simp
  with lo hi have "f64_round ?y = Finite (rnd ?y)"
    by (simp add: f64_round_def Let_def not_le)
  with lo hi show ?thesis by (intro that [of "rnd ?y"]) auto
qed

lemma int_half: "rnd (of_int m / 2) = of_int m / 2" if "0 \<le> m" "m \<le> 2 ^ 53" for m
  using rnd_exact [of "of_int m / 2" m "- 1"] that by (simp add: power_int_def)

lemma scale_bounds:
  assumes "0 \<le> b" "b \<le> of_int m" "0 \<le> m" "m \<le> 2 ^ 51" "1 / 2 \<le> j" "j \<le> 3 / 2"
  shows "\<exists>d. f64_to_int64 oor (f64_mul (Finite b) (Finite j)) = d \<and> 0 \<le> d \<and> d \<le> 3 * m div 2"
    and "of_int l \<le> b \<Longrightarrow> 0 \<le> l \<Longrightarrow> l div 2 \<le> f64_to_int64 oor (f64_mul (Finite b) (Finite j))"
proof -
  let ?y = "rnd (b * j)"
  have bj: "0 \<le> b * j" "b * j \<le> of_int (3 * m) / 2"
    using mult_mono [of b "of_int m" j "3 / 2"] assms by auto
  have hi: "?y \<le> of_int (3 * m) / 2"
    using rnd_mono [OF bj] int_half [of "3 * m"] assms by simp
  have lo: "0 \<le> ?y" using bj(1) by (rule rnd_nonneg)
  have "(of_int (3 * m) / 2 :: rat) \<le> of_int (2 ^ 53)"
    using assms(3,4) by (simp add: field_simps)
  also have "(of_int (2 ^ 53) :: rat) < 2 ^ 1024" by simp
  finally have fin: "f64_mul (Finite b) (Finite j) = Finite ?y"
    using lo hi by (simp add: f64_round_def Let_def)
  have tr: "0 \<le> trunc ?y" "trunc ?y \<le> 3 * m div 2"
    using lo trunc_nonneg trunc_mono [OF lo hi] floor_divide_of_int_eq [of "3 * m" 2, where ?'a = rat] assms(3)
    by (auto simp: trunc_def)
  then have "int64 (trunc ?y)" using assms(4) by (auto simp: int64_def)
  then have res: "f64_to_int64 oor (f64_mul (Finite b) (Finite j)) = trunc ?y" using fin by simp
  show "\<exists>d. f64_to_int64 oor (f64_mul (Finite b) (Finite j)) = d \<and> 0 \<le> d \<and> d \<le> 3 * m div 2"
    using res tr by simp
  show "l div 2 \<le> f64_to_int64 oor (f64_mul (Finite b) (Finite j))" if l: "of_int l \<le> b" "0 \<le> l"
  proof -
    have "of_int l / 2 \<le> b * j" using mult_mono [of "of_int l" b "1 / 2" j] l assms by simp
    moreover have "l \<le> 2 ^ 53"
    proof -
      have "(of_int l :: rat) \<le> of_int m" using l(1) assms(2) by (rule order_trans)
      then show ?thesis using assms(4) by simp
    qed
    ultimately have "of_int l / 2 \<le> ?y"
      using rnd_mono [of "of_int l / 2" "b * j"] int_half [of l] l(2) by simp
    then have "trunc (of_int l / 2) \<le> trunc ?y" using l(2) by (intro trunc_mono) auto
    moreover have "trunc (of_int l / 2) = l div 2"
      using l(2) floor_divide_of_int_eq [of l 2, where ?'a = rat] by (simp add: trunc_def)
    ultimately show ?thesis using res by simp
  qed
qed

text \<open>The clamped base: whatever the power is, it ends between 0 and the cap.\<close>

lemma clamped_base:
  assumes "0 < i" "i \<le> 2 ^ 53" "0 \<le> m" "m \<le> 2 ^ 53"
    and "(\<exists>y \<ge> 0. p = Finite y) \<or> p = PosInf"
  obtains b where
    "(if f64_less (f64_of_int m) (f64_mul (f64_of_int i) p) then f64_of_int m else f64_mul (f64_of_int i) p) = Finite b"
    "0 \<le> b" "b \<le> of_int m" "p = Finite y \<Longrightarrow> b = min (of_int m) (rnd (of_int i * y))"
proof -
  have fi: "f64_of_int i = Finite (of_int i)" "f64_of_int m = Finite (of_int m)"
    using assms by (simp_all add: f64_of_int_exact)
  have big: "(of_int m :: rat) < 2 ^ 1024"
  proof -
    have "(of_int m :: rat) \<le> of_int (2 ^ 53)" using assms(4) by (simp only: of_int_le_iff)
    also have "\<dots> < 2 ^ 1024" by simp
    finally show ?thesis .
  qed
  show ?thesis
  proof (cases p)
    case (Finite y)
    then have y: "0 \<le> y" using assms(5) by auto
    have r: "0 \<le> rnd (of_int i * y)" using assms(1) y by (intro rnd_nonneg) simp
    show ?thesis
      using Finite fi r big assms(3)
      by (intro that [of "min (of_int m) (rnd (of_int i * y))"])
        (auto simp: f64_round_def Let_def min_def)
  next
    case PosInf
    then show ?thesis
      using fi assms(1,3) by (intro that [of "of_int m"]) (auto simp: f64_inf_def)
  qed (use assms(5) in auto)
qed

section \<open>Properties\<close>

text \<open>
  Property C25. For any positive initial backoff, any finite multiplier that is not negative, any
  attempt and any random value, the wait is between 0 and one and a half times \<open>MaxBackoff\<close>: the
  cap is applied before the jitter, so the jitter can exceed it by half. (Durations up to
  \<open>2 ^ 51\<close> ns, about 26 days, where the conversions to \<open>float64\<close> are exact.)
\<close>

theorem backoff_bounded:
  assumes "0 < InitialBackoff p" "InitialBackoff p \<le> 2 ^ 51" "0 \<le> MaxBackoff p" "MaxBackoff p \<le> 2 ^ 51"
    and "Multiplier p = Finite r" "0 \<le> r" "0 \<le> x" "x < 1"
  shows "0 \<le> computeBackoff oor p attempt (Finite x) \<and>
    computeBackoff oor p attempt (Finite x) \<le> 3 * MaxBackoff p div 2"
proof -
  let ?n = "(if attempt < 1 then 1 else attempt) - 1"
  obtain j where j: "f64_add (Finite (1 / 2)) (Finite x) = Finite j" "1 / 2 \<le> j" "j \<le> 3 / 2"
    using jitter_range [OF assms(7,8)] .
  obtain b where b: "(if f64_less (f64_of_int (MaxBackoff p)) (f64_mul (f64_of_int (InitialBackoff p)) (math_Pow (Finite r) ?n))
        then f64_of_int (MaxBackoff p) else f64_mul (f64_of_int (InitialBackoff p)) (math_Pow (Finite r) ?n)) = Finite b"
      "0 \<le> b" "b \<le> of_int (MaxBackoff p)"
    by (rule clamped_base [of "InitialBackoff p" "MaxBackoff p" "math_Pow (Finite r) ?n" 0])
      (use assms math_Pow_nonneg [OF assms(6), of ?n] in auto)
  have "computeBackoff oor p attempt (Finite x) = f64_to_int64 oor (f64_mul (Finite b) (Finite j))"
    unfolding computeBackoff_def Let_def assms(5) j(1) b(1) ..
  with scale_bounds(1) [OF b(2,3) assms(3,4) j(2,3), of oor] show ?thesis by auto
qed

theorem backoff_bounded_witness:
  "0 \<le> computeBackoff (\<lambda>_. 0) \<lparr>MaxAttempts = 3, InitialBackoff = Second, MaxBackoff = 5 * Minute, Multiplier = Finite 2\<rparr>
     7 (Finite (1 / 4)) \<and>
   computeBackoff (\<lambda>_. 0) \<lparr>MaxAttempts = 3, InitialBackoff = Second, MaxBackoff = 5 * Minute, Multiplier = Finite 2\<rparr>
     7 (Finite (1 / 4)) \<le> 450000000000"
  using backoff_bounded [of "\<lparr>MaxAttempts = 3, InitialBackoff = Second, MaxBackoff = 5 * Minute, Multiplier = Finite 2\<rparr>"
      2 "1 / 4" "\<lambda>_. 0" 7]
  by (simp add: duration_units)

text \<open>
  Property C24. With the default multiplier 2.0 the wait after attempt \<open>a\<close> is
  \<open>InitialBackoff * 2 ^ (a - 1)\<close>, capped at \<open>MaxBackoff\<close>, times a factor between one half and
  one and a half: the floating-point power is exact. (Durations up to \<open>2 ^ 51\<close> ns and attempts up to 1000.)
\<close>

theorem backoff_exponential:
  assumes "0 < InitialBackoff p" "InitialBackoff p \<le> 2 ^ 51" "0 \<le> MaxBackoff p" "MaxBackoff p \<le> 2 ^ 51"
    and "Multiplier p = Finite 2" "0 \<le> x" "x < 1" "1 \<le> a" "a \<le> 1000"
  defines "base \<equiv> min (InitialBackoff p * 2 ^ nat (a - 1)) (MaxBackoff p)"
  shows "base div 2 \<le> computeBackoff oor p a (Finite x) \<and> computeBackoff oor p a (Finite x) \<le> 3 * base div 2"
proof -
  obtain j where j: "f64_add (Finite (1 / 2)) (Finite x) = Finite j" "1 / 2 \<le> j" "j \<le> 3 / 2"
    using jitter_range [OF assms(6,7)] .
  have pow: "math_Pow (Finite 2) (a - 1) = Finite (2 ^ nat (a - 1))"
    using assms by (intro math_Pow_two) auto
  have exact: "rnd (of_int (InitialBackoff p) * 2 ^ nat (a - 1)) = of_int (InitialBackoff p * 2 ^ nat (a - 1))"
    using rnd_exact [of "of_int (InitialBackoff p) * 2 ^ nat (a - 1)" "InitialBackoff p" "a - 1"] assms
    by (simp add: powi_int)
  obtain b where b: "(if f64_less (f64_of_int (MaxBackoff p)) (f64_mul (f64_of_int (InitialBackoff p)) (math_Pow (Finite 2) (a - 1)))
        then f64_of_int (MaxBackoff p) else f64_mul (f64_of_int (InitialBackoff p)) (math_Pow (Finite 2) (a - 1))) = Finite b"
      "b = min (of_int (MaxBackoff p)) (rnd (of_int (InitialBackoff p) * 2 ^ nat (a - 1)))"
    by (rule clamped_base [of "InitialBackoff p" "MaxBackoff p" "math_Pow (Finite 2) (a - 1)" "2 ^ nat (a - 1)"])
      (use assms pow in auto)
  have base: "b = of_int base" unfolding b(2) exact base_def
    by (simp only: of_int_min min.commute)
  have bounds: "0 \<le> base" "base \<le> 2 ^ 51" using assms by (auto simp: base_def)
  have "computeBackoff oor p a (Finite x) = f64_to_int64 oor (f64_mul (Finite b) (Finite j))"
    using b(1) j(1) assms(5,8) by (simp add: computeBackoff_def Let_def)
  with scale_bounds(1) [of b base j oor] scale_bounds(2) [of b base j base oor] bounds base j
  show ?thesis by simp
qed

theorem backoff_exponential_witness:
  "2 * Second \<le> computeBackoff (\<lambda>_. 0) \<lparr>MaxAttempts = 3, InitialBackoff = Second, MaxBackoff = 5 * Minute, Multiplier = Finite 2\<rparr>
     3 (Finite (1 / 4)) \<and>
   computeBackoff (\<lambda>_. 0) \<lparr>MaxAttempts = 3, InitialBackoff = Second, MaxBackoff = 5 * Minute, Multiplier = Finite 2\<rparr>
     3 (Finite (1 / 4)) \<le> 6 * Second"
  using backoff_exponential [of "\<lparr>MaxAttempts = 3, InitialBackoff = Second, MaxBackoff = 5 * Minute, Multiplier = Finite 2\<rparr>"
      "1 / 4" 3 "\<lambda>_. 0"]
  by (simp add: duration_units)

text \<open>
  Whatever the handler does, \<open>safeRun\<close> returns: the result is
  \<open>nil\<close> exactly when the handler returned \<open>nil\<close>, the handler's own error otherwise, and a panic
  becomes an error that carries the panic value.
\<close>

theorem safeRun_contains_panics:
  "(safeRun ctx h = None \<longleftrightarrow> h ctx = Returns None) \<and>
   (\<forall>e. h ctx = Returns (Some e) \<longrightarrow> safeRun ctx h = Some e) \<and>
   (\<forall>v. h ctx = Panics v \<longrightarrow> safeRun ctx h = Some (''sundial: handler panicked: '' @ v))"
  by (cases "h ctx") (auto simp: safeRun_def)

theorem safeRun_contains_panics_witness:
  "safeRun \<lparr>ctx_deadline = None, ctx_call = 0\<rparr> (\<lambda>_. Panics ''boom'') = Some ''sundial: handler panicked: boom''"
  using safeRun_contains_panics [of "\<lparr>ctx_deadline = None, ctx_call = 0\<rparr>" "\<lambda>_. Panics ''boom''"] by simp

end
