(* ===== verification/Sundial_Leader.thy ===== *)
theory Sundial_Leader
  imports Sundial_Prelude
begin

text \<open>
  \<open>leader.go\<close>: the \<open>Leader\<close> interface and its two implementations. The Postgres one is
  modelled with the advisory locks of the server: a lock has an owning session and a hold count;
  \<open>pg_try_advisory_lock\<close> succeeds when the lock is free or already the session's own. The
  connection \<open>Acquire\<close> hands out and what becomes of a query are answers of the server. The nodes
  of a cluster share the server; a step relation lets them acquire and release in any order, processes
  crash and sessions end.
\<close>

section \<open>The interface\<close>

record 'l Leader =
  TryAcquire :: "'l \<Rightarrow> string \<Rightarrow> 'l \<times> (go_error + bool)"
  Release :: "'l \<Rightarrow> 'l \<times> go_error option"
  IsLeader :: "'l \<Rightarrow> bool"

text \<open>What the interface documents of every implementation.\<close>

locale leader_contract =
  fixes L :: "'l Leader"
  assumes acquire_leads: "TryAcquire L l n = (l', Inr True) \<Longrightarrow> IsLeader L l'"
    and acquire_again: "TryAcquire L l n = (l', Inr True) \<Longrightarrow> snd (TryAcquire L l' n) = Inr True"
    and acquire_error: "TryAcquire L l n = (l', Inl e) \<Longrightarrow> IsLeader L l' = IsLeader L l"
    and release_drops: "Release L l = (l', x) \<Longrightarrow> \<not> IsLeader L l'"
    and release_idle: "Release L l = (l', x) \<Longrightarrow> Release L l' = (l', None)"
begin

text \<open>Losing the role needs a release or another node's doing: renewing never drops it.\<close>

lemma release_twice: "snd (Release L (fst (Release L l))) = None"
  by (cases "Release L l") (simp add: release_idle)

lemma reacquire_after_release:
  assumes "Release L l = (l1, x)" "TryAcquire L l1 n = (l2, Inr True)"
  shows "\<not> IsLeader L l1 \<and> IsLeader L l2"
  using assms release_drops acquire_leads by blast

end

section \<open>MemoryLeader\<close>

record MemoryLeader =
  ml_holder :: string
  ml_myID :: string

definition NewMemoryLeader :: MemoryLeader where
  "NewMemoryLeader = \<lparr>ml_holder = [], ml_myID = []\<rparr>"

definition ml_TryAcquire :: "MemoryLeader \<Rightarrow> string \<Rightarrow> MemoryLeader \<times> (go_error + bool)" where
  "ml_TryAcquire l nodeID =
     (if nodeID = [] then (l, Inl (NewError ''sundial: leader nodeID is required''))
      else if ml_holder l = [] then (l\<lparr>ml_holder := nodeID, ml_myID := nodeID\<rparr>, Inr True)
      else if ml_holder l = nodeID then (l\<lparr>ml_myID := nodeID\<rparr>, Inr True)
      else (l, Inr False))"

definition ml_Release :: "MemoryLeader \<Rightarrow> MemoryLeader \<times> go_error option" where
  "ml_Release l =
     (let l = (if ml_holder l = ml_myID l then l\<lparr>ml_holder := []\<rparr> else l)
      in (l\<lparr>ml_myID := []\<rparr>, None))"

definition ml_IsLeader :: "MemoryLeader \<Rightarrow> bool" where
  "ml_IsLeader l \<longleftrightarrow> ml_myID l \<noteq> [] \<and> ml_holder l = ml_myID l"

definition MemoryLeader_ops :: "MemoryLeader Leader" where
  "MemoryLeader_ops = \<lparr>TryAcquire = ml_TryAcquire, Release = ml_Release, IsLeader = ml_IsLeader\<rparr>"

lemmas ml_defs = ml_TryAcquire_def ml_Release_def ml_IsLeader_def MemoryLeader_ops_def

interpretation ml: leader_contract MemoryLeader_ops
  by unfold_locales (auto simp: ml_defs Let_def split: if_splits)

section \<open>PostgresLeader\<close>

text \<open>The sentinel key, the ASCII bytes of \<open>SundialL\<close>.\<close>

definition leaderSentinelKey :: int where
  "leaderSentinelKey = 0x53756e6469616c4c"

type_synonym session = nat
type_synonym lock_table = "int \<rightharpoonup> session \<times> nat"

definition pg_try_advisory_lock :: "lock_table \<Rightarrow> session \<Rightarrow> int \<Rightarrow> lock_table \<times> bool" where
  "pg_try_advisory_lock locks s k =
     (case locks k of
        None \<Rightarrow> (locks(k \<mapsto> (s, 1)), True)
      | Some (s', c) \<Rightarrow> if s' = s then (locks(k \<mapsto> (s, Suc c)), True) else (locks, False))"

definition pg_advisory_unlock :: "lock_table \<Rightarrow> session \<Rightarrow> int \<Rightarrow> lock_table \<times> bool" where
  "pg_advisory_unlock locks s k =
     (case locks k of
        None \<Rightarrow> (locks, False)
      | Some (s', c) \<Rightarrow>
          if s' \<noteq> s then (locks, False)
          else if c \<le> 1 then (locks(k := None), True)
          else (locks(k \<mapsto> (s, c - 1)), True))"

record PostgresLeader =
  pl_conn :: "session option"
  pl_held :: bool
  pl_nodeID :: string

definition NewPostgresLeader :: PostgresLeader where
  "NewPostgresLeader = \<lparr>pl_conn = None, pl_held = False, pl_nodeID = []\<rparr>"

text \<open>\<open>acq\<close> is the answer of \<open>pool.Acquire\<close>, \<open>fate\<close> what becomes of the query.\<close>

definition pl_TryAcquire ::
  "go_error + session \<Rightarrow> fate \<Rightarrow> lock_table \<Rightarrow> PostgresLeader \<Rightarrow> string \<Rightarrow>
     lock_table \<times> PostgresLeader \<times> (go_error + bool)" where
  "pl_TryAcquire acq fate locks l nodeID =
     (if nodeID = [] then (locks, l, Inl (NewError ''sundial: leader nodeID is required''))
      else if pl_held l then (locks, l, Inr True)
      else case acq of
        Inl err \<Rightarrow> (locks, l, Inl (Wrapf ''sundial: acquire leader conn'' err))
      | Inr conn \<Rightarrow>
          (case pg_try_advisory_lock locks conn leaderSentinelKey of (locks', locked) \<Rightarrow>
             case fate of
               Lost_before err \<Rightarrow> (locks, l, Inl (Wrapf ''sundial: try leader lock'' err))
             | Lost_after err \<Rightarrow> (locks', l, Inl (Wrapf ''sundial: try leader lock'' err))
             | Answered \<Rightarrow>
                 if \<not> locked then (locks', l, Inr False)
                 else (locks', l\<lparr>pl_conn := Some conn, pl_nodeID := nodeID, pl_held := True\<rparr>, Inr True)))"

definition pl_Release ::
  "fate \<Rightarrow> lock_table \<Rightarrow> PostgresLeader \<Rightarrow> lock_table \<times> PostgresLeader \<times> go_error option" where
  "pl_Release fate locks l =
     (if \<not> pl_held l then (locks, l, None)
      else
        let conn = pl_conn l; l = l\<lparr>pl_conn := None, pl_nodeID := [], pl_held := False\<rparr>
        in case conn of
          None \<Rightarrow> (locks, l, None)
        | Some c \<Rightarrow>
            (let locks' = fst (pg_advisory_unlock locks c leaderSentinelKey)
             in case fate of
                  Lost_before err \<Rightarrow> (locks, l, Some (Wrapf ''sundial: release leader lock'' err))
                | Lost_after err \<Rightarrow> (locks', l, Some (Wrapf ''sundial: release leader lock'' err))
                | Answered \<Rightarrow> (locks', l, None)))"

definition pl_IsLeader :: "PostgresLeader \<Rightarrow> bool" where
  "pl_IsLeader l \<longleftrightarrow> pl_held l"

section \<open>Nodes on one server\<close>

text \<open>
  The leaders of all nodes and the server they share: its lock table, the connections the pools have
  handed out to leaders, and the answers to the calls to come. A pool hands out a connection to one
  holder at a time.
\<close>

record lock_server =
  ls_locks :: lock_table
  ls_leaders :: "nat \<Rightarrow> PostgresLeader"
  ls_acquired :: "session list"
  ls_answers :: "nat \<Rightarrow> (go_error + session) \<times> fate"
  ls_calls :: nat

definition pool_Acquire :: "lock_server \<Rightarrow> go_error + session" where
  "pool_Acquire w =
     (case fst (ls_answers w (ls_calls w)) of
        Inl err \<Rightarrow> Inl err
      | Inr s \<Rightarrow> if s \<in> set (ls_acquired w) then Inl (NewError ''pool exhausted'') else Inr s)"

definition ls_put :: "lock_server \<Rightarrow> nat \<Rightarrow> lock_table \<Rightarrow> PostgresLeader \<Rightarrow> lock_server" where
  "ls_put w n locks l =
     w\<lparr>ls_locks := locks, ls_leaders := (ls_leaders w)(n := l),
       ls_acquired := (case pl_conn l of None \<Rightarrow> [] | Some s \<Rightarrow> [s]) @
         filter (\<lambda>s. pl_conn (ls_leaders w n) \<noteq> Some s) (ls_acquired w),
       ls_calls := Suc (ls_calls w)\<rparr>"

text \<open>The leader of node \<open>n\<close> behind the interface.\<close>

definition PostgresLeader_ops :: "nat \<Rightarrow> lock_server Leader" where
  "PostgresLeader_ops n =
     \<lparr>TryAcquire = (\<lambda>w nodeID.
        case pl_TryAcquire (pool_Acquire w) (snd (ls_answers w (ls_calls w))) (ls_locks w) (ls_leaders w n) nodeID of
          (locks, l, r) \<Rightarrow> (ls_put w n locks l, r)),
      Release = (\<lambda>w.
        if \<not> pl_held (ls_leaders w n) then (w, None)
        else case pl_Release (snd (ls_answers w (ls_calls w))) (ls_locks w) (ls_leaders w n) of
          (locks, l, x) \<Rightarrow> (ls_put w n locks l, x)),
      IsLeader = (\<lambda>w. pl_IsLeader (ls_leaders w n))\<rparr>"

lemmas pl_defs = pl_TryAcquire_def pl_Release_def pl_IsLeader_def PostgresLeader_ops_def ls_put_def

interpretation pl: leader_contract "PostgresLeader_ops n" for n
proof (unfold_locales, goal_cases)
  case (1 l k l')
  then show ?case by (auto simp: pl_defs split: if_splits sum.splits fate.splits prod.splits)
next
  case (2 l k l')
  then show ?case by (auto simp: pl_defs split: if_splits sum.splits fate.splits prod.splits)
next
  case (3 l k l' e)
  then show ?case by (auto simp: pl_defs split: if_splits sum.splits fate.splits prod.splits)
next
  case (4 l l' x)
  then show ?case by (auto simp: pl_defs Let_def split: if_splits option.splits fate.splits prod.splits)
next
  case (5 l l' x)
  then show ?case by (auto simp: pl_defs Let_def split: if_splits option.splits fate.splits prod.splits)
qed

text \<open>
  The end of a session, on which the server drops the session's locks, and the end of a process: its
  sessions end, and the process that replaces it starts with a new leader.
\<close>

definition drop_session :: "lock_table \<Rightarrow> session \<Rightarrow> lock_table" where
  "drop_session locks s k =
     (case locks k of Some (s', n) \<Rightarrow> if s' = s then None else Some (s', n) | None \<Rightarrow> None)"

definition ls_close :: "session \<Rightarrow> lock_server \<Rightarrow> lock_server" where
  "ls_close s w = w\<lparr>ls_locks := drop_session (ls_locks w) s\<rparr>"

definition ls_crash :: "nat \<Rightarrow> lock_server \<Rightarrow> lock_server" where
  "ls_crash n w =
     (let w' = w\<lparr>ls_leaders := (ls_leaders w)(n := NewPostgresLeader),
                ls_acquired := filter (\<lambda>s. pl_conn (ls_leaders w n) \<noteq> Some s) (ls_acquired w)\<rparr>
      in case pl_conn (ls_leaders w n) of None \<Rightarrow> w' | Some s \<Rightarrow> ls_close s w')"

definition ls_init :: "(nat \<Rightarrow> (go_error + session) \<times> fate) \<Rightarrow> lock_server" where
  "ls_init answers =
     \<lparr>ls_locks = Map.empty, ls_leaders = (\<lambda>_. NewPostgresLeader), ls_acquired = [], ls_answers = answers, ls_calls = 0\<rparr>"

text \<open>
  Any node acquires or releases, with any answers; a process ends; a connection that no leader holds is
  closed. \<open>lose\<close> is the end of a session behind the back of the leader that holds it: nothing tells the node.
\<close>

inductive leader_step :: "lock_server \<Rightarrow> lock_server \<Rightarrow> bool" where
  acquire: "TryAcquire (PostgresLeader_ops n) w nodeID = (w', r) \<Longrightarrow> leader_step w w'"
| release: "Release (PostgresLeader_ops n) w = (w', x) \<Longrightarrow> leader_step w w'"
| crash: "leader_step w (ls_crash n w)"
| close: "s \<notin> set (ls_acquired w) \<Longrightarrow> leader_step w (ls_close s w)"

inductive leader_event :: "lock_server \<Rightarrow> lock_server \<Rightarrow> bool" where
  step: "leader_step c c' \<Longrightarrow> leader_event c c'"
| lose: "leader_event c (ls_close s c)"

definition leader_inv :: "lock_server \<Rightarrow> bool" where
  "leader_inv w \<longleftrightarrow>
     (\<forall>n. pl_held (ls_leaders w n) = (pl_conn (ls_leaders w n) \<noteq> None)) \<and>
     (\<forall>n s. pl_conn (ls_leaders w n) = Some s \<longrightarrow>
        s \<in> set (ls_acquired w) \<and> (\<exists>k. ls_locks w leaderSentinelKey = Some (s, k))) \<and>
     (\<forall>n m s. pl_conn (ls_leaders w n) = Some s \<and> pl_conn (ls_leaders w m) = Some s \<longrightarrow> n = m)"

lemma leader_inv_init: "leader_inv (ls_init answers)"
  by (simp add: leader_inv_def ls_init_def NewPostgresLeader_def)

lemma leader_inv_unique:
  "leader_inv w \<Longrightarrow> pl_held (ls_leaders w n) \<Longrightarrow> pl_held (ls_leaders w m) \<Longrightarrow> n = m"
proof -
  assume inv: "leader_inv w" and "pl_held (ls_leaders w n)" "pl_held (ls_leaders w m)"
  then obtain s s' where conn: "pl_conn (ls_leaders w n) = Some s" "pl_conn (ls_leaders w m) = Some s'"
    unfolding leader_inv_def by blast
  then obtain k k' where "ls_locks w leaderSentinelKey = Some (s, k)" "ls_locks w leaderSentinelKey = Some (s', k')"
    using inv unfolding leader_inv_def by blast
  then have "s' = s" by simp
  with conn inv show "n = m" unfolding leader_inv_def by blast
qed

text \<open>Who may change the owner of a lock.\<close>

lemma pg_try_advisory_lock_owned:
  "locks k = Some (s', c) \<Longrightarrow> s' \<noteq> s \<Longrightarrow> pg_try_advisory_lock locks s k = (locks, False)"
  by (simp add: pg_try_advisory_lock_def)

lemma pg_try_advisory_lock_takes:
  "pg_try_advisory_lock locks s k = (locks', True) \<Longrightarrow> \<exists>c. locks' k = Some (s, c)"
  by (auto simp: pg_try_advisory_lock_def split: option.splits if_splits prod.splits)

text \<open>
  An attempt leaves the node's leader as it is, or pins a session that now owns the sentinel lock; while
  another session owns that lock, nothing changes.
\<close>

lemma pl_TryAcquire_effect:
  assumes "pl_TryAcquire acq f locks l nodeID = (locks', l', r)"
  obtains (same) "l' = l" "\<And>s c. locks leaderSentinelKey = Some (s, c) \<Longrightarrow> acq \<noteq> Inr s \<Longrightarrow> locks' = locks"
  | (pinned) s where "acq = Inr s" "\<not> pl_held l" "pg_try_advisory_lock locks s leaderSentinelKey = (locks', True)"
      "l' = l\<lparr>pl_conn := Some s, pl_nodeID := nodeID, pl_held := True\<rparr>"
proof (cases acq)
  case (Inl e)
  then show ?thesis using assms by (intro same) (auto simp: pl_TryAcquire_def split: if_splits)
next
  case (Inr s)
  obtain ks b where kb: "pg_try_advisory_lock locks s leaderSentinelKey = (ks, b)" by fastforce
  show ?thesis
  proof (cases "nodeID \<noteq> [] \<and> \<not> pl_held l \<and> f = Answered \<and> b")
    case True
    with Inr kb assms show ?thesis by (intro pinned [of s]) (auto simp: pl_TryAcquire_def)
  next
    case False
    have "ks = locks" if "locks leaderSentinelKey = Some (s', c)" "acq \<noteq> Inr s'" for s' c
      using pg_try_advisory_lock_owned [where locks = locks and k = leaderSentinelKey, OF that(1), of s] that(2) Inr kb by auto
    with False Inr kb assms show ?thesis
      by (intro same) (auto simp: pl_TryAcquire_def split: if_splits fate.splits)
  qed
qed

lemma pool_Acquire_free: "pool_Acquire w = Inr s \<Longrightarrow> s \<notin> set (ls_acquired w)"
  by (auto simp: pool_Acquire_def split: sum.splits if_splits)

lemma acquire_keeps_inv:
  assumes "TryAcquire (PostgresLeader_ops n) w nodeID = (w', r)" "leader_inv w"
  shows "leader_inv w'"
proof -
  obtain locks l where tr: "pl_TryAcquire (pool_Acquire w) (snd (ls_answers w (ls_calls w))) (ls_locks w) (ls_leaders w n) nodeID = (locks, l, r)"
    and w': "w' = ls_put w n locks l"
    using assms(1) by (auto simp: PostgresLeader_ops_def split: prod.splits)
  have owned: "pool_Acquire w \<noteq> Inr s" if "pl_conn (ls_leaders w m) = Some s" for m s
    using assms(2) that pool_Acquire_free [of w s] unfolding leader_inv_def by blast
  from tr show ?thesis
  proof (cases rule: pl_TryAcquire_effect)
    case same
    have "ls_locks w leaderSentinelKey = locks leaderSentinelKey" if "pl_conn (ls_leaders w m) = Some s" for m s
      using same(2) owned [OF that] assms(2) that unfolding leader_inv_def by metis
    moreover have "s \<in> set (ls_acquired w')" if "pl_conn (ls_leaders w m) = Some s" for m s
      using that same(1) assms(2) unfolding w' ls_put_def leader_inv_def by (auto split: option.splits)
    ultimately show ?thesis
      using assms(2) unfolding leader_inv_def w' by (simp add: ls_put_def same(1))
  next
    case (pinned s)
    have none: "pl_conn (ls_leaders w m) = None" for m
    proof (rule ccontr)
      assume "pl_conn (ls_leaders w m) \<noteq> None"
      then obtain s' where s': "pl_conn (ls_leaders w m) = Some s'" by blast
      then obtain c where c: "ls_locks w leaderSentinelKey = Some (s', c)"
        using assms(2) unfolding leader_inv_def by blast
      have "s' \<noteq> s" using owned [OF s'] pinned(1) by auto
      from pg_try_advisory_lock_owned [where locks = "ls_locks w" and k = leaderSentinelKey, OF c this] pinned(3) show False by simp
    qed
    moreover have "\<not> pl_held (ls_leaders w m)" for m using assms(2) none unfolding leader_inv_def by blast
    moreover obtain c where "locks leaderSentinelKey = Some (s, c)" using pg_try_advisory_lock_takes [OF pinned(3)] by blast
    ultimately show ?thesis unfolding w' by (simp add: leader_inv_def ls_put_def pinned(4))
  qed
qed

text \<open>Taking the role away from a node: what is left holds for the others.\<close>

lemma vacated_inv:
  assumes "leader_inv w" "\<not> pl_held l" "pl_conn l = None" "pl_held (ls_leaders w n)"
    and "ls_leaders w' = (ls_leaders w)(n := l)"
  shows "leader_inv w'"
proof -
  have "\<not> pl_held (ls_leaders w m)" if "m \<noteq> n" for m
    using leader_inv_unique [OF assms(1,4)] that by blast
  then have "pl_conn (ls_leaders w' m) = None \<and> \<not> pl_held (ls_leaders w' m)" for m
    using assms unfolding leader_inv_def by auto
  then show ?thesis by (simp add: leader_inv_def)
qed

lemma release_keeps_inv:
  assumes "Release (PostgresLeader_ops n) w = (w', x)" "leader_inv w"
  shows "leader_inv w'"
proof (cases "pl_held (ls_leaders w n)")
  case False
  then show ?thesis using assms by (simp add: PostgresLeader_ops_def)
next
  case True
  let ?l = "(ls_leaders w n)\<lparr>pl_conn := None, pl_nodeID := [], pl_held := False\<rparr>"
  have "ls_leaders w' = (ls_leaders w)(n := ?l)"
    using assms(1) True
    by (auto simp: PostgresLeader_ops_def pl_Release_def ls_put_def Let_def split: option.splits fate.splits)
  with vacated_inv [OF assms(2) _ _ True, of ?l w'] show ?thesis by simp
qed

lemma crash_keeps_inv:
  assumes "leader_inv w"
  shows "leader_inv (ls_crash n w)"
proof (cases "pl_held (ls_leaders w n)")
  case True
  have "ls_leaders (ls_crash n w) = (ls_leaders w)(n := NewPostgresLeader)"
    by (auto simp: ls_crash_def ls_close_def Let_def split: option.splits)
  with vacated_inv [OF assms _ _ True, of NewPostgresLeader "ls_crash n w"] show ?thesis by (simp add: NewPostgresLeader_def)
next
  case False
  then have "pl_conn (ls_leaders w n) = None" using assms unfolding leader_inv_def by blast
  then show ?thesis using assms unfolding leader_inv_def by (auto simp: ls_crash_def NewPostgresLeader_def)
qed

lemma close_keeps_inv:
  assumes "leader_inv w" "s \<notin> set (ls_acquired w)"
  shows "leader_inv (ls_close s w)"
proof -
  have "drop_session (ls_locks w) s leaderSentinelKey = ls_locks w leaderSentinelKey"
    if "pl_conn (ls_leaders w n) = Some s'" for n s'
  proof -
    have "s' \<noteq> s" "\<exists>k. ls_locks w leaderSentinelKey = Some (s', k)"
      using that assms unfolding leader_inv_def by blast+
    then show ?thesis by (auto simp: drop_session_def)
  qed
  then show ?thesis using assms(1) unfolding leader_inv_def by (simp add: ls_close_def)
qed

lemma leader_step_inv: "leader_step w w' \<Longrightarrow> leader_inv w \<Longrightarrow> leader_inv w'"
  by (induction rule: leader_step.induct) (auto intro: acquire_keeps_inv release_keeps_inv crash_keeps_inv close_keeps_inv)

text \<open>The reachable states, without and with lost sessions.\<close>

inductive leader_reachable :: "lock_server \<Rightarrow> bool" where
  start: "leader_reachable (ls_init answers)"
| more: "leader_reachable c \<Longrightarrow> leader_step c c' \<Longrightarrow> leader_reachable c'"

inductive leader_reachable_lossy :: "lock_server \<Rightarrow> bool" where
  lossy_start: "leader_reachable_lossy (ls_init answers)"
| lossy_more: "leader_reachable_lossy c \<Longrightarrow> leader_event c c' \<Longrightarrow> leader_reachable_lossy c'"

lemma leader_reachable_inv: "leader_reachable c \<Longrightarrow> leader_inv c"
  by (induction rule: leader_reachable.induct) (auto intro: leader_inv_init leader_step_inv)

text \<open>An attempt that finds the lock free and is answered succeeds.\<close>

lemma acquire_free:
  assumes "ls_locks w leaderSentinelKey = None" "pool_Acquire w = Inr s" "snd (ls_answers w (ls_calls w)) = Answered" "nodeID \<noteq> []"
  shows "\<exists>w'. TryAcquire (PostgresLeader_ops m) w nodeID = (w', Inr True)"
  using assms by (auto simp: PostgresLeader_ops_def pl_TryAcquire_def pg_try_advisory_lock_def)

section \<open>Properties\<close>

text \<open>
  Property C21. As long as no session ends behind a leader's back, at most one
  node of the cluster reports that it is the leader, in every state reached by any interleaving of
  acquisitions (granted, refused, failing before or after the server granted them), releases, process
  crashes and closed idle connections.
\<close>

theorem leader_mutual_exclusion:
  assumes "leader_reachable w" "IsLeader (PostgresLeader_ops n) w" "IsLeader (PostgresLeader_ops m) w"
  shows "n = m"
  using leader_inv_unique [OF leader_reachable_inv [OF assms(1)]] assms(2,3)
  by (simp add: PostgresLeader_ops_def pl_IsLeader_def)

text \<open>A server whose answers name the sessions 0, 1, 2, ... and lose nothing, and node 4 its first leader.\<close>

definition demo_server :: lock_server where
  "demo_server = ls_init (\<lambda>k. (Inr k, Answered))"

definition demo_led :: lock_server where
  "demo_led = fst (TryAcquire (PostgresLeader_ops 4) demo_server ''a'')"

lemma demo_led_fields:
  "ls_locks demo_led = [leaderSentinelKey \<mapsto> (0, 1)]"
  "ls_leaders demo_led = (\<lambda>_. NewPostgresLeader)(4 := \<lparr>pl_conn = Some 0, pl_held = True, pl_nodeID = ''a''\<rparr>)"
  "ls_acquired demo_led = [0]" "ls_answers demo_led = (\<lambda>k. (Inr k, Answered))" "ls_calls demo_led = 1"
  by (simp_all add: demo_led_def demo_server_def ls_init_def PostgresLeader_ops_def pool_Acquire_def pl_TryAcquire_def
      pg_try_advisory_lock_def ls_put_def NewPostgresLeader_def)

lemma demo_led_reachable: "leader_reachable demo_led"
  unfolding demo_led_def demo_server_def
  by (rule leader_reachable.more [OF leader_reachable.start leader_step.acquire]) (rule surjective_pairing)

theorem leader_mutual_exclusion_witness:
  "leader_reachable demo_led \<and> (\<forall>m. IsLeader (PostgresLeader_ops m) demo_led = (m = 4))"
proof -
  have l: "IsLeader (PostgresLeader_ops 4) demo_led"
    by (simp add: PostgresLeader_ops_def pl_IsLeader_def demo_led_fields)
  show ?thesis using leader_mutual_exclusion [OF demo_led_reachable l] demo_led_reachable l by blast
qed

text \<open>
  Property C37. When the process of the leader ends, the role is free: the next attempt of any
  node that gets a connection and an answer succeeds, and that node is then the only leader.
\<close>

theorem leader_takeover:
  assumes "leader_reachable w" "IsLeader (PostgresLeader_ops n) w" "nodeID \<noteq> []"
    and "pool_Acquire (ls_crash n w) = Inr s" "snd (ls_answers w (ls_calls w)) = Answered"
  shows "\<exists>w'. TryAcquire (PostgresLeader_ops m) (ls_crash n w) nodeID = (w', Inr True) \<and>
    (\<forall>k. IsLeader (PostgresLeader_ops k) w' = (k = m))"
proof -
  have "pl_held (ls_leaders w n)" using assms(2) by (simp add: PostgresLeader_ops_def pl_IsLeader_def)
  then obtain c k where c: "pl_conn (ls_leaders w n) = Some c" "ls_locks w leaderSentinelKey = Some (c, k)"
    using leader_reachable_inv [OF assms(1)] unfolding leader_inv_def by blast
  have free: "ls_locks (ls_crash n w) leaderSentinelKey = None" "snd (ls_answers (ls_crash n w) (ls_calls (ls_crash n w))) = Answered"
    using c assms(5) by (simp_all add: ls_crash_def ls_close_def drop_session_def)
  obtain w' where w': "TryAcquire (PostgresLeader_ops m) (ls_crash n w) nodeID = (w', Inr True)"
    using acquire_free [OF free(1) assms(4) free(2) assms(3)] by blast
  have "leader_reachable w'"
    by (rule leader_reachable.more [OF leader_reachable.more [OF assms(1) leader_step.crash] leader_step.acquire [OF w']])
  then have "IsLeader (PostgresLeader_ops k) w' = (k = m)" for k
    using leader_inv_unique [OF leader_reachable_inv, of w' k m] pl.acquire_leads [OF w']
    by (auto simp: PostgresLeader_ops_def pl_IsLeader_def)
  with w' show ?thesis by blast
qed

theorem leader_takeover_witness:
  "\<exists>w'. TryAcquire (PostgresLeader_ops 2) (ls_crash 4 demo_led) ''b'' = (w', Inr True) \<and>
    (\<forall>k. IsLeader (PostgresLeader_ops k) w' = (k = 2))"
  by (rule leader_takeover [OF demo_led_reachable, of 4 _ 1])
    (simp_all add: PostgresLeader_ops_def pl_IsLeader_def demo_led_fields ls_crash_def ls_close_def pool_Acquire_def)

text \<open>
  Property C38. The cached flag is never checked against the server, so once the
  leader's session has ended two nodes report leadership at the same time: there is a reachable
  state with two leaders, and renewing does not correct it.
\<close>

theorem leader_split_brain:
  "\<exists>w. leader_reachable_lossy w \<and> IsLeader (PostgresLeader_ops 4) w \<and> IsLeader (PostgresLeader_ops 2) w \<and>
     snd (TryAcquire (PostgresLeader_ops 4) w ''a'') = Inr True \<and>
     IsLeader (PostgresLeader_ops 2) (fst (TryAcquire (PostgresLeader_ops 4) w ''a''))"
proof -
  define w1 where "w1 = ls_close 0 demo_led"
  obtain w2 where w2: "TryAcquire (PostgresLeader_ops 2) w1 ''b'' = (w2, Inr True)"
      "ls_leaders w2 4 = ls_leaders demo_led 4" "pl_held (ls_leaders w2 2)"
    by (simp add: w1_def ls_close_def PostgresLeader_ops_def pool_Acquire_def pl_TryAcquire_def
        pg_try_advisory_lock_def drop_session_def ls_put_def demo_led_fields NewPostgresLeader_def)
  have "leader_step demo_server demo_led"
    unfolding demo_led_def by (rule leader_step.acquire) (rule surjective_pairing)
  then have "leader_reachable_lossy w1"
    unfolding w1_def demo_server_def by (intro lossy_more [OF lossy_more [OF lossy_start leader_event.step] leader_event.lose])
  then have "leader_reachable_lossy w2"
    by (rule lossy_more [OF _ leader_event.step [OF leader_step.acquire [OF w2(1)]]])
  with w2 show ?thesis
    by (intro exI [of _ w2]) (simp add: PostgresLeader_ops_def pl_IsLeader_def pl_TryAcquire_def ls_put_def demo_led_fields)
qed

text \<open>
  \<open>MemoryLeader.TryAcquire\<close> refuses an empty node id, and
  otherwise grants the role exactly when it is free or already held by the same node; a granted
  role is reported by \<open>IsLeader\<close>, and while it is held every other node is refused and changes
  nothing.
\<close>

theorem memory_leader_grants:
  "ml_TryAcquire l [] = (l, Inl (NewError ''sundial: leader nodeID is required'')) \<and>
   (n \<noteq> [] \<longrightarrow> snd (ml_TryAcquire l n) = Inr (ml_holder l = [] \<or> ml_holder l = n)) \<and>
   (ml_TryAcquire l n = (l1, Inr True) \<longrightarrow>
      ml_IsLeader l1 \<and> ml_holder l1 = n \<and>
      (\<forall>m. m \<noteq> n \<longrightarrow> m \<noteq> [] \<longrightarrow> ml_TryAcquire l1 m = (l1, Inr False)))"
  by (auto simp: ml_defs split: if_splits)

theorem memory_leader_grants_witness:
  "ml_TryAcquire NewMemoryLeader ''a'' = (\<lparr>ml_holder = ''a'', ml_myID = ''a''\<rparr>, Inr True) \<and>
   ml_TryAcquire \<lparr>ml_holder = ''a'', ml_myID = ''a''\<rparr> ''b'' = (\<lparr>ml_holder = ''a'', ml_myID = ''a''\<rparr>, Inr False)"
proof -
  have a: "ml_TryAcquire NewMemoryLeader ''a'' = (\<lparr>ml_holder = ''a'', ml_myID = ''a''\<rparr>, Inr True)"
    by (simp add: ml_TryAcquire_def NewMemoryLeader_def)
  with memory_leader_grants [of NewMemoryLeader "''a''" "\<lparr>ml_holder = ''a'', ml_myID = ''a''\<rparr>"]
  show ?thesis by simp
qed

text \<open>
  Property C39. A \<open>MemoryLeader\<close> shared by two schedulers (how the tests
  simulate a cluster) does not tell them apart: after node \<open>n\<close> has won and node \<open>m\<close> has been
  refused, \<open>IsLeader\<close>, which takes no node, is true for both, and a release by the refused node
  takes the role away from the holder.
\<close>

theorem memory_leader_shared:
  assumes "n \<noteq> []" "m \<noteq> []" "n \<noteq> m"
  shows "\<exists>l1 l2. ml_TryAcquire NewMemoryLeader n = (l1, Inr True) \<and> ml_TryAcquire l1 m = (l2, Inr False) \<and>
    ml_IsLeader l2 \<and> ml_TryAcquire (fst (ml_Release l2)) m = (\<lparr>ml_holder = m, ml_myID = m\<rparr>, Inr True)"
  using assms by (simp add: ml_defs NewMemoryLeader_def)

theorem memory_leader_shared_witness:
  "\<exists>l1 l2. ml_TryAcquire NewMemoryLeader ''a'' = (l1, Inr True) \<and> ml_TryAcquire l1 ''b'' = (l2, Inr False) \<and>
    ml_IsLeader l2 \<and> ml_TryAcquire (fst (ml_Release l2)) ''b'' = (\<lparr>ml_holder = ''b'', ml_myID = ''b''\<rparr>, Inr True)"
  by (rule memory_leader_shared) simp_all

end
