(* ===== verification/Sundial_Telemetry.thy ===== *)
theory Sundial_Telemetry
  imports Sundial_Storage
begin

text \<open>
  \<open>telemetry.go\<close>: the instruments of the dispatcher and what it emits on them. The OpenTelemetry
  packages are not part of the program: a meter is the answer it gives to the construction of an
  instrument (\<open>None\<close>: success), a no-op instrument drops what it is given, and a real one
  appends to the list of emitted events.
\<close>

section \<open>Instruments\<close>

datatype instrument = Real_instrument string | Noop_instrument string

type_synonym attrs = "(string \<times> string) list"

datatype tel_event =
    Counter_Add string int attrs
  | Histogram_Record string f64 attrs
  | Span_Start string attrs
  | Span_RecordError string
  | Span_SetStatus bool string
  | Span_End

record telemetry =
  jobsScheduled :: instrument
  jobsRunning :: instrument
  jobDuration :: instrument
  jobLag :: instrument
  jobFailures :: instrument
  jobClaimedTotal :: instrument

type_synonym meter = "string \<Rightarrow> go_error option"

definition noopMeter :: meter where
  "noopMeter name = None"

text \<open>
  One construction: the instrument of the meter, or of the no-op meter when the meter's answer is
  an error. A meter is the pair of its answers and whether its instruments record.
\<close>

definition new_instrument :: "meter \<times> bool \<Rightarrow> string \<Rightarrow> instrument" where
  "new_instrument m name =
     (case fst m name of
        None \<Rightarrow> (if snd m then Real_instrument name else Noop_instrument name)
      | Some err \<Rightarrow> Noop_instrument name)"

definition newTelemetry :: "meter option \<Rightarrow> telemetry" where
  "newTelemetry provided =
     (let m = (case provided of None \<Rightarrow> (noopMeter, False) | Some f \<Rightarrow> (f, True))
      in \<lparr>jobsScheduled = new_instrument m ''sundial.jobs.scheduled'',
          jobsRunning = new_instrument m ''sundial.jobs.running'',
          jobDuration = new_instrument m ''sundial.jobs.duration_seconds'',
          jobLag = new_instrument m ''sundial.jobs.lag_seconds'',
          jobFailures = new_instrument m ''sundial.jobs.failures_total'',
          jobClaimedTotal = new_instrument m ''sundial.jobs.claimed_total''\<rparr>)"

fun counter_Add :: "instrument \<Rightarrow> int \<Rightarrow> attrs \<Rightarrow> tel_event list" where
  "counter_Add (Real_instrument name) n as = [Counter_Add name n as]"
| "counter_Add (Noop_instrument name) n as = []"

fun histogram_Record :: "instrument \<Rightarrow> f64 \<Rightarrow> attrs \<Rightarrow> tel_event list" where
  "histogram_Record (Real_instrument name) x as = [Histogram_Record name x as]"
| "histogram_Record (Noop_instrument name) x as = []"

section \<open>What the dispatcher emits\<close>

text \<open>\<open>Duration.Seconds\<close>: quotient and remainder of the truncating division, each converted.\<close>

definition duration_Seconds :: "duration \<Rightarrow> f64" where
  "duration_Seconds d =
     (let sec = sgn d * (\<bar>d\<bar> div Second); nsec = d - sec * Second
      in f64_add (f64_of_int sec) (f64_div (f64_of_int nsec) (f64_of_int Second)))"

text \<open>\<open>RFC3339Nano\<close>: the fraction with trailing zeros removed, nothing when it is zero.\<close>

definition time_FormatNano :: "gotime \<Rightarrow> string" where
  "time_FormatNano t =
     (let ds = appendInt (t mod 1000000000) 9;
          ds = rev (dropWhile (\<lambda>c. c = CHR ''0'') (rev ds))
      in butlast (time_Format t) @ (if ds = [] then [] else CHR ''.'' # ds) @ ''Z'')"

definition startRunSpan ::
  "string \<Rightarrow> string \<Rightarrow> string \<Rightarrow> string \<Rightarrow> gotime \<Rightarrow> tel_event list" where
  "startRunSpan jobName jobID nodeID scheduleKind fireTime =
     [Span_Start ''sundial.job.run''
        [(''sundial.job.name'', jobName), (''sundial.job.id'', jobID),
         (''sundial.job.schedule_kind'', scheduleKind), (''sundial.node.id'', nodeID),
         (''sundial.fire_time'', time_FormatNano fireTime)]]"

definition recordLag :: "telemetry \<Rightarrow> string \<Rightarrow> gotime \<Rightarrow> gotime \<Rightarrow> tel_event list" where
  "recordLag t jobName fire started =
     histogram_Record (jobLag t) (duration_Seconds (time_Sub started fire)) [(''sundial.job.name'', jobName)]"

definition recordDuration :: "telemetry \<Rightarrow> string \<Rightarrow> duration \<Rightarrow> RunOutcome \<Rightarrow> tel_event list" where
  "recordDuration t jobName dur outcome =
     (let as = [(''sundial.job.name'', jobName), (''sundial.outcome'', outcome_string outcome)]
      in histogram_Record (jobDuration t) (duration_Seconds dur) as @
         (if outcome \<noteq> RunSucceeded
          then counter_Add (jobFailures t) 1 as @ [Span_SetStatus False ''job did not succeed'']
          else [Span_SetStatus True []]))"

definition claimedInc :: "telemetry \<Rightarrow> string \<Rightarrow> tel_event list" where
  "claimedInc t jobName = counter_Add (jobClaimedTotal t) 1 [(''sundial.job.name'', jobName)]"

lemmas telemetry_defs = startRunSpan_def recordLag_def recordDuration_def claimedInc_def

section \<open>The value of a counter\<close>

fun counter_delta :: "string \<Rightarrow> tel_event \<Rightarrow> int" where
  "counter_delta name (Counter_Add n k as) = (if n = name then k else 0)"
| "counter_delta name e = 0"

definition counter_value :: "string \<Rightarrow> tel_event list \<Rightarrow> int" where
  "counter_value name es = sum_list (map (counter_delta name) es)"

lemma counter_value_simps [simp]:
  "counter_value name [] = 0"
  "counter_value name (e # es) = counter_delta name e + counter_value name es"
  "counter_value name (es @ fs) = counter_value name es + counter_value name fs"
  by (simp_all add: counter_value_def)

lemma counter_value_histogram [simp]: "counter_value name (histogram_Record i x as) = 0"
  by (cases i) simp_all

lemma counter_value_add:
  "counter_value name (counter_Add i k as) = (if i = Real_instrument name then k else 0)"
  by (cases i) simp_all

lemma newTelemetry_instruments [simp]:
  "jobsRunning (newTelemetry m) =
     (if \<exists>f. m = Some f \<and> f ''sundial.jobs.running'' = None
      then Real_instrument ''sundial.jobs.running'' else Noop_instrument ''sundial.jobs.running'')"
  "jobClaimedTotal (newTelemetry m) =
     (if \<exists>f. m = Some f \<and> f ''sundial.jobs.claimed_total'' = None
      then Real_instrument ''sundial.jobs.claimed_total'' else Noop_instrument ''sundial.jobs.claimed_total'')"
  "jobFailures (newTelemetry m) =
     (if \<exists>f. m = Some f \<and> f ''sundial.jobs.failures_total'' = None
      then Real_instrument ''sundial.jobs.failures_total'' else Noop_instrument ''sundial.jobs.failures_total'')"
  by (auto simp: newTelemetry_def new_instrument_def noopMeter_def Let_def split: option.splits)

end
