(* ===== verification/Sundial_Dispatcher.thy ===== *)
theory Sundial_Dispatcher
  imports Sundial_Scheduler Sundial_Reload Sundial_Retry Sundial_Leader Sundial_Telemetry
begin

text \<open>
  \<open>dispatcher.go\<close>: the loop that fetches due jobs, claims them, runs their handlers and records
  the outcome. The fields of the Go struct that do not change during a run are the record
  \<open>dispatcher\<close>; what changes (the storage, the leader, the attempt counters, the wait group, the
  goroutines started, the handler calls, the telemetry and the log) is the record \<open>dstate\<close>. The
  clock readings and the random number of one execution are its \<open>exec_env\<close>.

  The laws that rely on the storage are proved in \<open>Dispatcher_Correctness\<close>, in the context of the
  locales of \<open>Sundial_Storage\<close>, for every backend that keeps the contract.
\<close>

section \<open>State\<close>

datatype log_level = Log_Info | Log_Warn | Log_Error

type_synonym log_entry = "log_level \<times> string \<times> string"

record ('s, 'l) dispatcher =
  d_scheduler :: Scheduler
  d_storage :: "'s Storage"
  d_leader :: "'l Leader option"
  d_telemetry :: telemetry
  d_cron :: cron_parser
  d_oor :: "f64 \<Rightarrow> int"

record ('s, 'l) dstate =
  st_storage :: 's
  st_leader :: 'l
  st_attempts :: attempts
  st_inFlight :: int
  st_spawned :: "(Job \<times> DueJob \<times> gotime) list"
  st_calls :: "(DueJob \<times> Context) list"
  st_tel :: "tel_event list"
  st_log :: "log_entry list"

record exec_env =
  ev_ctxNow :: gotime
  ev_startedAt :: gotime
  ev_finishedAt :: gotime
  ev_retryNow :: gotime
  ev_recordNow :: gotime
  ev_rand :: f64
  ev_call :: nat

abbreviation node_opts :: "('s, 'l) dispatcher \<Rightarrow> Options" where
  "node_opts D \<equiv> sc_opts (d_scheduler D)"

definition emit :: "tel_event list \<Rightarrow> ('s, 'l) dstate \<Rightarrow> ('s, 'l) dstate" where
  "emit es st = st\<lparr>st_tel := st_tel st @ es\<rparr>"

definition logging :: "log_level \<Rightarrow> string \<Rightarrow> string \<Rightarrow> ('s, 'l) dstate \<Rightarrow> ('s, 'l) dstate" where
  "logging level msg job st = st\<lparr>st_log := st_log st @ [(level, msg, job)]\<rparr>"

section \<open>Leadership\<close>

definition maybeRenewLeader :: "('s, 'l) dispatcher \<Rightarrow> ('s, 'l) dstate \<Rightarrow> ('s, 'l) dstate" where
  "maybeRenewLeader D st =
     (case d_leader D of
        None \<Rightarrow> st
      | Some L \<Rightarrow>
          let was = IsLeader L (st_leader st)
          in case TryAcquire L (st_leader st) (NodeID (node_opts D)) of (l, r) \<Rightarrow>
               let st = st\<lparr>st_leader := l\<rparr>
               in (case r of
                     Inl err \<Rightarrow> logging Log_Warn ''leader try-acquire'' [] st
                   | Inr ok \<Rightarrow> if ok \<and> \<not> was then logging Log_Info ''became leader'' [] st else st))"

text \<open>The condition \<open>d.leader != nil && !d.leader.IsLeader()\<close>.\<close>

definition follower :: "('s, 'l) dispatcher \<Rightarrow> ('s, 'l) dstate \<Rightarrow> bool" where
  "follower D st \<longleftrightarrow> (case d_leader D of None \<Rightarrow> False | Some L \<Rightarrow> \<not> IsLeader L (st_leader st))"

section \<open>One execution\<close>

text \<open>\<open>context.WithTimeout\<close>: the earlier of the parent's deadline and the new one.\<close>

definition with_timeout :: "Context \<Rightarrow> gotime \<Rightarrow> duration \<Rightarrow> Context" where
  "with_timeout parent now d =
     parent\<lparr>ctx_deadline := Some (case ctx_deadline parent of
        None \<Rightarrow> time_Add now d
      | Some p \<Rightarrow> min p (time_Add now d))\<rparr>"

text \<open>The context a handler receives.\<close>

definition exec_ctx :: "exec_env \<Rightarrow> Context \<Rightarrow> Job \<Rightarrow> Context" where
  "exec_ctx env parent job =
     (let ctx = parent\<lparr>ctx_call := ev_call env\<rparr>
      in if Timeout (job_Options job) > 0
         then with_timeout ctx (ev_ctxNow env) (Timeout (job_Options job)) else ctx)"

text \<open>
  \<open>execute\<close> in three segments, split where it uses shared state: up to the attempt counter, after
  the handler up to the retry or the counter's reset, and the run record.
\<close>

definition execute_begin ::
  "('s, 'l) dispatcher \<Rightarrow> exec_env \<Rightarrow> Context \<Rightarrow> Job \<Rightarrow> DueJob \<Rightarrow> ('s, 'l) dstate \<Rightarrow>
     ('s, 'l) dstate \<times> Context \<times> int" where
  "execute_begin D env parent job dj st =
     (let st = emit (counter_Add (jobsRunning (d_telemetry D)) 1 []) st;
          st = emit (startRunSpan (dj_Name dj) (dj_ID dj) (NodeID (node_opts D)) (dj_ScheduleKind dj)
                 (dj_NextFireTime dj)) st;
          ctx = exec_ctx env parent job;
          st = emit (recordLag (d_telemetry D) (dj_Name dj) (dj_NextFireTime dj) (ev_startedAt env)) st;
          (A, attempt) = bumpAttempt (st_attempts st) (dj_ID dj)
      in (st\<lparr>st_attempts := A\<rparr>, ctx, attempt))"

definition execute_settle ::
  "('s, 'l) dispatcher \<Rightarrow> exec_env \<Rightarrow> Job \<Rightarrow> DueJob \<Rightarrow> int \<Rightarrow> string option \<Rightarrow> ('s, 'l) dstate \<Rightarrow>
     ('s, 'l) dstate \<times> RunOutcome" where
  "execute_settle D env job dj attempt handlerErr st =
     (let outcome = (if handlerErr \<noteq> None then RunFailed else RunSucceeded);
          st = (case handlerErr of None \<Rightarrow> st | Some e \<Rightarrow> emit [Span_RecordError e] st);
          st = emit (recordDuration (d_telemetry D) (dj_Name dj)
                 (time_Sub (ev_finishedAt env) (ev_startedAt env)) outcome) st
      in if handlerErr \<noteq> None \<and> attempt < MaxAttempts (Retry (job_Options job)) then
           let backoff = computeBackoff (d_oor D) (Retry (job_Options job)) attempt (ev_rand env);
               retryAt = time_Add (ev_retryNow env) backoff
           in case ScheduleRetry (d_storage D) (st_storage st) (dj_ID dj) retryAt of (s, err) \<Rightarrow>
                let st = st\<lparr>st_storage := s\<rparr>
                in (if err \<noteq> None then logging Log_Error ''schedule retry'' (dj_Name dj) st
                    else logging Log_Info ''job failed, retry scheduled'' (dj_Name dj) st, outcome)
         else if handlerErr \<noteq> None then
           (logging Log_Warn ''job failed and retries exhausted'' (dj_Name dj)
              (st\<lparr>st_attempts := forgetAttempt (st_attempts st) (dj_ID dj)\<rparr>), RunDeadLetter)
         else (st\<lparr>st_attempts := forgetAttempt (st_attempts st) (dj_ID dj)\<rparr>, outcome))"

definition execute_record ::
  "('s, 'l) dispatcher \<Rightarrow> exec_env \<Rightarrow> DueJob \<Rightarrow> int \<Rightarrow> string option \<Rightarrow> RunOutcome \<Rightarrow> ('s, 'l) dstate \<Rightarrow>
     ('s, 'l) dstate" where
  "execute_record D env dj attempt handlerErr outcome st =
     (let rec = \<lparr>rr_JobID = dj_ID dj, rr_FireTime = dj_NextFireTime dj, rr_StartedAt = ev_startedAt env,
                 rr_FinishedAt = ev_finishedAt env, rr_NodeID = NodeID (node_opts D), rr_Attempt = attempt,
                 rr_Outcome = outcome, rr_Error = (case handlerErr of None \<Rightarrow> [] | Some e \<Rightarrow> e)\<rparr>
      in case RecordRun (d_storage D) (st_storage st) (ev_recordNow env) rec of (s, err) \<Rightarrow>
           let st = st\<lparr>st_storage := s\<rparr>;
               st = (if err \<noteq> None then logging Log_Error ''record run'' (dj_Name dj) st else st);
               st = (if handlerErr \<noteq> None then logging Log_Warn ''job failed'' (dj_Name dj) st
                     else logging Log_Info ''job done'' (dj_Name dj) st);
               st = emit [Span_End] st;
               st = emit (counter_Add (jobsRunning (d_telemetry D)) (- 1) []) st
           in st\<lparr>st_inFlight := st_inFlight st - 1\<rparr>)"

definition execute ::
  "('s, 'l) dispatcher \<Rightarrow> exec_env \<Rightarrow> Context \<Rightarrow> Job \<Rightarrow> DueJob \<Rightarrow> gotime \<Rightarrow> ('s, 'l) dstate \<Rightarrow>
     ('s, 'l) dstate" where
  "execute D env parent job dj claimedFor st =
     (case execute_begin D env parent job dj st of (st, ctx, attempt) \<Rightarrow>
        let st = st\<lparr>st_calls := st_calls st @ [(dj, ctx)]\<rparr>;
            handlerErr = safeRun ctx (job_Handler job)
        in case execute_settle D env job dj attempt handlerErr st of (st, outcome) \<Rightarrow>
             execute_record D env dj attempt handlerErr outcome st)"

definition executeAtFire ::
  "('s, 'l) dispatcher \<Rightarrow> exec_env \<Rightarrow> Context \<Rightarrow> Job \<Rightarrow> DueJob \<Rightarrow> ('s, 'l) dstate \<Rightarrow> ('s, 'l) dstate" where
  "executeAtFire D env parent job dj st =
     execute D env parent job dj (dj_NextFireTime dj) (st\<lparr>st_inFlight := st_inFlight st + 1\<rparr>)"

section \<open>Replaying a missed window\<close>

definition maxCatchupInstants :: int where
  "maxCatchupInstants = 256"

fun replay ::
  "('s, 'l) dispatcher \<Rightarrow> (nat \<Rightarrow> exec_env) \<Rightarrow> Context \<Rightarrow> Job \<Rightarrow> DueJob \<Rightarrow> nat \<Rightarrow> gotime list \<Rightarrow>
     ('s, 'l) dstate \<Rightarrow> ('s, 'l) dstate" where
  "replay D envs parent job dj k [] st = st"
| "replay D envs parent job dj k (fireTime # rest) st =
     replay D envs parent job dj (Suc k) rest
       (executeAtFire D (envs k) parent job (dj\<lparr>dj_NextFireTime := fireTime\<rparr>) st)"

definition runAllMissed ::
  "('s, 'l) dispatcher \<Rightarrow> (nat \<Rightarrow> exec_env) \<Rightarrow> Context \<Rightarrow> Job \<Rightarrow> DueJob \<Rightarrow> gotime \<Rightarrow>
     ('s, 'l) dstate \<Rightarrow> ('s, 'l) dstate" where
  "runAllMissed D envs parent job dj now st =
     (case loadScheduleFromDue (d_cron D) dj of
        Inl err \<Rightarrow> logging Log_Error ''missed-fire iterator: load schedule'' (dj_Name dj) st
      | Inr sched \<Rightarrow>
          let instants = iterateSchedule (Some sched) (dj_NextFireTime dj) now maxCatchupInstants
          in if instants = [] then executeAtFire D (envs 0) parent job dj st
             else
               let st = logging Log_Info ''missed fire RunAll replay'' (dj_Name dj) st;
                   st = replay D envs parent job dj 0 instants st;
                   future = schedule_Next sched now
               in if \<not> IsZero future then
                    case ClaimJob (d_storage D) (st_storage st) (dj_ID dj) future of (s, r) \<Rightarrow>
                      let st = st\<lparr>st_storage := s\<rparr>
                      in (case r of
                            Inl err \<Rightarrow> logging Log_Error ''missed-fire RunAll: advance next_fire'' (dj_Name dj) st
                          | Inr claimed \<Rightarrow> st)
                  else st)"

section \<open>Dispatching one due job\<close>

definition missThreshold :: "('s, 'l) dispatcher \<Rightarrow> duration" where
  "missThreshold D = wrap64 (3 * TickInterval (node_opts D))"

definition maybeDispatch ::
  "('s, 'l) dispatcher \<Rightarrow> (nat \<Rightarrow> exec_env) \<Rightarrow> Context \<Rightarrow> DueJob \<Rightarrow> gotime \<Rightarrow> ('s, 'l) dstate \<Rightarrow>
     ('s, 'l) dstate" where
  "maybeDispatch D envs ctx dj now st =
     (case lookup (d_scheduler D) (dj_Name dj) of
        None \<Rightarrow> st
      | Some job \<Rightarrow>
          if LeaderOnly (job_Options job) \<and> follower D st then st
          else case computeNextFire (d_cron D) dj now of
            Inl err \<Rightarrow> logging Log_Error ''compute next fire'' (dj_Name dj) st
          | Inr nextFire \<Rightarrow>
              if IsZero nextFire then st
              else
                let lag = time_Sub now (dj_NextFireTime dj); missed = lag > missThreshold D
                in if missed \<and> MissedFire (job_Options job) = MissedFireSkip then
                     let st = (case computeNextFire (d_cron D) dj now of
                            Inl ferr \<Rightarrow> st
                          | Inr future \<Rightarrow>
                              if \<not> IsZero future then
                                case ClaimJob (d_storage D) (st_storage st) (dj_ID dj) future of (s, r) \<Rightarrow>
                                  let st = st\<lparr>st_storage := s\<rparr>
                                  in (case r of
                                        Inl claimErr \<Rightarrow> logging Log_Error ''skip missed fire'' (dj_Name dj) st
                                      | Inr claimed \<Rightarrow> st)
                              else st)
                     in logging Log_Info ''missed fire skipped'' (dj_Name dj) st
                   else if missed \<and> MissedFire (job_Options job) = MissedFireRunAll then
                     (if follower D st then st else runAllMissed D envs ctx job dj now st)
                   else
                     case ClaimJob (d_storage D) (st_storage st) (dj_ID dj) nextFire of (s, r) \<Rightarrow>
                       let st = st\<lparr>st_storage := s\<rparr>
                       in (case r of
                             Inl err \<Rightarrow> logging Log_Error ''claim job'' (dj_Name dj) st
                           | Inr claimed \<Rightarrow>
                               if \<not> claimed then st
                               else
                                 let st = emit (claimedInc (d_telemetry D) (dj_Name dj)) st;
                                     st = (if missed then logging Log_Info ''missed fire recovering (run-once)'' (dj_Name dj) st
                                           else st);
                                     st = st\<lparr>st_inFlight := st_inFlight st + 1\<rparr>
                                 in st\<lparr>st_spawned := st_spawned st @ [(job, dj, nextFire)]\<rparr>))"

section \<open>The tick and the loop\<close>

fun dispatch_all ::
  "('s, 'l) dispatcher \<Rightarrow> (nat \<Rightarrow> nat \<Rightarrow> exec_env) \<Rightarrow> Context \<Rightarrow> gotime \<Rightarrow> nat \<Rightarrow> DueJob list \<Rightarrow>
     ('s, 'l) dstate \<Rightarrow> ('s, 'l) dstate" where
  "dispatch_all D envs ctx now k [] st = st"
| "dispatch_all D envs ctx now k (dj # due) st =
     dispatch_all D envs ctx now (Suc k) due (maybeDispatch D (envs k) ctx dj now st)"

definition tick ::
  "('s, 'l) dispatcher \<Rightarrow> (nat \<Rightarrow> nat \<Rightarrow> exec_env) \<Rightarrow> Context \<Rightarrow> gotime \<Rightarrow> ('s, 'l) dstate \<Rightarrow>
     ('s, 'l) dstate" where
  "tick D envs ctx now st =
     (case FetchDue (d_storage D) (st_storage st) now 64 of (s, r) \<Rightarrow>
        let st = st\<lparr>st_storage := s\<rparr>
        in case r of
             Inl err \<Rightarrow> logging Log_Error ''fetch due jobs'' [] st
           | Inr due \<Rightarrow> dispatch_all D envs ctx now 0 due st)"

text \<open>
  \<open>drain\<close> from the moment the loop calls it: \<open>busy\<close> is how long the in-flight handlers still run (\<open>None\<close>: they never
  finish), \<open>done_first\<close> the choice of the \<open>select\<close> when both channels are ready. The result is how long \<open>drain\<close>
  takes; \<open>None\<close> when it blocks for ever.
\<close>

definition drain ::
  "duration \<Rightarrow> duration option \<Rightarrow> bool \<Rightarrow> (duration \<times> log_entry list) option" where
  "drain grace busy done_first =
     (if grace \<le> 0 then map_option (\<lambda>w. (w, [])) busy
      else
        let elapsed = Some (grace, [(Log_Warn, ''shutdown grace elapsed with in-flight handlers'', [])])
        in case busy of
             None \<Rightarrow> elapsed
           | Some w \<Rightarrow> if w < grace \<or> w = grace \<and> done_first then Some (w, []) else elapsed)"

text \<open>
  What the \<open>select\<close> of the loop can receive, and \<open>Elsewhere\<close>: what goroutines, other nodes and
  the passing of time did to the state meanwhile. A replay calls handlers on the goroutine of the loop:
  \<open>On_hung_tick\<close> is a tick in which such a call, if there is one, never returns. The loop is then in this tick for
  ever (\<open>Hung\<close>, with the state in which the tick began), and receives nothing more.
\<close>

datatype ('s, 'l) loop_event =
    On_tick gotime "nat \<Rightarrow> nat \<Rightarrow> exec_env"
  | On_hung_tick gotime "nat \<Rightarrow> nat \<Rightarrow> exec_env"
  | On_leader
  | On_done string "duration option" bool
  | Elsewhere "('s, 'l) dstate \<Rightarrow> ('s, 'l) dstate"

datatype ('s, 'l) run_result =
    Returned "('s, 'l) dstate" string duration
  | Blocked "('s, 'l) dstate"
  | Running "('s, 'l) dstate"
  | Panicked "('s, 'l) dstate"
  | Hung "('s, 'l) dstate"

fun run_loop ::
  "('s, 'l) dispatcher \<Rightarrow> Context \<Rightarrow> ('s, 'l) loop_event list \<Rightarrow> ('s, 'l) dstate \<Rightarrow> ('s, 'l) run_result" where
  "run_loop D ctx [] st = Running st"
| "run_loop D ctx (On_tick now envs # evs) st = run_loop D ctx evs (tick D envs ctx now st)"
| "run_loop D ctx (On_hung_tick now envs # evs) st =
     (let st' = tick D envs ctx now st
      in if st_calls st' = st_calls st then run_loop D ctx evs st' else Hung st)"
| "run_loop D ctx (On_leader # evs) st = run_loop D ctx evs (maybeRenewLeader D st)"
| "run_loop D ctx (Elsewhere f # evs) st = run_loop D ctx evs (f st)"
| "run_loop D ctx (On_done err busy done_first # evs) st =
     (case drain (ShutdownGrace (node_opts D)) busy done_first of
        None \<Rightarrow> Blocked st
      | Some (w, ls) \<Rightarrow> Returned (st\<lparr>st_log := st_log st @ ls\<rparr>) err w)"

text \<open>
  \<open>time.NewTicker\<close> panics on an interval that is not positive. \<open>hung\<close>: a handler that the first tick calls inline does
  not return.
\<close>

definition run ::
  "('s, 'l) dispatcher \<Rightarrow> Context \<Rightarrow> gotime \<Rightarrow> (nat \<Rightarrow> nat \<Rightarrow> exec_env) \<Rightarrow> bool \<Rightarrow> ('s, 'l) loop_event list \<Rightarrow>
     ('s, 'l) dstate \<Rightarrow> ('s, 'l) run_result" where
  "run D ctx now envs hung evs st =
     (if TickInterval (node_opts D) \<le> 0 then Panicked st
      else
        let st = maybeRenewLeader D st
        in if d_leader D \<noteq> None \<and> LeaderRenewInterval (node_opts D) \<le> 0 then Panicked st
           else run_loop D ctx ((if hung then On_hung_tick now envs else On_tick now envs) # evs) st)"

section \<open>Frame lemmas\<close>

lemma emit_frame [simp]:
  "st_storage (emit es st) = st_storage st" "st_leader (emit es st) = st_leader st"
  "st_attempts (emit es st) = st_attempts st" "st_inFlight (emit es st) = st_inFlight st"
  "st_spawned (emit es st) = st_spawned st" "st_calls (emit es st) = st_calls st"
  "st_log (emit es st) = st_log st" "st_tel (emit es st) = st_tel st @ es"
  by (simp_all add: emit_def)

lemma logging_frame [simp]:
  "st_storage (logging l m j st) = st_storage st" "st_leader (logging l m j st) = st_leader st"
  "st_attempts (logging l m j st) = st_attempts st" "st_inFlight (logging l m j st) = st_inFlight st"
  "st_spawned (logging l m j st) = st_spawned st" "st_calls (logging l m j st) = st_calls st"
  "st_tel (logging l m j st) = st_tel st" "st_log (logging l m j st) = st_log st @ [(l, m, j)]"
  by (simp_all add: logging_def)

section \<open>What one execution does\<close>

text \<open>
  The specification of an execution: its attempt number, the handler's error, whether it is
  retried, the outcome, and the record it writes.
\<close>

definition exec_attempt :: "('s, 'l) dstate \<Rightarrow> DueJob \<Rightarrow> int" where
  "exec_attempt st dj = wrap64 (attempt_count (st_attempts st) (dj_ID dj) + 1)"

definition exec_error :: "exec_env \<Rightarrow> Context \<Rightarrow> Job \<Rightarrow> string option" where
  "exec_error env parent job = safeRun (exec_ctx env parent job) (job_Handler job)"

definition exec_retried :: "Job \<Rightarrow> int \<Rightarrow> string option \<Rightarrow> bool" where
  "exec_retried job attempt err \<longleftrightarrow> err \<noteq> None \<and> attempt < MaxAttempts (Retry (job_Options job))"

definition exec_outcome :: "Job \<Rightarrow> int \<Rightarrow> string option \<Rightarrow> RunOutcome" where
  "exec_outcome job attempt err =
     (if err = None then RunSucceeded
      else if attempt < MaxAttempts (Retry (job_Options job)) then RunFailed else RunDeadLetter)"

definition exec_retryAt :: "('s, 'l) dispatcher \<Rightarrow> exec_env \<Rightarrow> Job \<Rightarrow> int \<Rightarrow> gotime" where
  "exec_retryAt D env job attempt =
     ev_retryNow env + computeBackoff (d_oor D) (Retry (job_Options job)) attempt (ev_rand env)"

definition exec_run :: "('s, 'l) dispatcher \<Rightarrow> exec_env \<Rightarrow> Job \<Rightarrow> DueJob \<Rightarrow> int \<Rightarrow> string option \<Rightarrow> RunRecord" where
  "exec_run D env job dj attempt err =
     \<lparr>rr_JobID = dj_ID dj, rr_FireTime = dj_NextFireTime dj, rr_StartedAt = ev_startedAt env,
      rr_FinishedAt = ev_finishedAt env, rr_NodeID = NodeID (node_opts D), rr_Attempt = attempt,
      rr_Outcome = exec_outcome job attempt err, rr_Error = (case err of None \<Rightarrow> [] | Some e \<Rightarrow> e)\<rparr>"

definition exec_storage :: "('s, 'l) dispatcher \<Rightarrow> exec_env \<Rightarrow> Context \<Rightarrow> Job \<Rightarrow> DueJob \<Rightarrow> int \<Rightarrow> 's \<Rightarrow> 's" where
  "exec_storage D env parent job dj attempt s =
     (let err = exec_error env parent job;
          s1 = (if exec_retried job attempt err
                then fst (ScheduleRetry (d_storage D) s (dj_ID dj) (exec_retryAt D env job attempt)) else s)
      in fst (RecordRun (d_storage D) s1 (ev_recordNow env) (exec_run D env job dj attempt err)))"

lemma execute_begin_frame [simp]:
  "snd (execute_begin D env parent job dj st) = (exec_ctx env parent job, exec_attempt st dj)"
  "st_storage (fst (execute_begin D env parent job dj st)) = st_storage st"
  "st_leader (fst (execute_begin D env parent job dj st)) = st_leader st"
  "st_attempts (fst (execute_begin D env parent job dj st)) = (st_attempts st)(dj_ID dj \<mapsto> exec_attempt st dj)"
  "st_inFlight (fst (execute_begin D env parent job dj st)) = st_inFlight st"
  "st_spawned (fst (execute_begin D env parent job dj st)) = st_spawned st"
  "st_calls (fst (execute_begin D env parent job dj st)) = st_calls st"
  by (simp_all add: execute_begin_def bumpAttempt_def exec_attempt_def Let_def)

lemma execute_settle_frame [simp]:
  "snd (execute_settle D env job dj n err st) = exec_outcome job n err"
  "st_storage (fst (execute_settle D env job dj n err st)) =
     (if exec_retried job n err
      then fst (ScheduleRetry (d_storage D) (st_storage st) (dj_ID dj) (exec_retryAt D env job n)) else st_storage st)"
  "st_attempts (fst (execute_settle D env job dj n err st)) =
     (if exec_retried job n err then st_attempts st else (st_attempts st)(dj_ID dj := None))"
  "st_leader (fst (execute_settle D env job dj n err st)) = st_leader st"
  "st_inFlight (fst (execute_settle D env job dj n err st)) = st_inFlight st"
  "st_spawned (fst (execute_settle D env job dj n err st)) = st_spawned st"
  "st_calls (fst (execute_settle D env job dj n err st)) = st_calls st"
  by (cases err; simp add: execute_settle_def exec_outcome_def exec_retried_def exec_retryAt_def time_Add_def
      forgetAttempt_def Let_def case_prod_beta)+

lemma execute_record_frame [simp]:
  "st_storage (execute_record D env dj n err (exec_outcome job n err) st) =
     fst (RecordRun (d_storage D) (st_storage st) (ev_recordNow env) (exec_run D env job dj n err))"
  "st_leader (execute_record D env dj n err out st) = st_leader st"
  "st_attempts (execute_record D env dj n err out st) = st_attempts st"
  "st_inFlight (execute_record D env dj n err out st) = st_inFlight st - 1"
  "st_spawned (execute_record D env dj n err out st) = st_spawned st"
  "st_calls (execute_record D env dj n err out st) = st_calls st"
  by (cases err; simp add: execute_record_def exec_run_def Let_def case_prod_beta)+

lemma execute_eq:
  "execute D env parent job dj cf st =
     (let st1 = (fst (execute_begin D env parent job dj st))
            \<lparr>st_calls := st_calls st @ [(dj, exec_ctx env parent job)]\<rparr>;
          n = exec_attempt st dj; err = exec_error env parent job
      in execute_record D env dj n err (exec_outcome job n err) (fst (execute_settle D env job dj n err st1)))"
proof -
  obtain st1 where st1: "execute_begin D env parent job dj st = (st1, exec_ctx env parent job, exec_attempt st dj)"
    using execute_begin_frame(1) [of D env parent job dj st] by (metis prod.collapse)
  moreover have "st_calls st1 = st_calls st"
    using execute_begin_frame(7) [of D env parent job dj st] st1 by simp
  ultimately show ?thesis
    by (simp add: execute_def exec_error_def Let_def case_prod_beta)
qed

lemma execute_storage_eq:
  "st_storage (execute D env parent job dj cf st) =
     exec_storage D env parent job dj (exec_attempt st dj) (st_storage st)"
  by (simp add: execute_eq Let_def exec_storage_def)

lemma execute_attempts_eq:
  "st_attempts (execute D env parent job dj cf st) =
     (if exec_retried job (exec_attempt st dj) (exec_error env parent job)
      then (st_attempts st)(dj_ID dj \<mapsto> exec_attempt st dj)
      else (st_attempts st)(dj_ID dj := None))"
  by (simp add: execute_eq Let_def)

lemma execute_frame [simp]:
  "st_calls (execute D env parent job dj cf st) = st_calls st @ [(dj, exec_ctx env parent job)]"
  "st_inFlight (execute D env parent job dj cf st) = st_inFlight st - 1"
  "st_spawned (execute D env parent job dj cf st) = st_spawned st"
  "st_leader (execute D env parent job dj cf st) = st_leader st"
  by (simp_all add: execute_eq Let_def)

lemma executeAtFire_frame [simp]:
  "st_calls (executeAtFire D env parent job dj st) = st_calls st @ [(dj, exec_ctx env parent job)]"
  "st_inFlight (executeAtFire D env parent job dj st) = st_inFlight st"
  "st_spawned (executeAtFire D env parent job dj st) = st_spawned st"
  "st_leader (executeAtFire D env parent job dj st) = st_leader st"
  "st_storage (executeAtFire D env parent job dj st) =
     exec_storage D env parent job dj (exec_attempt st dj) (st_storage st)"
  "st_attempts (executeAtFire D env parent job dj st) =
     (if exec_retried job (exec_attempt st dj) (exec_error env parent job)
      then (st_attempts st)(dj_ID dj \<mapsto> exec_attempt st dj)
      else (st_attempts st)(dj_ID dj := None))"
  by (simp_all add: executeAtFire_def execute_storage_eq execute_attempts_eq exec_attempt_def)

text \<open>The running gauge returns to its value, and a failure is counted once.\<close>

lemma running_segments:
  assumes "d_telemetry D = newTelemetry m"
  defines "one \<equiv> if \<exists>f. m = Some f \<and> f ''sundial.jobs.running'' = None then 1 else 0"
  shows "counter_value ''sundial.jobs.running'' (st_tel (fst (execute_begin D env parent job dj st))) =
      counter_value ''sundial.jobs.running'' (st_tel st) + one"
    and "counter_value ''sundial.jobs.running'' (st_tel (fst (execute_settle D env job dj n err st))) =
      counter_value ''sundial.jobs.running'' (st_tel st)"
    and "counter_value ''sundial.jobs.running'' (st_tel (execute_record D env dj n err out st)) =
      counter_value ''sundial.jobs.running'' (st_tel st) - one"
  by (simp_all add: assms execute_begin_def bumpAttempt_def telemetry_defs counter_value_add Let_def)
    (cases err; simp add: assms execute_settle_def execute_record_def telemetry_defs counter_value_add
      Let_def case_prod_beta)+

lemma execute_running_balanced:
  assumes "d_telemetry D = newTelemetry m"
  shows "counter_value ''sundial.jobs.running'' (st_tel (execute D env parent job dj cf st)) =
    counter_value ''sundial.jobs.running'' (st_tel st)"
  by (simp add: execute_eq Let_def running_segments [OF assms])

section \<open>What a dispatch decides\<close>

datatype decision = Ignore | Skip_to gotime | Replay Job | Claim Job gotime

definition missed :: "('s, 'l) dispatcher \<Rightarrow> DueJob \<Rightarrow> gotime \<Rightarrow> bool" where
  "missed D dj now \<longleftrightarrow> missThreshold D < time_Sub now (dj_NextFireTime dj)"

definition decide :: "('s, 'l) dispatcher \<Rightarrow> ('s, 'l) dstate \<Rightarrow> DueJob \<Rightarrow> gotime \<Rightarrow> decision" where
  "decide D st dj now =
     (case lookup (d_scheduler D) (dj_Name dj) of
        None \<Rightarrow> Ignore
      | Some job \<Rightarrow>
          if LeaderOnly (job_Options job) \<and> follower D st then Ignore
          else case computeNextFire (d_cron D) dj now of
            Inl err \<Rightarrow> Ignore
          | Inr t \<Rightarrow>
              if IsZero t then Ignore
              else if missed D dj now \<and> MissedFire (job_Options job) = MissedFireSkip then Skip_to t
              else if missed D dj now \<and> MissedFire (job_Options job) = MissedFireRunAll then
                (if follower D st then Ignore else Replay job)
              else Claim job t)"

lemma decide_branches:
  "decide D st dj now = Skip_to t \<Longrightarrow>
     \<exists>job. lookup (d_scheduler D) (dj_Name dj) = Some job \<and> \<not> (LeaderOnly (job_Options job) \<and> follower D st) \<and>
       computeNextFire (d_cron D) dj now = Inr t \<and> t \<noteq> zero_time \<and> missed D dj now \<and>
       MissedFire (job_Options job) = MissedFireSkip"
  "decide D st dj now = Replay job \<Longrightarrow>
     lookup (d_scheduler D) (dj_Name dj) = Some job \<and> \<not> follower D st \<and>
       (\<exists>t. computeNextFire (d_cron D) dj now = Inr t \<and> t \<noteq> zero_time) \<and> missed D dj now \<and>
       MissedFire (job_Options job) = MissedFireRunAll"
  "decide D st dj now = Claim job t \<Longrightarrow>
     lookup (d_scheduler D) (dj_Name dj) = Some job \<and> \<not> (LeaderOnly (job_Options job) \<and> follower D st) \<and>
       computeNextFire (d_cron D) dj now = Inr t \<and> t \<noteq> zero_time \<and>
       (missed D dj now \<longrightarrow> MissedFire (job_Options job) \<notin> {MissedFireSkip, MissedFireRunAll})"
  by (auto simp: decide_def IsZero_def split: option.splits sum.splits if_splits)

lemma decide_IgnoreD:
  assumes "decide D st dj now = Ignore"
  shows "\<exists>ls. maybeDispatch D envs ctx dj now st = st\<lparr>st_log := st_log st @ ls\<rparr>"
proof -
  have same: "\<exists>ls. st = st\<lparr>st_log := st_log st @ ls\<rparr>" by (rule exI [of _ "[]"]) simp
  show ?thesis
  proof (cases "lookup (d_scheduler D) (dj_Name dj)")
    case None
    with same show ?thesis by (simp add: maybeDispatch_def)
  next
    case (Some job)
    note job = this
    show ?thesis
    proof (cases "computeNextFire (d_cron D) dj now")
      case (Inl e)
      with job same show ?thesis by (auto simp: maybeDispatch_def logging_def)
    next
      case (Inr t)
      consider "LeaderOnly (job_Options job)" "follower D st" | "IsZero t"
        | "missThreshold D < time_Sub now (dj_NextFireTime dj)" "follower D st"
          "MissedFire (job_Options job) = MissedFireRunAll" "MissedFire (job_Options job) \<noteq> MissedFireSkip"
        using assms job Inr by (auto simp: decide_def missed_def split: if_splits)
      then show ?thesis
        using job Inr same by cases (simp_all add: maybeDispatch_def)
    qed
  qed
qed

lemma decide_ReplayD:
  assumes "decide D st dj now = Replay job"
  shows "maybeDispatch D envs ctx dj now st = runAllMissed D envs ctx job dj now st"
proof -
  obtain t where "lookup (d_scheduler D) (dj_Name dj) = Some job" "\<not> follower D st"
    "computeNextFire (d_cron D) dj now = Inr t" "t \<noteq> zero_time" "missThreshold D < time_Sub now (dj_NextFireTime dj)"
    "MissedFire (job_Options job) = MissedFireRunAll"
    using decide_branches(2) [OF assms] by (auto simp: missed_def)
  moreover have "MissedFireRunAll \<noteq> MissedFireSkip" by (simp add: missed_fire_policies)
  ultimately show ?thesis by (simp add: maybeDispatch_def IsZero_def Let_def)
qed

lemma decide_Skip_toD:
  assumes "decide D st dj now = Skip_to t"
  shows "\<exists>ls. maybeDispatch D envs ctx dj now st =
    st\<lparr>st_storage := fst (ClaimJob (d_storage D) (st_storage st) (dj_ID dj) t), st_log := st_log st @ ls\<rparr>"
proof -
  obtain s r where c: "ClaimJob (d_storage D) (st_storage st) (dj_ID dj) t = (s, r)" by fastforce
  show ?thesis
    using decide_branches(1) [OF assms] c
    by (cases r) (auto simp: maybeDispatch_def missed_def IsZero_def logging_def Let_def)
qed

lemma decide_ClaimD:
  assumes "decide D st dj now = Claim job t"
  defines "c \<equiv> ClaimJob (d_storage D) (st_storage st) (dj_ID dj) t"
  shows "\<exists>ls. maybeDispatch D envs ctx dj now st =
    (if snd c = Inr True
     then st\<lparr>st_storage := fst c, st_tel := st_tel st @ claimedInc (d_telemetry D) (dj_Name dj),
             st_log := st_log st @ ls, st_inFlight := st_inFlight st + 1,
             st_spawned := st_spawned st @ [(job, dj, t)]\<rparr>
     else st\<lparr>st_storage := fst c, st_log := st_log st @ ls\<rparr>)"
proof -
  obtain s r where c: "c = (s, r)" by fastforce
  show ?thesis
  proof (cases r)
    case (Inl e)
    then show ?thesis
      using decide_branches(3) [OF assms(1)] c [unfolded c_def]
      by (auto simp: maybeDispatch_def missed_def IsZero_def logging_def Let_def c_def)
  next
    case (Inr b)
    then show ?thesis
      using decide_branches(3) [OF assms(1)] c [unfolded c_def]
      by (intro exI [of _ "if b \<and> missed D dj now
            then [(Log_Info, ''missed fire recovering (run-once)'', dj_Name dj)] else []"])
        (auto simp: maybeDispatch_def missed_def IsZero_def logging_def emit_def Let_def c_def)
  qed
qed

end
