(* ===== verification/Memory_Storage.thy ===== *)
theory Memory_Storage
  imports Sundial_Storage
begin

text \<open>
  \<open>MemoryStorage\<close> of \<open>storage.go\<close>. The mutex makes every method one atomic step, so a method
  is a function on the state. The map of jobs is an association list with distinct keys; each
  \<open>range\<close> over it takes the order \<open>rng\<close>. The invariant (keys are the jobs' names, ids are
  distinct and come from the counter, no job is locked) makes every result independent of that
  order, and the backend an interpretation of \<open>reliable_storage\<close>.
\<close>

section \<open>State and operations\<close>

record memJob =
  mj_ID :: string
  mj_Name :: string
  mj_NextFireTime :: gotime
  mj_Schedule :: string
  mj_ScheduleKind :: string
  mj_Locked :: bool

record MemoryStorage =
  mem_jobs :: "(string \<times> memJob) list"
  mem_runs :: "RunRecord list"
  mem_next :: int

type_synonym mem_range = "(string \<times> memJob) list \<Rightarrow> (string \<times> memJob) list"

definition NewMemoryStorage :: MemoryStorage where
  "NewMemoryStorage = \<lparr>mem_jobs = [], mem_runs = [], mem_next = 0\<rparr>"

definition mem_id :: "int \<Rightarrow> string" where
  "mem_id k = ''mem-job-'' @ dec_string k"

definition mem_EnsureJob ::
  "MemoryStorage \<Rightarrow> Job option \<Rightarrow> gotime \<Rightarrow> MemoryStorage \<times> (go_error + string)" where
  "mem_EnsureJob m jo firstFire =
     (case jo of
        None \<Rightarrow> (m, Inl (NewError ''sundial: nil job''))
      | Some j \<Rightarrow>
          (case map_of (mem_jobs m) (job_Name j) of
             Some existing \<Rightarrow>
               (m\<lparr>mem_jobs := AList.update (job_Name j)
                    (existing\<lparr>mj_Schedule := schedule_String (job_Schedule j),
                              mj_ScheduleKind := schedule_Kind (job_Schedule j)\<rparr>) (mem_jobs m)\<rparr>,
                Inr (mj_ID existing))
           | None \<Rightarrow>
               let n = mem_next m + 1; i = mem_id n
               in (m\<lparr>mem_next := n,
                     mem_jobs := AList.update (job_Name j)
                       \<lparr>mj_ID = i, mj_Name = job_Name j, mj_NextFireTime = firstFire,
                        mj_Schedule = schedule_String (job_Schedule j),
                        mj_ScheduleKind = schedule_Kind (job_Schedule j), mj_Locked = False\<rparr>
                       (mem_jobs m)\<rparr>,
                   Inr i)))"

definition due_gt :: "DueJob \<Rightarrow> DueJob \<Rightarrow> bool" where
  "due_gt a b \<longleftrightarrow>
     dj_NextFireTime a > dj_NextFireTime b \<or>
     (dj_NextFireTime a = dj_NextFireTime b \<and> dj_Name a > dj_Name b)"

definition mem_due :: "memJob \<Rightarrow> DueJob" where
  "mem_due j =
     \<lparr>dj_ID = mj_ID j, dj_Name = mj_Name j, dj_NextFireTime = mj_NextFireTime j,
      dj_ScheduleExpr = mj_Schedule j, dj_ScheduleKind = mj_ScheduleKind j\<rparr>"

definition mem_FetchDue ::
  "mem_range \<Rightarrow> MemoryStorage \<Rightarrow> gotime \<Rightarrow> int \<Rightarrow> MemoryStorage \<times> (go_error + DueJob list)" where
  "mem_FetchDue rng m now limit =
     (let limit = (if limit \<le> 0 then 32 else limit);
          out = map mem_due (filter (\<lambda>j. \<not> mj_NextFireTime j > now) (map snd (rng (mem_jobs m))));
          out = insertion_sort due_gt out;
          out = (if int (length out) > limit then take (nat limit) out else out)
      in (m, Inr out))"

definition mem_ClaimJob ::
  "mem_range \<Rightarrow> MemoryStorage \<Rightarrow> string \<Rightarrow> gotime \<Rightarrow> MemoryStorage \<times> (go_error + bool)" where
  "mem_ClaimJob rng m jobID nextFire =
     (case find (\<lambda>(n, j). mj_ID j = jobID) (rng (mem_jobs m)) of
        None \<Rightarrow> (m, Inl ErrJobNotFound)
      | Some (n, j) \<Rightarrow>
          if mj_Locked j then (m, Inr False)
          else if \<not> mj_NextFireTime j < nextFire then (m, Inr False)
          else (m\<lparr>mem_jobs := AList.update n (j\<lparr>mj_NextFireTime := nextFire\<rparr>) (mem_jobs m)\<rparr>, Inr True))"

definition mem_ScheduleRetry ::
  "mem_range \<Rightarrow> MemoryStorage \<Rightarrow> string \<Rightarrow> gotime \<Rightarrow> MemoryStorage \<times> go_error option" where
  "mem_ScheduleRetry rng m jobID retryAt =
     (case find (\<lambda>(n, j). mj_ID j = jobID) (rng (mem_jobs m)) of
        None \<Rightarrow> (m, Some ErrJobNotFound)
      | Some (n, j) \<Rightarrow>
          (if retryAt < mj_NextFireTime j
           then m\<lparr>mem_jobs := AList.update n (j\<lparr>mj_NextFireTime := retryAt\<rparr>) (mem_jobs m)\<rparr>
           else m, None))"

definition mem_RecordRun ::
  "MemoryStorage \<Rightarrow> gotime \<Rightarrow> RunRecord \<Rightarrow> MemoryStorage \<times> go_error option" where
  "mem_RecordRun m now run = (m\<lparr>mem_runs := mem_runs m @ [fill_run now run]\<rparr>, None)"

definition mem_Runs :: "MemoryStorage \<Rightarrow> RunRecord list" where
  "mem_Runs m = mem_runs m"

definition MemoryStorage_ops :: "mem_range \<Rightarrow> MemoryStorage Storage" where
  "MemoryStorage_ops rng =
     \<lparr>EnsureJob = mem_EnsureJob, FetchDue = mem_FetchDue rng, ClaimJob = mem_ClaimJob rng,
      RecordRun = mem_RecordRun, ScheduleRetry = mem_ScheduleRetry rng\<rparr>"

section \<open>Invariant and abstraction\<close>

definition mem_inv :: "MemoryStorage \<Rightarrow> bool" where
  "mem_inv m \<longleftrightarrow>
     0 \<le> mem_next m \<and>
     distinct (map fst (mem_jobs m)) \<and>
     distinct (map (mj_ID \<circ> snd) (mem_jobs m)) \<and>
     list_all (\<lambda>(n, j). mj_Name j = n \<and> \<not> mj_Locked j) (mem_jobs m) \<and>
     set (map (mj_ID \<circ> snd) (mem_jobs m)) \<subseteq> mem_id ` {1..mem_next m}"

definition mem_row :: "memJob \<Rightarrow> jobrow" where
  "mem_row j =
     \<lparr>row_Name = mj_Name j, row_NextFire = mj_NextFireTime j, row_Expr = mj_Schedule j,
      row_Kind = mj_ScheduleKind j\<rparr>"

definition mem_table :: "MemoryStorage \<Rightarrow> jobtable" where
  "mem_table m = map_of (map (\<lambda>(n, j). (mj_ID j, mem_row j)) (mem_jobs m))"

section \<open>Lemmas on the map of jobs\<close>

lemma mem_table_Some:
  "distinct (map (mj_ID \<circ> snd) (mem_jobs m)) \<Longrightarrow>
     mem_table m i = Some r \<longleftrightarrow> (\<exists>n j. (n, j) \<in> set (mem_jobs m) \<and> mj_ID j = i \<and> r = mem_row j)"
  unfolding mem_table_def
  by (subst map_of_eq_Some_iff) (force simp: comp_def case_prod_beta)+

lemma map_of_replace:
  "map_of (map (\<lambda>(i, r). (i, if i = a then w else r)) L) x =
     (if x = a \<and> a \<in> fst ` set L then Some w else map_of L x)"
proof (induction L)
  case (Cons p L)
  then show ?case by (cases p; cases "x = fst p"; cases "x = a") simp_all
qed simp

lemma mem_find:
  assumes "range_order rng" "mem_inv m"
  shows "find (\<lambda>(n, j). mj_ID j = i) (rng (mem_jobs m)) = Some (n, j) \<longleftrightarrow>
    (n, j) \<in> set (mem_jobs m) \<and> mj_ID j = i"
proof -
  have "x = y" if "x \<in> set (mem_jobs m)" "y \<in> set (mem_jobs m)" "mj_ID (snd x) = i" "mj_ID (snd y) = i"
    for x y
  proof -
    have "inj_on (mj_ID \<circ> snd) (set (mem_jobs m))"
      using assms(2) by (simp add: mem_inv_def distinct_map)
    then show ?thesis using that by (metis comp_apply inj_onD)
  qed
  then show ?thesis
    by (subst find_unique) (auto simp: range_order_set [OF assms(1)])
qed

lemma mem_find_None:
  assumes "range_order rng" "mem_inv m"
  shows "find (\<lambda>(n, j). mj_ID j = i) (rng (mem_jobs m)) = None \<longleftrightarrow> i \<notin> dom (mem_table m)"
  using mem_table_Some [of m i] assms
  by (auto simp: find_None_iff range_order_set mem_inv_def domIff)

lemma mem_inv_update:
  assumes "mem_inv m" "(n, j) \<in> set (mem_jobs m)" "mj_ID v = mj_ID j" "mj_Name v = n" "\<not> mj_Locked v"
  shows "mem_inv (m\<lparr>mem_jobs := AList.update n v (mem_jobs m)\<rparr>)"
    and "mem_table (m\<lparr>mem_jobs := AList.update n v (mem_jobs m)\<rparr>) = (mem_table m)(mj_ID j \<mapsto> mem_row v)"
proof -
  let ?upd = "map (\<lambda>(k, x). (k, if k = n then v else x)) (mem_jobs m)"
  have keys: "distinct (map fst (mem_jobs m))" using assms(1) by (simp add: mem_inv_def)
  have upd: "AList.update n v (mem_jobs m) = ?upd"
    using keys assms(2) by (rule update_existing)
  have same: "x = j" if "(n, x) \<in> set (mem_jobs m)" for x
    using that keys assms(2) by (meson eq_key_imp_eq_value)
  have ids: "map (mj_ID \<circ> snd) ?upd = map (mj_ID \<circ> snd) (mem_jobs m)"
    using same assms(3) by (auto simp: comp_def)
  have sel: "mem_jobs (m\<lparr>mem_jobs := x\<rparr>) = x" "mem_next (m\<lparr>mem_jobs := x\<rparr>) = mem_next m" for x
    by simp_all
  have fsts: "map fst ?upd = map fst (mem_jobs m)" by (auto simp: comp_def case_prod_beta)
  have "list_all (\<lambda>(k, x). mj_Name x = k \<and> \<not> mj_Locked x) (mem_jobs m)"
    using assms(1) by (simp add: mem_inv_def)
  then have "list_all (\<lambda>(k, x). mj_Name x = k \<and> \<not> mj_Locked x) ?upd"
    using assms(4,5) by (auto simp: list_all_iff split: if_splits)
  then show inv: "mem_inv (m\<lparr>mem_jobs := AList.update n v (mem_jobs m)\<rparr>)"
    using assms(1) unfolding mem_inv_def upd sel ids fsts by blast
  have inj: "inj_on (mj_ID \<circ> snd) (set (mem_jobs m))"
    using assms(1) by (simp add: mem_inv_def distinct_map)
  have other: "k = n \<longleftrightarrow> mj_ID x = mj_ID j" if "(k, x) \<in> set (mem_jobs m)" for k x
  proof
    show "mj_ID x = mj_ID j" if "k = n" using same \<open>(k, x) \<in> set (mem_jobs m)\<close> that by simp
    show "k = n" if "mj_ID x = mj_ID j"
      using inj_onD [OF inj _ \<open>(k, x) \<in> set (mem_jobs m)\<close> assms(2)] that by simp
  qed
  have rows_eq: "map (\<lambda>(n, j). (mj_ID j, mem_row j)) ?upd =
      map (\<lambda>(i, r). (i, if i = mj_ID j then mem_row v else r)) (map (\<lambda>(n, j). (mj_ID j, mem_row j)) (mem_jobs m))"
    using other assms(3) by auto
  have "mj_ID j \<in> fst ` set (map (\<lambda>(n, j). (mj_ID j, mem_row j)) (mem_jobs m))"
    using assms(2) by force
  then show "mem_table (m\<lparr>mem_jobs := AList.update n v (mem_jobs m)\<rparr>) = (mem_table m)(mj_ID j \<mapsto> mem_row v)"
    unfolding mem_table_def upd sel rows_eq fun_eq_iff map_of_replace by simp
qed

section \<open>The laws of the interface\<close>

lemma mem_inv_New: "mem_inv NewMemoryStorage"
  by (simp add: mem_inv_def NewMemoryStorage_def)

lemma mem_inv_entry: "mem_inv m \<Longrightarrow> (n, j) \<in> set (mem_jobs m) \<Longrightarrow> mj_Name j = n \<and> \<not> mj_Locked j"
  by (auto simp: mem_inv_def list_all_iff)

lemma mem_table_entry: "mem_inv m \<Longrightarrow> (n, j) \<in> set (mem_jobs m) \<Longrightarrow> mem_table m (mj_ID j) = Some (mem_row j)"
  by (subst mem_table_Some) (auto simp: mem_inv_def)

lemma mem_row_simps [simp]:
  "row_Name (mem_row j) = mj_Name j" "row_NextFire (mem_row j) = mj_NextFireTime j"
  "row_Expr (mem_row j) = mj_Schedule j" "row_Kind (mem_row j) = mj_ScheduleKind j"
  "mem_row (j\<lparr>mj_NextFireTime := t\<rparr>) = (mem_row j)\<lparr>row_NextFire := t\<rparr>"
  by (simp_all add: mem_row_def)

lemma mem_ClaimJob_cases:
  assumes "range_order rng" "mem_inv m"
  obtains (missing) "i \<notin> dom (mem_table m)" "mem_ClaimJob rng m i t = (m, Inl ErrJobNotFound)"
  | (kept) "i \<in> dom (mem_table m)" "\<not> claimable (mem_table m) i t" "mem_ClaimJob rng m i t = (m, Inr False)"
  | (won) m' where "claimable (mem_table m) i t" "mem_ClaimJob rng m i t = (m', Inr True)"
      "mem_inv m'" "mem_runs m' = mem_runs m" "mem_table m' = advance (mem_table m) i t"
proof (cases "find (\<lambda>(n, j). mj_ID j = i) (rng (mem_jobs m))")
  case None
  then show ?thesis
    using mem_find_None [OF assms, of i] by (intro missing) (simp_all add: mem_ClaimJob_def)
next
  case (Some p)
  then obtain n j where p: "find (\<lambda>(n, j). mj_ID j = i) (rng (mem_jobs m)) = Some (n, j)"
    by (cases p) auto
  then have nj: "(n, j) \<in> set (mem_jobs m)" "mj_ID j = i" using mem_find [OF assms] by auto
  have entry: "mj_Name j = n" "\<not> mj_Locked j" "mem_table m i = Some (mem_row j)"
    using mem_inv_entry [OF assms(2) nj(1)] mem_table_entry [OF assms(2) nj(1)] nj(2) by auto
  let ?m = "m\<lparr>mem_jobs := AList.update n (j\<lparr>mj_NextFireTime := t\<rparr>) (mem_jobs m)\<rparr>"
  show ?thesis
  proof (cases "mj_NextFireTime j < t")
    case True
    then show ?thesis
      using p entry nj mem_inv_update [OF assms(2) nj(1), of "j\<lparr>mj_NextFireTime := t\<rparr>"]
      by (intro won [of ?m]) (auto simp: mem_ClaimJob_def claimable_def advance_def)
  next
    case False
    then show ?thesis
      using p entry by (intro kept) (auto simp: mem_ClaimJob_def claimable_def)
  qed
qed

lemma mem_ScheduleRetry_cases:
  assumes "range_order rng" "mem_inv m"
  obtains (missing) "i \<notin> dom (mem_table m)" "mem_ScheduleRetry rng m i t = (m, Some ErrJobNotFound)"
  | (pulled) m' where "i \<in> dom (mem_table m)" "mem_ScheduleRetry rng m i t = (m', None)"
      "mem_inv m'" "mem_runs m' = mem_runs m" "mem_table m' = pull_back (mem_table m) i t"
proof (cases "find (\<lambda>(n, j). mj_ID j = i) (rng (mem_jobs m))")
  case None
  then show ?thesis
    using mem_find_None [OF assms, of i] by (intro missing) (simp_all add: mem_ScheduleRetry_def)
next
  case (Some p)
  then obtain n j where p: "find (\<lambda>(n, j). mj_ID j = i) (rng (mem_jobs m)) = Some (n, j)"
    by (cases p) auto
  then have nj: "(n, j) \<in> set (mem_jobs m)" "mj_ID j = i" using mem_find [OF assms] by auto
  have entry: "mj_Name j = n" "\<not> mj_Locked j" "mem_table m i = Some (mem_row j)"
    using mem_inv_entry [OF assms(2) nj(1)] mem_table_entry [OF assms(2) nj(1)] nj(2) by auto
  then show ?thesis
    using p nj assms(2) mem_inv_update [OF assms(2) nj(1), of "j\<lparr>mj_NextFireTime := t\<rparr>"]
    by (cases "t < mj_NextFireTime j"; intro pulled) (auto simp: mem_ScheduleRetry_def pull_back_def)
qed

lemma mem_id_inj: "0 \<le> a \<Longrightarrow> 0 \<le> b \<Longrightarrow> mem_id a = mem_id b \<longleftrightarrow> a = b"
  by (simp add: mem_id_def dec_string_inject)

lemma mem_EnsureJob_law:
  assumes inv: "mem_inv m"
  obtains m' i where "mem_EnsureJob m (Some j) first = (m', Inr i)" "mem_inv m'"
    "mem_runs m' = mem_runs m" "registered (mem_table m) j first i (mem_table m')"
proof (cases "map_of (mem_jobs m) (job_Name j)")
  case None
  let ?n = "mem_next m + 1"
  let ?v = "\<lparr>mj_ID = mem_id ?n, mj_Name = job_Name j, mj_NextFireTime = first,
    mj_Schedule = schedule_String (job_Schedule j), mj_ScheduleKind = schedule_Kind (job_Schedule j),
    mj_Locked = False\<rparr>"
  let ?m = "m\<lparr>mem_next := ?n, mem_jobs := mem_jobs m @ [(job_Name j, ?v)]\<rparr>"
  have new: "job_Name j \<notin> fst ` set (mem_jobs m)" using None by (simp add: map_of_eq_None_iff)
  have ids: "mj_ID x \<in> mem_id ` {1..mem_next m}" if "(n, x) \<in> set (mem_jobs m)" for n x
    using inv that by (force simp: mem_inv_def)
  have fresh: "mem_id ?n \<notin> mem_id ` {1..mem_next m}"
    using inv by (auto simp: mem_inv_def mem_id_inj)
  have tabnew: "mem_id ?n \<notin> dom (mem_table m)"
  proof
    assume "mem_id ?n \<in> dom (mem_table m)"
    then obtain r where "mem_table m (mem_id ?n) = Some r" by blast
    moreover have "distinct (map (mj_ID \<circ> snd) (mem_jobs m))" using inv by (simp add: mem_inv_def)
    ultimately obtain n x where "(n, x) \<in> set (mem_jobs m)" "mj_ID x = mem_id ?n"
      using mem_table_Some by metis
    with ids fresh show False by metis
  qed
  have "{1..?n} = insert ?n {1..mem_next m}" using inv by (auto simp: mem_inv_def)
  then have "mem_inv ?m"
    using inv new fresh unfolding mem_inv_def by (auto simp del: image_insert simp: image_insert subset_iff)
  moreover have "mem_table ?m = (mem_table m)(mem_id ?n \<mapsto> mem_row ?v)"
    using tabnew by (auto simp: mem_table_def fun_eq_iff map_add_def split: option.splits)
  moreover have "\<forall>r \<in> ran (mem_table m). row_Name r \<noteq> job_Name j"
  proof
    fix r assume "r \<in> ran (mem_table m)"
    then obtain n x where "(n, x) \<in> set (mem_jobs m)" "r = mem_row x"
      using inv mem_table_Some by (auto simp: ran_def mem_inv_def)
    with mem_inv_entry [OF inv] new show "row_Name r \<noteq> job_Name j" by force
  qed
  ultimately show ?thesis
    using None new tabnew
    by (intro that [of ?m "mem_id ?n"])
      (auto simp: mem_EnsureJob_def update_new Let_def registered_def mem_row_def domIff)
next
  case (Some x)
  let ?v = "x\<lparr>mj_Schedule := schedule_String (job_Schedule j), mj_ScheduleKind := schedule_Kind (job_Schedule j)\<rparr>"
  let ?m = "m\<lparr>mem_jobs := AList.update (job_Name j) ?v (mem_jobs m)\<rparr>"
  have x: "(job_Name j, x) \<in> set (mem_jobs m)" using Some by (rule map_of_SomeD)
  show ?thesis
    using Some mem_inv_update [OF inv x, of ?v] mem_inv_entry [OF inv x] mem_table_entry [OF inv x]
    by (intro that [of ?m "mj_ID x"]) (auto simp: mem_EnsureJob_def registered_def mem_row_def)
qed

section \<open>Fetching due jobs\<close>

lemma due_gt_key: "due_gt a b \<longleftrightarrow> due_key b < due_key a"
  by (auto simp: due_gt_def due_key_def)

interpretation fire_order: sort_order due_gt
  by unfold_locales (auto simp: due_gt_key)

text \<open>The jobs that are due, before sorting, and the sorted list the fetch cuts.\<close>

definition mem_dues :: "mem_range \<Rightarrow> MemoryStorage \<Rightarrow> gotime \<Rightarrow> DueJob list" where
  "mem_dues rng m now =
     map mem_due (filter (\<lambda>j. \<not> mj_NextFireTime j > now) (map snd (rng (mem_jobs m))))"

lemma mem_FetchDue_eq:
  "mem_FetchDue rng m now limit =
     (m, Inr (take (nat (effective_limit limit)) (insertion_sort due_gt (mem_dues rng m now))))"
  by (simp add: mem_FetchDue_def mem_dues_def effective_limit_def Let_def)

lemma mem_due_row: "mem_due j = due_of_row (mj_ID j) (mem_row j)"
  by (simp add: mem_due_def due_of_row_def)

lemma mem_dues_set:
  assumes "range_order rng" "mem_inv m"
  shows "d \<in> set (mem_dues rng m now) \<longleftrightarrow>
    (\<exists>r. mem_table m (dj_ID d) = Some r \<and> row_NextFire r \<le> now \<and> d = due_of_row (dj_ID d) r)"
proof -
  have ids: "distinct (map (mj_ID \<circ> snd) (mem_jobs m))" using assms(2) by (simp add: mem_inv_def)
  have "d \<in> set (mem_dues rng m now) \<longleftrightarrow>
      (\<exists>n j. (n, j) \<in> set (mem_jobs m) \<and> mj_NextFireTime j \<le> now \<and> d = mem_due j)"
    by (force simp: mem_dues_def range_order_set [OF assms(1)] not_less)
  also have "\<dots> \<longleftrightarrow> (\<exists>r. mem_table m (dj_ID d) = Some r \<and> row_NextFire r \<le> now \<and> d = due_of_row (dj_ID d) r)"
    unfolding mem_table_Some [OF ids] mem_due_row
    by (auto simp: due_of_row_def) (metis mem_row_simps(1-4) DueJob.select_convs(1))+
  finally show ?thesis .
qed

lemma mem_dues_mset: "range_order rng \<Longrightarrow> mset (mem_dues rng m now) = mset (mem_dues (\<lambda>xs. xs) m now)"
  unfolding mem_dues_def by (simp add: range_order_def mset_filter)

lemma mem_dues_distinct:
  assumes "range_order rng" "mem_inv m"
  shows "distinct (map dj_ID (mem_dues rng m now))" and "distinct (map dj_Name (mem_dues rng m now))"
proof -
  have perm: "mset (map dj_ID (mem_dues rng m now)) = mset (map dj_ID (mem_dues (\<lambda>xs. xs) m now))"
    "mset (map dj_Name (mem_dues rng m now)) = mset (map dj_Name (mem_dues (\<lambda>xs. xs) m now))"
    using mem_dues_mset [OF assms(1), of m now] by simp_all
  have flt: "distinct (map f (mem_dues (\<lambda>xs. xs) m now))" if "distinct (map (\<lambda>p. f (mem_due (snd p))) (mem_jobs m))"
    for f :: "DueJob \<Rightarrow> string"
  proof -
    have "map f (mem_dues (\<lambda>xs. xs) m now) =
        map (\<lambda>p. f (mem_due (snd p))) (filter (\<lambda>p. \<not> mj_NextFireTime (snd p) > now) (mem_jobs m))"
      by (simp add: mem_dues_def filter_map comp_def)
    then show ?thesis using that by (simp only: distinct_map_filter)
  qed
  have "map (\<lambda>p. dj_Name (mem_due (snd p))) (mem_jobs m) = map fst (mem_jobs m)"
    using mem_inv_entry [OF assms(2)] by (auto simp: mem_due_def)
  then have "distinct (map dj_Name (mem_dues (\<lambda>xs. xs) m now))"
    using assms(2) unfolding mem_inv_def by (intro flt) metis
  then show "distinct (map dj_Name (mem_dues rng m now))"
    using perm(2) mset_eq_imp_distinct_iff by blast
  have "distinct (map dj_ID (mem_dues (\<lambda>xs. xs) m now))"
    using assms(2) by (intro flt) (simp add: mem_inv_def mem_due_def comp_def)
  then show "distinct (map dj_ID (mem_dues rng m now))"
    using perm(1) mset_eq_imp_distinct_iff by blast
qed

lemma mem_FetchDue_snapshot:
  assumes "range_order rng" "mem_inv m" "mem_FetchDue rng m now limit = (m', r)"
  shows "m' = m \<and> (\<exists>ds. r = Inr ds \<and> due_snapshot (mem_table m) now limit ds)"
proof -
  let ?all = "insertion_sort due_gt (mem_dues rng m now)"
  have "mset (map dj_ID ?all) = mset (map dj_ID (mem_dues rng m now))"
    using fire_order.mset_insertion_sort by simp
  then have dist: "distinct (map dj_ID ?all)"
    using mem_dues_distinct(1) [OF assms(1,2)] mset_eq_imp_distinct_iff by blast
  have "sorted_wrt (\<lambda>a b. dj_NextFireTime a \<le> dj_NextFireTime b) ?all"
    using fire_order.sorted_insertion_sort by (rule sorted_wrt_mono_rel [rotated]) (auto simp: due_gt_def)
  then have srt: "sorted (map dj_NextFireTime ?all)" by (simp add: sorted_wrt_map)
  have "due_snapshot (mem_table m) now limit (take (nat (effective_limit limit)) ?all)"
    using dist srt by (rule due_snapshot_take) (simp add: fire_order.set_insertion_sort mem_dues_set [OF assms(1,2)])
  with assms(3) show ?thesis by (auto simp: mem_FetchDue_eq)
qed

lemma mem_FetchDue_order_free:
  assumes "range_order rng" "mem_inv m"
  shows "insertion_sort due_gt (mem_dues rng m now) = sort_key due_key (mem_dues (\<lambda>xs. xs) m now)"
proof (rule sorted_wrt_unique [where R = "\<lambda>a b. due_key a \<le> due_key b"])
  show "mset (insertion_sort due_gt (mem_dues rng m now)) = mset (sort_key due_key (mem_dues (\<lambda>xs. xs) m now))"
    using mem_dues_mset [OF assms(1)] by (simp add: fire_order.mset_insertion_sort)
  show "sorted_wrt (\<lambda>a b. due_key a \<le> due_key b) (insertion_sort due_gt (mem_dues rng m now))"
    using fire_order.sorted_insertion_sort [of "mem_dues rng m now"] by (simp add: due_gt_key not_less)
  show "sorted_wrt (\<lambda>a b. due_key a \<le> due_key b) (sort_key due_key (mem_dues (\<lambda>xs. xs) m now))"
    using sorted_sort_key [of due_key] by (simp add: sorted_wrt_map [symmetric])
  show "a = b" if "a \<in> set (insertion_sort due_gt (mem_dues rng m now))"
    "b \<in> set (insertion_sort due_gt (mem_dues rng m now))" "due_key a \<le> due_key b" "due_key b \<le> due_key a" for a b
  proof -
    have "dj_Name a = dj_Name b" using that(3,4) by (auto simp: due_key_def)
    moreover have "inj_on dj_Name (set (mem_dues rng m now))"
      using mem_dues_distinct(2) [OF assms] by (simp add: distinct_map)
    ultimately show ?thesis
      using that(1,2) by (auto simp: fire_order.set_insertion_sort dest: inj_onD)
  qed
qed

lemma mem_runs_frame [simp]:
  "mem_inv (m\<lparr>mem_runs := rs\<rparr>) = mem_inv m" "mem_table (m\<lparr>mem_runs := rs\<rparr>) = mem_table m"
  by (simp_all add: mem_inv_def mem_table_def)

lemma mem_reliable:
  assumes "range_order rng"
  shows "reliable_storage (MemoryStorage_ops rng) mem_table mem_runs mem_inv (\<lambda>t. t)"
proof (unfold_locales, goal_cases)
  case (1 t u)
  then show ?case .
next
  case (2 s i t s' r)
  show ?case
    by (rule mem_ClaimJob_cases [OF assms 2(1), of i t]) (use 2 in \<open>auto simp: MemoryStorage_ops_def\<close>)
next
  case (3 s i t s' e)
  show ?case
    by (rule mem_ScheduleRetry_cases [OF assms 3(1), of i t]) (use 3 in \<open>auto simp: MemoryStorage_ops_def\<close>)
next
  case (4 s now run s' e)
  then show ?case by (auto simp: MemoryStorage_ops_def mem_RecordRun_def)
next
  case (5 s now limit s' r)
  then show ?case
    using mem_FetchDue_snapshot [OF assms 5(1)] by (auto simp: MemoryStorage_ops_def)
next
  case (6 s j first s' r)
  show ?case
    by (rule mem_EnsureJob_law [OF 6(1), of j first]) (use 6 in \<open>auto simp: MemoryStorage_ops_def\<close>)
next
  case (7 s first)
  show ?case by (simp add: MemoryStorage_ops_def mem_EnsureJob_def)
next
  case (8 s i t s' r)
  show ?case
    by (rule mem_ClaimJob_cases [OF assms 8(1), of i t])
      (use 8 in \<open>auto simp: MemoryStorage_ops_def claimable_def split: option.splits\<close>)
next
  case (9 s i t)
  show ?case
    by (rule mem_ScheduleRetry_cases [OF assms 9(1), of i t]) (use 9 in \<open>auto simp: MemoryStorage_ops_def\<close>)
next
  case (10 s now run)
  show ?case by (simp add: MemoryStorage_ops_def mem_RecordRun_def)
next
  case (11 s now limit)
  show ?case by (simp add: MemoryStorage_ops_def mem_FetchDue_eq)
next
  case (12 s j first)
  show ?case
    by (rule mem_EnsureJob_law [OF 12, of j first]) (auto simp: MemoryStorage_ops_def)
qed

lemma mem_contract:
  "range_order rng \<Longrightarrow> storage_contract (MemoryStorage_ops rng) mem_table mem_runs mem_inv (\<lambda>t. t)"
  using mem_reliable by (rule reliable_storage.axioms(1))

interpretation mem: reliable_storage "MemoryStorage_ops (\<lambda>xs. xs)" mem_table mem_runs mem_inv "\<lambda>t. t"
  by (rule mem_reliable) simp

section \<open>Uniqueness of names\<close>

text \<open>Names are unique: the row with a name has one id.\<close>

lemma mem_names_unique:
  assumes "mem_inv m" "mem_table m i = Some r" "mem_table m k = Some r'" "row_Name r = row_Name r'"
  shows "i = k"
proof -
  have ids: "distinct (map (mj_ID \<circ> snd) (mem_jobs m))" and keys: "distinct (map fst (mem_jobs m))"
    using assms(1) by (simp_all add: mem_inv_def)
  obtain n x where x: "(n, x) \<in> set (mem_jobs m)" "mj_ID x = i" "r = mem_row x"
    using assms(2) mem_table_Some [OF ids] by blast
  obtain n' x' where x': "(n', x') \<in> set (mem_jobs m)" "mj_ID x' = k" "r' = mem_row x'"
    using assms(3) mem_table_Some [OF ids] by blast
  have "n = n'" using mem_inv_entry [OF assms(1) x(1)] mem_inv_entry [OF assms(1) x'(1)] x(3) x'(3) assms(4) by simp
  then show ?thesis using x x' keys by (metis eq_key_imp_eq_value)
qed

section \<open>Properties\<close>

text \<open>
  Property C13. Every operation of the in-memory backend implements its abstract
  counterpart on the table of jobs, whatever the order in which Go iterates over the map: a claim
  advances, a retry pulls back, a registration inserts or updates, a run is appended; unknown ids are
  reported, and the invariant is kept.
\<close>

theorem memory_refines_table:
  assumes "range_order rng" "mem_inv m"
  shows "(case mem_ClaimJob rng m i t of (m', r) \<Rightarrow>
      mem_inv m' \<and> mem_table m' = advance (mem_table m) i t \<and> mem_runs m' = mem_runs m \<and>
      r = (if i \<in> dom (mem_table m) then Inr (claimable (mem_table m) i t) else Inl ErrJobNotFound)) \<and>
    (case mem_ScheduleRetry rng m i t of (m', e) \<Rightarrow>
      mem_inv m' \<and> mem_table m' = pull_back (mem_table m) i t \<and> mem_runs m' = mem_runs m \<and>
      e = (if i \<in> dom (mem_table m) then None else Some ErrJobNotFound)) \<and>
    (case mem_EnsureJob m (Some j) t of (m', r) \<Rightarrow>
      mem_inv m' \<and> mem_runs m' = mem_runs m \<and> (\<exists>k. r = Inr k \<and> registered (mem_table m) j t k (mem_table m'))) \<and>
    (case mem_RecordRun m t run of (m', e) \<Rightarrow>
      mem_inv m' \<and> mem_table m' = mem_table m \<and> mem_runs m' = mem_runs m @ [fill_run t run] \<and> e = None)"
proof (intro conjI)
  show "case mem_ClaimJob rng m i t of (m', r) \<Rightarrow>
      mem_inv m' \<and> mem_table m' = advance (mem_table m) i t \<and> mem_runs m' = mem_runs m \<and>
      r = (if i \<in> dom (mem_table m) then Inr (claimable (mem_table m) i t) else Inl ErrJobNotFound)"
    by (rule mem_ClaimJob_cases [OF assms, of i t])
      (use assms(2) advance_idle [of "mem_table m" i t] in \<open>auto simp: claimable_def split: option.splits\<close>)
  show "case mem_ScheduleRetry rng m i t of (m', e) \<Rightarrow>
      mem_inv m' \<and> mem_table m' = pull_back (mem_table m) i t \<and> mem_runs m' = mem_runs m \<and>
      e = (if i \<in> dom (mem_table m) then None else Some ErrJobNotFound)"
    by (rule mem_ScheduleRetry_cases [OF assms, of i t])
      (use assms(2) in \<open>auto simp: pull_back_def split: option.splits\<close>)
  show "case mem_EnsureJob m (Some j) t of (m', r) \<Rightarrow>
      mem_inv m' \<and> mem_runs m' = mem_runs m \<and> (\<exists>k. r = Inr k \<and> registered (mem_table m) j t k (mem_table m'))"
    by (rule mem_EnsureJob_law [OF assms(2), of j t]) auto
  show "case mem_RecordRun m t run of (m', e) \<Rightarrow>
      mem_inv m' \<and> mem_table m' = mem_table m \<and> mem_runs m' = mem_runs m @ [fill_run t run] \<and> e = None"
    using assms(2) by (simp add: mem_RecordRun_def)
qed

text \<open>A storage with three jobs, one of which is not yet due at instant 5.\<close>

definition three_jobs :: MemoryStorage where
  "three_jobs =
     \<lparr>mem_jobs = map (\<lambda>(n, k, t). (n, \<lparr>mj_ID = mem_id k, mj_Name = n, mj_NextFireTime = t, mj_Schedule = ''10s'',
          mj_ScheduleKind = ''every'', mj_Locked = False\<rparr>)) [(''b'', 1, 5), (''c'', 2, 9), (''a'', 3, 5)],
      mem_runs = [], mem_next = 3\<rparr>"

lemma three_jobs_inv: "mem_inv three_jobs"
  by (simp add: mem_inv_def three_jobs_def mem_id_inj)

theorem memory_refines_table_witness:
  "snd (mem_ClaimJob rev three_jobs (mem_id 1) 8) = Inr True \<and> snd (mem_ClaimJob rev three_jobs (mem_id 2) 8) = Inr False \<and>
   snd (mem_ClaimJob rev three_jobs ''mem-job-9'' 8) = Inl ErrJobNotFound"
proof -
  have ids: "mem_id 1 = ''mem-job-1''" "mem_id 2 = ''mem-job-2''" "mem_id 3 = ''mem-job-3''" by code_simp+
  note claim = memory_refines_table [OF range_order_rev three_jobs_inv, THEN conjunct1]
  show ?thesis
    using claim [of "mem_id 1" 8] claim [of "mem_id 2" 8] claim [of "''mem-job-9''" 8] unfolding ids
    by (simp add: case_prod_beta three_jobs_def mem_table_def mem_row_def claimable_def ids dom_def)
qed

text \<open>
  Property C14. The fetch of the in-memory backend, with its hand-written insertion
  sort over an unordered map, returns the due jobs sorted by fire time and then name, cut at the
  limit (32 when the limit is not positive), independent of the map's order.
\<close>

theorem memory_fetch_sorted:
  assumes "range_order rng" "mem_inv m"
  shows "mem_FetchDue rng m now limit =
    (m, Inr (take (nat (if limit \<le> 0 then 32 else limit))
      (sort_key (\<lambda>d. Fire_key (dj_NextFireTime d) (dj_Name d))
        (map mem_due (filter (\<lambda>j. mj_NextFireTime j \<le> now) (map snd (mem_jobs m)))))))"
proof -
  have key: "(\<lambda>d. Fire_key (dj_NextFireTime d) (dj_Name d)) = due_key" by (simp add: fun_eq_iff due_key_def)
  have "mem_dues (\<lambda>xs. xs) m now = map mem_due (filter (\<lambda>j. mj_NextFireTime j \<le> now) (map snd (mem_jobs m)))"
    by (simp add: mem_dues_def not_less)
  then show ?thesis
    unfolding key by (simp add: mem_FetchDue_eq mem_FetchDue_order_free [OF assms] effective_limit_def)
qed

theorem memory_fetch_sorted_witness:
  "\<exists>ds. mem_FetchDue rev three_jobs 5 0 = (three_jobs, Inr ds) \<and> map dj_Name ds = [''a'', ''b'']"
  unfolding memory_fetch_sorted [OF range_order_rev three_jobs_inv]
  by (simp add: three_jobs_def mem_due_def less_le_not_le)

text \<open>
  Property C22. From an empty storage, whatever operations are called in whatever order:
  ids stay unique and come from the counter, every job is stored under its own name, and no job is
  ever locked.
\<close>

theorem memory_invariant:
  assumes "range_order rng"
  shows "mem_inv (fold (storage_step (MemoryStorage_ops rng)) calls NewMemoryStorage)"
  using storage_contract.steps_keep [OF mem_contract [OF assms] mem_inv_New] by blast

theorem memory_invariant_witness:
  "let j = \<lparr>job_Name = ''a'', job_Schedule = At 9, job_Handler = (\<lambda>_. Returns None), job_Options = zero_JobOptions\<rparr>;
       m = fold (storage_step (MemoryStorage_ops rev))
         [Call_EnsureJob (Some j) 3, Call_EnsureJob (Some (j\<lparr>job_Name := ''b''\<rparr>)) 4, Call_ClaimJob (mem_id 1) 7] NewMemoryStorage
   in mem_inv m \<and> map fst (mem_jobs m) = [''a'', ''b'']"
proof -
  let ?j = "\<lparr>job_Name = ''a'', job_Schedule = At 9, job_Handler = (\<lambda>_. Returns None), job_Options = zero_JobOptions\<rparr>"
  let ?calls = "[Call_EnsureJob (Some ?j) 3, Call_EnsureJob (Some (?j\<lparr>job_Name := ''b''\<rparr>)) 4, Call_ClaimJob (mem_id 1) 7]"
  have "mem_id 1 = ''mem-job-1''" "mem_id 2 = ''mem-job-2''" by code_simp+
  then have "map fst (mem_jobs (fold (storage_step (MemoryStorage_ops rev)) ?calls NewMemoryStorage)) = [''a'', ''b'']"
    by (simp add: MemoryStorage_ops_def mem_EnsureJob_def mem_ClaimJob_def NewMemoryStorage_def Let_def)
  with memory_invariant [OF range_order_rev, of ?calls] show ?thesis by (simp only: Let_def)
qed

text \<open>
  Once a job is registered, registering its name again, with whatever
  schedule and after whatever operations, returns the same id and keeps the row's fire time.
\<close>

theorem ensure_stable_id:
  assumes "range_order rng" "mem_inv m" "mem_EnsureJob m (Some j) t = (m1, Inr i)"
    and "m2 = fold (storage_step (MemoryStorage_ops rng)) calls m1" "job_Name j' = job_Name j" "mem_EnsureJob m2 (Some j') t' = (m3, r)"
  shows "r = Inr i \<and> (\<exists>row row'. mem_table m2 i = Some row \<and> mem_table m3 i = Some row' \<and> row_NextFire row' = row_NextFire row)"
proof -
  have m1: "mem_inv m1" "\<exists>row. mem_table m1 i = Some row \<and> row_Name row = job_Name j"
    by (rule mem_EnsureJob_law [OF assms(2), of j t], use assms(3) in \<open>auto simp: registered_def split: option.splits\<close>)+
  have m2: "mem_inv m2" "names_kept (mem_table m1) (mem_table m2)"
    using storage_contract.steps_keep [OF mem_contract [OF assms(1)] m1(1)] assms(4) by auto
  then obtain row where row: "mem_table m2 i = Some row" "row_Name row = job_Name j'"
    using m1(2) assms(5) unfolding names_kept_def by metis
  obtain k where k: "r = Inr k" "registered (mem_table m2) j' t' k (mem_table m3)"
    by (rule mem_EnsureJob_law [OF m2(1), of j' t']) (use assms(6) in auto)
  have "k = i"
  proof (cases "mem_table m2 k")
    case None
    then have "row \<notin> ran (mem_table m2)" using k(2) row(2) by (auto simp: registered_def)
    then show ?thesis using row(1) by (simp add: ranI)
  next
    case (Some row')
    then have "row_Name row' = row_Name row" using k(2) row(2) by (simp add: registered_def)
    then show ?thesis using mem_names_unique [OF m2(1) Some row(1)] by simp
  qed
  with k row show ?thesis by (auto simp: registered_def)
qed

theorem ensure_stable_id_witness:
  "let j = \<lparr>job_Name = ''a'', job_Schedule = At 9, job_Handler = (\<lambda>_. Returns None), job_Options = zero_JobOptions\<rparr>;
       m1 = fst (mem_EnsureJob NewMemoryStorage (Some j) 9)
   in snd (mem_EnsureJob m1 (Some (j\<lparr>job_Schedule := At 20\<rparr>)) 20) = Inr (mem_id 1)"
proof -
  let ?j = "\<lparr>job_Name = ''a'', job_Schedule = At 9, job_Handler = (\<lambda>_. Returns None), job_Options = zero_JobOptions\<rparr>"
  let ?m1 = "fst (mem_EnsureJob NewMemoryStorage (Some ?j) 9)"
  obtain m3 r where m3: "mem_EnsureJob ?m1 (Some (?j\<lparr>job_Schedule := At 20\<rparr>)) 20 = (m3, r)" by fastforce
  have "mem_EnsureJob NewMemoryStorage (Some ?j) 9 = (?m1, Inr (mem_id 1))"
    by (simp add: mem_EnsureJob_def NewMemoryStorage_def Let_def)
  from ensure_stable_id [OF range_order_id mem_inv_New this, of ?m1 "[]", OF _ _ m3] m3 show ?thesis by simp
qed

end
