(* ===== verification/Dispatcher_Correctness.thy ===== *)
theory Dispatcher_Correctness
  imports Sundial_Dispatcher Memory_Storage "HOL-Library.Sublist"
begin

text \<open>
  What the dispatcher does to a storage, proved once for every storage that keeps the contract of
  \<open>Sundial_Storage\<close> (the two \<open>context\<close> blocks), and the properties of the dispatcher on the
  in-memory backend, for every iteration order of its map.
\<close>

section \<open>Executions on a storage that keeps the contract\<close>

lemma fill_run_fields [simp]:
  "rr_JobID (fill_run now r) = rr_JobID r" "rr_FireTime (fill_run now r) = rr_FireTime r"
  "rr_NodeID (fill_run now r) = rr_NodeID r" "rr_Outcome (fill_run now r) = rr_Outcome r"
  "rr_Error (fill_run now r) = rr_Error r"
  by (simp_all add: fill_run_def Let_def)

lemma exec_run_fields [simp]:
  "rr_JobID (exec_run D env job dj n e) = dj_ID dj" "rr_FireTime (exec_run D env job dj n e) = dj_NextFireTime dj"
  "rr_Outcome (exec_run D env job dj n e) = exec_outcome job n e" "rr_Attempt (exec_run D env job dj n e) = n"
  by (simp_all add: exec_run_def)

text \<open>A row that only moved back in time, as after retries.\<close>

definition pulled :: "string \<Rightarrow> jobtable \<Rightarrow> jobtable \<Rightarrow> bool" where
  "pulled i T T' \<longleftrightarrow>
     dom T' = dom T \<and> (\<forall>k. k \<noteq> i \<longrightarrow> T' k = T k) \<and>
     (\<forall>r. T i = Some r \<longrightarrow> (\<exists>t \<le> row_NextFire r. T' i = Some (r\<lparr>row_NextFire := t\<rparr>)))"

lemma pulled_refl: "pulled i T T"
  by (force simp: pulled_def)

lemma pulled_pull_back: "pulled i T (pull_back T i t)"
  unfolding pulled_def by (auto simp: pull_back_apply) (metis min.cobounded1)

lemma pulled_trans:
  assumes "pulled i T T'" "pulled i T' T''"
  shows "pulled i T T''"
proof -
  have "\<exists>t \<le> row_NextFire r. T'' i = Some (r\<lparr>row_NextFire := t\<rparr>)" if r: "T i = Some r" for r
  proof -
    obtain t where t: "t \<le> row_NextFire r" "T' i = Some (r\<lparr>row_NextFire := t\<rparr>)"
      using assms(1) r by (auto simp: pulled_def)
    then obtain t' where "t' \<le> t" "T'' i = Some (r\<lparr>row_NextFire := t\<rparr>\<lparr>row_NextFire := t'\<rparr>)"
      using assms(2) by (auto simp: pulled_def)
    with t(1) show ?thesis by (intro exI [of _ t']) simp
  qed
  with assms show ?thesis by (simp add: pulled_def)
qed

lemma pulled_advance:
  "pulled i T T' \<Longrightarrow> T i = Some r \<Longrightarrow> row_NextFire r < t \<Longrightarrow> advance T' i t = T(i \<mapsto> r\<lparr>row_NextFire := t\<rparr>)"
  by (force simp: pulled_def fun_eq_iff advance_apply)

context storage_contract begin

lemma exec_storage_law:
  assumes "d_storage D = S" "inv s"
    and s'_def: "s' = exec_storage D env parent job dj n s" and err_def: "err = exec_error env parent job"
  shows "inv s' \<and> pulled (dj_ID dj) (table s) (table s') \<and> (\<not> exec_retried job n err \<longrightarrow> table s' = table s) \<and>
    (runs s' = runs s \<or> runs s' = runs s @ [run_ts ts (fill_run (ev_recordNow env) (exec_run D env job dj n err))])"
proof -
  let ?s1 = "if exec_retried job n err then fst (ScheduleRetry S s (dj_ID dj) (exec_retryAt D env job n)) else s"
  obtain s1 e1 where r: "ScheduleRetry S s (dj_ID dj) (exec_retryAt D env job n) = (s1, e1)" by fastforce
  obtain s2 e2 where w: "RecordRun S ?s1 (ev_recordNow env) (exec_run D env job dj n err) = (s2, e2)" by fastforce
  have s1: "inv ?s1 \<and> runs ?s1 = runs s \<and> pulled (dj_ID dj) (table s) (table ?s1) \<and>
      (\<not> exec_retried job n err \<longrightarrow> table ?s1 = table s)"
    using retry_law [OF assms(2) r] assms(2) r by (auto simp: pulled_refl pulled_pull_back)
  have "s' = s2"
    unfolding s'_def exec_storage_def Let_def assms(1) err_def [symmetric] w by simp
  with s1 record_law [OF _ w] show ?thesis by auto
qed

end

context reliable_storage begin

lemma exec_storage_reliable:
  assumes "d_storage D = S" "inv s" "dj_ID dj \<in> dom (table s)"
    and s'_def: "s' = exec_storage D env parent job dj n s" and err_def: "err = exec_error env parent job"
  shows "inv s' \<and>
    table s' = (if exec_retried job n err then pull_back (table s) (dj_ID dj) (ts (exec_retryAt D env job n)) else table s) \<and>
    runs s' = runs s @ [run_ts ts (fill_run (ev_recordNow env) (exec_run D env job dj n err))]"
proof -
  let ?s1 = "if exec_retried job n err then fst (ScheduleRetry S s (dj_ID dj) (exec_retryAt D env job n)) else s"
  obtain s1 e1 where r: "ScheduleRetry S s (dj_ID dj) (exec_retryAt D env job n) = (s1, e1)" by fastforce
  obtain s2 e2 where w: "RecordRun S ?s1 (ev_recordNow env) (exec_run D env job dj n err) = (s2, e2)" by fastforce
  have "e1 = None" using retry_reliable [OF assms(2,3)] r by (metis snd_conv)
  then have s1: "inv ?s1 \<and> runs ?s1 = runs s \<and>
      table ?s1 = (if exec_retried job n err then pull_back (table s) (dj_ID dj) (ts (exec_retryAt D env job n)) else table s)"
    using retry_law [OF assms(2) r] assms(2) r by auto
  then have "e2 = None" using record_reliable [of ?s1] w by (metis snd_conv)
  moreover have "s' = s2"
    unfolding s'_def exec_storage_def Let_def assms(1) err_def [symmetric] w by simp
  ultimately show ?thesis using s1 record_law [OF _ w] by simp
qed

lemma replay_law:
  assumes "d_storage D = S" "inv (st_storage st)" "dj_ID dj \<in> dom (table (st_storage st))"
    and st'_def: "st' = replay D envs parent job dj k fires st"
  shows "inv (st_storage st') \<and> pulled (dj_ID dj) (table (st_storage st)) (table (st_storage st')) \<and>
    (\<exists>rs. runs (st_storage st') = runs (st_storage st) @ rs \<and> map rr_FireTime rs = map ts fires \<and>
       (\<forall>r \<in> set rs. rr_JobID r = dj_ID dj))"
  using assms(2,3) unfolding st'_def
proof (induction fires arbitrary: k st)
  case Nil
  then show ?case by (simp add: pulled_refl)
next
  case (Cons f fires)
  let ?dj = "dj\<lparr>dj_NextFireTime := f\<rparr>"
  let ?st = "executeAtFire D (envs k) parent job ?dj st"
  let ?r = "run_ts ts (fill_run (ev_recordNow (envs k))
    (exec_run D (envs k) job ?dj (exec_attempt st ?dj) (exec_error (envs k) parent job)))"
  have step: "inv (st_storage ?st)" "pulled (dj_ID dj) (table (st_storage st)) (table (st_storage ?st))"
    "runs (st_storage ?st) = runs (st_storage st) @ [?r]"
    using exec_storage_reliable [OF assms(1) Cons.prems(1) _ refl refl, of ?dj "envs k" parent job "exec_attempt st ?dj"] Cons.prems(2)
    by (auto simp: pulled_refl pulled_pull_back)
  then have "dj_ID dj \<in> dom (table (st_storage ?st))" using Cons.prems(2) by (simp add: pulled_def)
  from Cons.IH [OF step(1) this, of "Suc k"] obtain rs where
    IH: "inv (st_storage (replay D envs parent job dj (Suc k) fires ?st))"
      "pulled (dj_ID dj) (table (st_storage ?st)) (table (st_storage (replay D envs parent job dj (Suc k) fires ?st)))"
      "runs (st_storage (replay D envs parent job dj (Suc k) fires ?st)) = runs (st_storage ?st) @ rs"
      "map rr_FireTime rs = map ts fires" "\<forall>r \<in> set rs. rr_JobID r = dj_ID dj"
    by blast
  show ?case
    using IH step pulled_trans [OF step(2) IH(2)] by (auto intro!: exI [of _ "?r # rs"])
qed

end

lemma replay_frame:
  "st_inFlight (replay D envs parent job dj k fires st) = st_inFlight st"
  "st_spawned (replay D envs parent job dj k fires st) = st_spawned st"
  "st_leader (replay D envs parent job dj k fires st) = st_leader st"
  "map (dj_NextFireTime \<circ> fst) (st_calls (replay D envs parent job dj k fires st)) =
     map (dj_NextFireTime \<circ> fst) (st_calls st) @ fires"
  "map (dj_ID \<circ> fst) (st_calls (replay D envs parent job dj k fires st)) =
     map (dj_ID \<circ> fst) (st_calls st) @ replicate (length fires) (dj_ID dj)"
  by (induction fires arbitrary: k st) simp_all

lemma runAllMissed_frame:
  "st_inFlight (runAllMissed D envs parent job dj now st) = st_inFlight st"
  "st_spawned (runAllMissed D envs parent job dj now st) = st_spawned st"
  "st_leader (runAllMissed D envs parent job dj now st) = st_leader st"
  by (auto simp: runAllMissed_def Let_def case_prod_beta replay_frame split: sum.splits)

text \<open>A dispatch adds at most one goroutine, for the job it was given.\<close>

lemma maybeDispatch_spawns:
  obtains (none) "st_spawned (maybeDispatch D envs ctx dj now st) = st_spawned st"
      "st_inFlight (maybeDispatch D envs ctx dj now st) = st_inFlight st"
  | (one) job t where "decide D st dj now = Claim job t"
      "snd (ClaimJob (d_storage D) (st_storage st) (dj_ID dj) t) = Inr True"
      "st_spawned (maybeDispatch D envs ctx dj now st) = st_spawned st @ [(job, dj, t)]"
      "st_inFlight (maybeDispatch D envs ctx dj now st) = st_inFlight st + 1"
proof (cases "decide D st dj now")
  case Ignore
  then show ?thesis using decide_IgnoreD [OF Ignore, of envs ctx] by (intro none) auto
next
  case (Skip_to t)
  then show ?thesis using decide_Skip_toD [OF Skip_to, of envs ctx] by (intro none) auto
next
  case (Replay job)
  then show ?thesis by (intro none) (simp_all add: decide_ReplayD runAllMissed_frame)
next
  case (Claim job t)
  show ?thesis
  proof (cases "snd (ClaimJob (d_storage D) (st_storage st) (dj_ID dj) t) = Inr True")
    case True
    then show ?thesis
      using Claim decide_ClaimD [OF Claim, of envs ctx] by (intro one) auto
  next
    case False
    then show ?thesis using decide_ClaimD [OF Claim, of envs ctx] by (intro none) auto
  qed
qed

lemma maybeDispatch_leader: "st_leader (maybeDispatch D envs ctx dj now st) = st_leader st"
proof (cases "decide D st dj now")
  case Ignore
  then show ?thesis using decide_IgnoreD [OF Ignore, of envs ctx] by auto
next
  case (Skip_to t)
  then show ?thesis using decide_Skip_toD [OF Skip_to, of envs ctx] by auto
next
  case (Replay job)
  then show ?thesis by (simp add: decide_ReplayD runAllMissed_frame)
next
  case (Claim job t)
  then show ?thesis
    using decide_ClaimD [OF Claim, of envs ctx] by (auto split: if_splits)
qed

text \<open>Nothing but the role of leader makes a decision depend on the state.\<close>

lemma decide_leader:
  assumes "st_leader st' = st_leader st"
  shows "decide D st' dj now = decide D st dj now"
proof -
  have "follower D st' = follower D st" using assms by (simp add: follower_def split: option.splits)
  then show ?thesis by (simp only: decide_def)
qed

context storage_contract begin

lemma replay_keeps:
  assumes "d_storage D = S" "inv (st_storage st)" "st' = replay D envs parent job dj k fires st"
  shows "inv (st_storage st') \<and> pulled (dj_ID dj) (table (st_storage st)) (table (st_storage st'))"
  using assms(2) unfolding assms(3)
proof (induction fires arbitrary: k st)
  case Nil
  then show ?case by (simp add: pulled_refl)
next
  case (Cons f fires)
  let ?dj = "dj\<lparr>dj_NextFireTime := f\<rparr>"
  let ?st = "executeAtFire D (envs k) parent job ?dj st"
  have "inv (st_storage ?st)" "pulled (dj_ID dj) (table (st_storage st)) (table (st_storage ?st))"
    using exec_storage_law [OF assms(1) Cons.prems refl refl, of "envs k" parent job ?dj "exec_attempt st ?dj"] by auto
  with Cons.IH [of ?st "Suc k"] show ?case by (auto intro: pulled_trans)
qed

text \<open>Replaying touches no row but the job's own.\<close>

definition touches :: "string \<Rightarrow> 's \<Rightarrow> 's \<Rightarrow> bool" where
  "touches i s s' \<longleftrightarrow> inv s' \<and> dom (table s') = dom (table s) \<and> (\<forall>k. k \<noteq> i \<longrightarrow> table s' k = table s k)"

lemma touches_claim: "inv s \<Longrightarrow> touches i s (fst (ClaimJob S s i t))"
  using claim_law [of s i t] claim_dom [of s i t]
  by (cases "ClaimJob S s i t") (auto simp: touches_def advance_apply fun_eq_iff)

lemma touches_trans: "touches i s s' \<Longrightarrow> touches i s' s'' \<Longrightarrow> touches i s s''"
  by (simp add: touches_def)

lemma runAllMissed_touches:
  assumes "d_storage D = S" "inv (st_storage st)"
  shows "touches (dj_ID dj) (st_storage st) (st_storage (runAllMissed D envs parent job dj now st))"
proof (cases "loadScheduleFromDue (d_cron D) dj")
  case (Inl e)
  then show ?thesis using assms(2) by (simp add: runAllMissed_def touches_def)
next
  case (Inr sched)
  let ?fires = "iterateSchedule (Some sched) (dj_NextFireTime dj) now maxCatchupInstants"
  have one: "touches (dj_ID dj) (st_storage st) (st_storage (executeAtFire D (envs 0) parent job dj st))"
    using exec_storage_law [OF assms refl refl, of "envs 0" parent job dj "exec_attempt st dj"]
    by (auto simp: touches_def pulled_def)
  define st1 where "st1 = replay D envs parent job dj 0 ?fires (logging Log_Info ''missed fire RunAll replay'' (dj_Name dj) st)"
  have many: "touches (dj_ID dj) (st_storage st) (st_storage st1)"
    using replay_keeps [OF assms(1) _ st1_def] assms(2) by (auto simp: touches_def pulled_def)
  then have claim: "touches (dj_ID dj) (st_storage st) (fst (ClaimJob S (st_storage st1) (dj_ID dj) t))" for t
    using touches_claim touches_trans by (metis touches_def)
  show ?thesis
    using Inr one many claim assms(1)
    by (auto simp: runAllMissed_def Let_def st1_def [symmetric] case_prod_beta split: sum.splits)
qed

lemma maybeDispatch_touches:
  assumes "d_storage D = S" "inv (st_storage st)"
  shows "touches (dj_ID dj) (st_storage st) (st_storage (maybeDispatch D envs ctx dj now st))"
proof (cases "decide D st dj now")
  case Ignore
  then show ?thesis using decide_IgnoreD [OF Ignore, of envs ctx] assms(2) by (auto simp: touches_def)
next
  case (Skip_to t)
  then show ?thesis
    using decide_Skip_toD [OF Skip_to, of envs ctx] touches_claim [OF assms(2)] assms(1) by auto
next
  case (Replay job)
  then show ?thesis using runAllMissed_touches [OF assms] by (simp add: decide_ReplayD)
next
  case (Claim job t)
  then show ?thesis
    using decide_ClaimD [OF Claim, of envs ctx] touches_claim [OF assms(2)] assms(1) by (auto split: if_splits)
qed

end

section \<open>The tick\<close>

text \<open>The goroutines a tick starts: in the order of the fetch, each for a decision to claim.\<close>

lemma dispatch_all_spawns:
  "\<exists>new. st_spawned (dispatch_all D envs ctx now k due st) = st_spawned st @ new \<and>
     subseq (map (fst \<circ> snd) new) due \<and>
     (\<forall>(job, dj, t) \<in> set new. decide D st dj now = Claim job t) \<and>
     st_inFlight (dispatch_all D envs ctx now k due st) = st_inFlight st + int (length new)"
proof (induction due arbitrary: k st)
  case Nil
  show ?case by simp
next
  case (Cons dj due)
  let ?st = "maybeDispatch D (envs k) ctx dj now st"
  have same: "decide D ?st d now = decide D st d now" for d
    by (rule decide_leader) (rule maybeDispatch_leader)
  from Cons.IH [of "Suc k" ?st] obtain new where
    new: "st_spawned (dispatch_all D envs ctx now (Suc k) due ?st) = st_spawned ?st @ new"
      "subseq (map (fst \<circ> snd) new) due" "\<forall>(job, dj, t) \<in> set new. decide D st dj now = Claim job t"
      "st_inFlight (dispatch_all D envs ctx now (Suc k) due ?st) = st_inFlight ?st + int (length new)"
    unfolding same by blast
  show ?case
  proof (cases rule: maybeDispatch_spawns [where D = D and envs = "envs k" and ctx = ctx and dj = dj and now = now and st = st])
    case none
    with new show ?thesis by (intro exI [of _ new]) (auto simp: comp_def)
  next
    case (one job t)
    with new show ?thesis by (intro exI [of _ "(job, dj, t) # new"]) (auto simp: comp_def)
  qed
qed

context storage_contract begin

lemma dispatch_all_untouched:
  assumes "d_storage D = S" "inv (st_storage st)" "i \<notin> dj_ID ` set due"
  shows "inv (st_storage (dispatch_all D envs ctx now k due st)) \<and>
    dom (table (st_storage (dispatch_all D envs ctx now k due st))) = dom (table (st_storage st)) \<and>
    table (st_storage (dispatch_all D envs ctx now k due st)) i = table (st_storage st) i"
  using assms(2,3)
proof (induction due arbitrary: k st)
  case Nil
  then show ?case by simp
next
  case (Cons dj due)
  show ?case
    using maybeDispatch_touches [OF assms(1) Cons.prems(1), of dj "envs k" ctx now] Cons.prems(2)
      Cons.IH [of "maybeDispatch D (envs k) ctx dj now st" "Suc k"]
    by (auto simp: touches_def)
qed

end

context reliable_storage begin

text \<open>A job the fetch returned is claimed when its turn comes: only its own dispatch moves its row.\<close>

lemma dispatch_all_claims:
  assumes "d_storage D = S" "inv (st_storage st)" "distinct (map dj_ID due)" "dj \<in> set due"
    and "decide D st dj now = Claim job t" "claimable (table (st_storage st)) (dj_ID dj) (ts t)"
  shows "(\<exists>new. st_spawned (dispatch_all D envs ctx now k due st) = st_spawned st @ new \<and> (job, dj, t) \<in> set new) \<and>
    table (st_storage (dispatch_all D envs ctx now k due st)) (dj_ID dj) =
      advance (table (st_storage st)) (dj_ID dj) (ts t) (dj_ID dj)"
  using assms(2-6)
proof (induction due arbitrary: k st)
  case Nil
  then show ?case by simp
next
  case (Cons d due)
  let ?st = "maybeDispatch D (envs k) ctx d now st"
  have t: "touches (dj_ID d) (st_storage st) (st_storage ?st)"
    using maybeDispatch_touches [OF assms(1) Cons.prems(1)] .
  show ?case
  proof (cases "d = dj")
    case True
    obtain s r where c: "ClaimJob S (st_storage st) (dj_ID dj) t = (s, r)" by fastforce
    have "dj_ID dj \<in> dom (table (st_storage st))" using Cons.prems(5) by (auto simp: claimable_def split: option.splits)
    then have r: "r = Inr True" using claim_reliable [OF Cons.prems(1) c] Cons.prems(5) by simp
    have st: "st_spawned ?st = st_spawned st @ [(job, dj, t)]" "st_storage ?st = s"
      using decide_ClaimD [OF Cons.prems(4), of "envs k" ctx] True c r assms(1) by auto
    obtain new where "st_spawned (dispatch_all D envs ctx now (Suc k) due ?st) = st_spawned ?st @ new"
      using dispatch_all_spawns [of D envs ctx now "Suc k" due ?st] by blast
    moreover have "dj_ID dj \<notin> dj_ID ` set due" using Cons.prems(2) True by auto
    ultimately show ?thesis
      using st t claim_law [OF Cons.prems(1) c] r dispatch_all_untouched [OF assms(1), of ?st "dj_ID dj" due envs ctx now "Suc k"]
      by (simp add: touches_def)
  next
    case False
    then have dj: "dj \<in> set due" using Cons.prems(3) by simp
    then have ne: "dj_ID dj \<noteq> dj_ID d" using Cons.prems(2) by (metis distinct.simps(2) imageI list.simps(9) set_map)
    then have same: "table (st_storage ?st) (dj_ID dj) = table (st_storage st) (dj_ID dj)"
      using t by (simp add: touches_def)
    moreover have "claimable (table (st_storage ?st)) (dj_ID dj) (ts t)"
      using Cons.prems(5) same by (simp add: claimable_def)
    moreover have "decide D ?st dj now = Claim job t"
      unfolding Cons.prems(4) [symmetric] by (rule decide_leader) (rule maybeDispatch_leader)
    moreover obtain xs where "st_spawned ?st = st_spawned st @ xs"
      by (cases rule: maybeDispatch_spawns [of D "envs k" ctx d now st]) auto
    ultimately show ?thesis
      using Cons.IH [of ?st "Suc k"] t Cons.prems(2) dj by (auto simp: touches_def advance_apply)
  qed
qed

text \<open>The liveness of one tick.\<close>

lemma tick_claims:
  assumes "d_storage D = S" "inv (st_storage st)" "snd (FetchDue S (st_storage st) now 64) = Inr due" "dj \<in> set due"
    and "decide D st dj now = Claim job t" "ts now < ts t"
  shows "(\<exists>new. st_spawned (tick D envs ctx now st) = st_spawned st @ new \<and> (job, dj, t) \<in> set new) \<and>
    (\<exists>r. table (st_storage (tick D envs ctx now st)) (dj_ID dj) = Some r \<and> row_NextFire r = ts t)"
proof -
  obtain s where f: "FetchDue S (st_storage st) now 64 = (s, Inr due)"
    using assms(3) by (metis prod.collapse)
  have s: "inv s" "table s = table (st_storage st)" "due_snapshot (table (st_storage st)) (ts now) 64 due"
    using fetch_law [OF assms(2) f] by auto
  let ?st = "st\<lparr>st_storage := s\<rparr>"
  obtain row where row: "table s (dj_ID dj) = Some row" "row_NextFire row \<le> ts now"
    using s assms(4) by (auto simp: due_snapshot_def)
  have "decide D ?st dj now = Claim job t" unfolding assms(5) [symmetric] by (rule decide_leader) simp
  moreover have "claimable (table s) (dj_ID dj) (ts t)" using row assms(6) by (simp add: claimable_def)
  moreover have "distinct (map dj_ID due)" using s(3) by (simp add: due_snapshot_def)
  ultimately have all: "(\<exists>new. st_spawned (dispatch_all D envs ctx now 0 due ?st) = st_spawned st @ new \<and> (job, dj, t) \<in> set new) \<and>
      table (st_storage (dispatch_all D envs ctx now 0 due ?st)) (dj_ID dj) = advance (table s) (dj_ID dj) (ts t) (dj_ID dj)"
    using dispatch_all_claims [OF assms(1), of ?st due dj now job t envs ctx 0] s(1) assms(4) by simp
  have "tick D envs ctx now st = dispatch_all D envs ctx now 0 due ?st"
    using f assms(1) by (simp add: tick_def)
  with all row assms(6) show ?thesis by (simp add: advance_apply)
qed

end

end
