(* ===== verification/Dispatcher_Properties.thy ===== *)
theory Dispatcher_Properties
  imports Dispatcher_Correctness
begin

text \<open>
  The properties of the dispatcher on the in-memory backend. The first section is a small
  concrete deployment (one job that runs every ten seconds), on which the witnesses instantiate
  the properties.
\<close>

section \<open>A concrete deployment\<close>

definition demo_job :: "MissedFirePolicy \<Rightarrow> HandlerFunc \<Rightarrow> Job" where
  "demo_job p h =
     \<lparr>job_Name = ''j'', job_Schedule = intervalSchedule (10 * Second), job_Handler = h,
      job_Options = (withDefaults zero_JobOptions)\<lparr>MissedFire := p\<rparr>\<rparr>"

definition demo_due :: "gotime \<Rightarrow> DueJob" where
  "demo_due t =
     \<lparr>dj_ID = ''mem-job-1'', dj_Name = ''j'', dj_NextFireTime = t, dj_ScheduleExpr = ''10s'', dj_ScheduleKind = ''every''\<rparr>"

definition demo_mem :: "gotime \<Rightarrow> MemoryStorage" where
  "demo_mem t =
     \<lparr>mem_jobs = [(''j'', \<lparr>mj_ID = ''mem-job-1'', mj_Name = ''j'', mj_NextFireTime = t, mj_Schedule = ''10s'',
                          mj_ScheduleKind = ''every'', mj_Locked = False\<rparr>)],
      mem_runs = [], mem_next = 1\<rparr>"

definition demo_D :: "Job \<Rightarrow> (MemoryStorage, MemoryLeader) dispatcher" where
  "demo_D job =
     \<lparr>d_scheduler = empty_scheduler\<lparr>sc_jobs := [(job_Name job, job)]\<rparr>, d_storage = MemoryStorage_ops (\<lambda>xs. xs),
      d_leader = None, d_telemetry = newTelemetry None, d_cron = (\<lambda>expr. Inl ''no parser''), d_oor = (\<lambda>x. 0)\<rparr>"

definition demo_st :: "MemoryStorage \<Rightarrow> (MemoryStorage, MemoryLeader) dstate" where
  "demo_st m =
     \<lparr>st_storage = m, st_leader = NewMemoryLeader, st_attempts = Map.empty, st_inFlight = 0, st_spawned = [],
      st_calls = [], st_tel = [], st_log = []\<rparr>"

definition demo_ctx :: Context where
  "demo_ctx = \<lparr>ctx_deadline = None, ctx_call = 0\<rparr>"

definition demo_env :: "gotime \<Rightarrow> exec_env" where
  "demo_env t =
     \<lparr>ev_ctxNow = t, ev_startedAt = t, ev_finishedAt = t + 1, ev_retryNow = t + 2, ev_recordNow = t + 3,
      ev_rand = Finite (1 / 2), ev_call = 0\<rparr>"

lemma demo_registered: "fst (mem_EnsureJob NewMemoryStorage (Some (demo_job p h)) t) = demo_mem t"
proof -
  have "duration_String 10000000000 = ''10s''" "mem_id 1 = ''mem-job-1''" by code_simp+
  then show ?thesis
    by (simp add: mem_EnsureJob_def NewMemoryStorage_def demo_job_def demo_mem_def Let_def duration_units)
qed

lemma demo_inv: "mem_inv (demo_mem t)"
proof -
  have "mem_id 1 = ''mem-job-1''" by code_simp
  then show ?thesis by (simp add: mem_inv_def demo_mem_def)
qed

lemma demo_table: "mem_table (demo_mem t) = [''mem-job-1'' \<mapsto> \<lparr>row_Name = ''j'', row_NextFire = t, row_Expr = ''10s'', row_Kind = ''every''\<rparr>]"
  by (simp add: mem_table_def demo_mem_def mem_row_def)

lemma demo_load: "loadScheduleFromDue parse (demo_due t) = Inr (intervalSchedule (10 * Second))"
proof -
  have "ParseDuration ''10s'' = Some 10000000000" by code_simp
  then show ?thesis by (simp add: loadScheduleFromDue_def demo_due_def Every_def duration_units)
qed

lemma demo_next: "computeNextFire parse (demo_due t) now = Inr (now + 10 * Second)"
  using computeNextFire_load_Inr [OF demo_load] by (simp add: time_Add_def)

lemma demo_fields [simp]:
  "job_Name (demo_job p h) = ''j''" "job_Handler (demo_job p h) = h"
  "MissedFire (job_Options (demo_job p h)) = p" "\<not> LeaderOnly (job_Options (demo_job p h))"
  "Timeout (job_Options (demo_job p h)) = 0" "MaxAttempts (Retry (job_Options (demo_job p h))) = 3"
  "d_storage (demo_D job) = MemoryStorage_ops (\<lambda>xs. xs)" "d_leader (demo_D job) = None"
  "st_storage (demo_st m) = m" "st_attempts (demo_st m) = Map.empty" "st_spawned (demo_st m) = []"
  "st_calls (demo_st m) = []" "mem_runs (demo_mem t) = []"
  "dj_ID (demo_due t) = ''mem-job-1''" "dj_Name (demo_due t) = ''j''" "dj_NextFireTime (demo_due t) = t"
  by (simp_all add: demo_job_def demo_D_def demo_st_def demo_mem_def demo_due_def withDefaults_def zero_JobOptions_def)

lemma demo_lookup [simp]: "lookup (d_scheduler (demo_D (demo_job p h))) ''j'' = Some (demo_job p h)"
  by (simp add: lookup_def demo_D_def)

lemma demo_follower [simp]: "\<not> follower (demo_D job) st"
  by (simp add: follower_def)

lemma demo_missed: "missed (demo_D job) (demo_due t) now \<longleftrightarrow> 3 * Second < time_Sub now t"
  by (simp add: missed_def missThreshold_def demo_D_def empty_scheduler_def duration_units int64_def)

lemma demo_claim:
  "time_Sub now t \<le> 3 * Second \<or> p = MissedFireRunOnce \<Longrightarrow> 0 \<le> now \<Longrightarrow>
     decide (demo_D (demo_job p h)) st (demo_due t) now = Claim (demo_job p h) (now + 10 * Second)"
  by (auto simp: decide_def demo_next demo_missed IsZero_def missed_fire_policies duration_units)

lemma demo_skip:
  "3 * Second < time_Sub now t \<Longrightarrow> 0 \<le> now \<Longrightarrow>
     decide (demo_D (demo_job MissedFireSkip h)) st (demo_due t) now = Skip_to (now + 10 * Second)"
  by (simp add: decide_def demo_next demo_missed IsZero_def duration_units)

lemma demo_replay:
  "3 * Second < time_Sub now t \<Longrightarrow> 0 \<le> now \<Longrightarrow>
     decide (demo_D (demo_job MissedFireRunAll h)) st (demo_due t) now = Replay (demo_job MissedFireRunAll h)"
  by (simp add: decide_def demo_next demo_missed IsZero_def missed_fire_policies duration_units)

section \<open>The regular path\<close>

lemma decide_ClaimI:
  assumes "lookup (d_scheduler D) (dj_Name dj) = Some job" "\<not> LeaderOnly (job_Options job) \<or> \<not> follower D st"
    and "computeNextFire (d_cron D) dj now = Inr t" "t \<noteq> zero_time"
    and "\<not> missed D dj now \<or> MissedFire (job_Options job) = MissedFireRunOnce"
  shows "decide D st dj now = Claim job t"
  using assms by (auto simp: decide_def IsZero_def missed_fire_policies)

text \<open>
  Property C8. A tick starts every job it should: a job the fetch returned, with a
  handler registered on this node, which is not leader-only or whose node is not a follower, whose next fire lies in the
  future, and which is not a missed fire to skip or to replay, is claimed in this tick, a goroutine is started for
  it, and its row moves to the next fire.
\<close>

theorem tick_dispatches_due:
  assumes "range_order rng" "d_storage D = MemoryStorage_ops rng" "mem_inv (st_storage st)"
    and "mem_FetchDue rng (st_storage st) now 64 = (s, Inr due)" "dj \<in> set due"
    and "lookup (d_scheduler D) (dj_Name dj) = Some job" "\<not> LeaderOnly (job_Options job) \<or> \<not> follower D st"
    and "computeNextFire (d_cron D) dj now = Inr t" "0 \<le> now" "now < t"
    and "\<not> missed D dj now \<or> MissedFire (job_Options job) = MissedFireRunOnce"
  shows "(\<exists>new. st_spawned (tick D envs ctx now st) = st_spawned st @ new \<and> (job, dj, t) \<in> set new) \<and>
    (\<exists>r. mem_table (st_storage (tick D envs ctx now st)) (dj_ID dj) = Some r \<and> row_NextFire r = t)"
proof -
  have "decide D st dj now = Claim job t"
    using assms by (intro decide_ClaimI) auto
  with assms show ?thesis
    by (intro reliable_storage.tick_claims [OF mem_reliable [OF assms(1)]]) (auto simp: MemoryStorage_ops_def)
qed

lemma demo_fetch: "t \<le> now \<Longrightarrow> mem_FetchDue (\<lambda>xs. xs) (demo_mem t) now 64 = (demo_mem t, Inr [demo_due t])"
  by (simp add: mem_FetchDue_def demo_mem_def demo_due_def mem_due_def insertion_sort_def)

theorem tick_dispatches_due_witness:
  "(demo_job 0 (\<lambda>_. Returns None), demo_due 100, 101 + 10 * Second) \<in>
     set (st_spawned (tick (demo_D (demo_job 0 (\<lambda>_. Returns None))) (\<lambda>_ _. demo_env 101) demo_ctx 101 (demo_st (demo_mem 100))))"
  using tick_dispatches_due [of "\<lambda>xs. xs" "demo_D (demo_job 0 (\<lambda>_. Returns None))" "demo_st (demo_mem 100)" 101
      "demo_mem 100" "[demo_due 100]" "demo_due 100" "demo_job 0 (\<lambda>_. Returns None)" "101 + 10 * Second" "\<lambda>_ _. demo_env 101" demo_ctx]
  by (simp add: demo_inv demo_fetch demo_next missed_fire_policies duration_units)

text \<open>
  Whatever the backend's map order, the goroutines a tick starts are in
  the order of the jobs' fire times, one per job, each for a job that was due and that has a handler
  on this node, and the wait group counts exactly these.
\<close>

theorem tick_oldest_first:
  assumes "range_order rng" "d_storage D = MemoryStorage_ops rng" "mem_inv (st_storage st)"
  shows "\<exists>new. st_spawned (tick D envs ctx now st) = st_spawned st @ new \<and>
    st_inFlight (tick D envs ctx now st) = st_inFlight st + int (length new) \<and>
    sorted (map (\<lambda>(job, dj, t). dj_NextFireTime dj) new) \<and> distinct (map (\<lambda>(job, dj, t). dj_ID dj) new) \<and>
    (\<forall>(job, dj, t) \<in> set new. dj_NextFireTime dj \<le> now \<and> lookup (d_scheduler D) (dj_Name dj) = Some job \<and>
       computeNextFire (d_cron D) dj now = Inr t \<and> \<not> (LeaderOnly (job_Options job) \<and> follower D st))"
proof -
  obtain s r where f: "mem_FetchDue rng (st_storage st) now 64 = (s, r)" by fastforce
  then obtain due where due: "s = st_storage st" "r = Inr due" "due_snapshot (mem_table (st_storage st)) now 64 due"
    using mem_FetchDue_snapshot [OF assms(1,3)] by blast
  have tick: "tick D envs ctx now st = dispatch_all D envs ctx now 0 due st"
    using f due assms(2) by (simp add: tick_def MemoryStorage_ops_def)
  obtain new where new: "st_spawned (tick D envs ctx now st) = st_spawned st @ new"
      "subseq (map (fst \<circ> snd) new) due" "\<forall>(job, dj, t) \<in> set new. decide D st dj now = Claim job t"
      "st_inFlight (tick D envs ctx now st) = st_inFlight st + int (length new)"
    using dispatch_all_spawns [of D envs ctx now 0 due st] unfolding tick by blast
  obtain N where N: "map (fst \<circ> snd) new = nths due N" using new(2) subseq_conv_nths by blast
  have "sorted (map dj_NextFireTime (map (fst \<circ> snd) new))" "distinct (map dj_ID (map (fst \<circ> snd) new))"
    using due(3) sorted_nths [of "map dj_NextFireTime due" N] distinct_nthsI [of "map dj_ID due" N]
    unfolding N by (simp_all add: due_snapshot_def nths_map)
  moreover have was_due: "dj_NextFireTime dj \<le> now" if "(job, dj, t) \<in> set new" for job dj t
  proof -
    have "dj \<in> set due"
      using image_eqI [OF _ that, of dj "fst \<circ> snd"] set_nths_subset [of due N] N by (metis comp_apply fst_conv in_mono list.set_map snd_conv)
    then obtain r where "row_NextFire r \<le> now" "dj = due_of_row (dj_ID dj) r"
      using due(3) by (auto simp: due_snapshot_def)
    then show ?thesis by (metis DueJob.select_convs(3) due_of_row_def)
  qed
  moreover have "lookup (d_scheduler D) (dj_Name dj) = Some job \<and> computeNextFire (d_cron D) dj now = Inr t \<and>
      \<not> (LeaderOnly (job_Options job) \<and> follower D st)" if "(job, dj, t) \<in> set new" for job dj t
    using decide_branches(3) [of D st dj now job t] new(3) that by blast
  ultimately show ?thesis
    using new(1,4) by (intro exI [of _ new]) (auto simp: comp_def case_prod_unfold)
qed

theorem tick_oldest_first_witness:
  "\<exists>new. st_spawned (tick (demo_D (demo_job 0 (\<lambda>_. Returns None))) (\<lambda>_ _. demo_env 101) demo_ctx 101 (demo_st (demo_mem 100))) = new \<and>
     sorted (map (\<lambda>(job, dj, t). dj_NextFireTime dj) new)"
  using tick_oldest_first [of "\<lambda>xs. xs" "demo_D (demo_job 0 (\<lambda>_. Returns None))" "demo_st (demo_mem 100)"
      "\<lambda>_ _. demo_env 101" demo_ctx 101]
  by (auto simp: demo_inv)

text \<open>
  Property C10. On the regular path the handler is started exactly when this
  node wins the claim, that is when the row's fire is still earlier than the next one; the row ends
  at the later of the two, and nothing is executed or recorded synchronously.
\<close>

theorem dispatch_runs_iff_claimed:
  assumes "range_order rng" "d_storage D = MemoryStorage_ops rng" "mem_inv (st_storage st)"
    and "lookup (d_scheduler D) (dj_Name dj) = Some job" "\<not> LeaderOnly (job_Options job) \<or> \<not> follower D st"
    and "computeNextFire (d_cron D) dj now = Inr t" "t \<noteq> zero_time"
    and "\<not> missed D dj now \<or> MissedFire (job_Options job) = MissedFireRunOnce"
    and "mem_table (st_storage st) (dj_ID dj) = Some row"
  shows "st_spawned (maybeDispatch D envs ctx dj now st) =
      st_spawned st @ (if row_NextFire row < t then [(job, dj, t)] else []) \<and>
    mem_table (st_storage (maybeDispatch D envs ctx dj now st)) =
      (mem_table (st_storage st))(dj_ID dj \<mapsto> row\<lparr>row_NextFire := max (row_NextFire row) t\<rparr>) \<and>
    mem_runs (st_storage (maybeDispatch D envs ctx dj now st)) = mem_runs (st_storage st) \<and>
    st_calls (maybeDispatch D envs ctx dj now st) = st_calls st"
proof -
  have d: "decide D st dj now = Claim job t" using assms by (intro decide_ClaimI) auto
  obtain s where c: "ClaimJob (MemoryStorage_ops rng) (st_storage st) (dj_ID dj) t = (s, Inr (row_NextFire row < t))"
    and s: "mem_table s = (mem_table (st_storage st))(dj_ID dj \<mapsto> row\<lparr>row_NextFire := max (row_NextFire row) t\<rparr>)"
      "mem_runs s = mem_runs (st_storage st)"
    using reliable_storage.claim_row [OF mem_reliable [OF assms(1)] assms(3,9)] by blast
  show ?thesis
    using decide_ClaimD [OF d, of envs ctx] c s assms(2) by auto
qed

theorem dispatch_runs_iff_claimed_witness:
  "st_spawned (maybeDispatch (demo_D (demo_job 0 (\<lambda>_. Returns None))) (\<lambda>_. demo_env 101) demo_ctx (demo_due 100) 101
      (demo_st (demo_mem 100))) = [(demo_job 0 (\<lambda>_. Returns None), demo_due 100, 101 + 10 * Second)]"
  using dispatch_runs_iff_claimed [of "\<lambda>xs. xs" "demo_D (demo_job 0 (\<lambda>_. Returns None))" "demo_st (demo_mem 100)" "demo_due 100"
      "demo_job 0 (\<lambda>_. Returns None)" 101 "101 + 10 * Second" _ "\<lambda>_. demo_env 101" demo_ctx]
  by (simp add: demo_inv demo_next demo_table missed_fire_policies duration_units)

section \<open>Missed fires\<close>

text \<open>
  Property C12. A fire missed by more than three ticks under the policy \<open>Skip\<close>, of a job that is not leader-only or
  on a node that is not a follower, is not executed: no handler call, no goroutine; the row moves to the next fire after
  \<open>now\<close>, so that a fetch at \<open>now\<close> no longer returns it. No run record is written either, although the documentation of the
  policy says that missed fires are recorded.
\<close>

theorem skip_policy:
  assumes "range_order rng" "d_storage D = MemoryStorage_ops rng" "mem_inv (st_storage st)"
    and "lookup (d_scheduler D) (dj_Name dj) = Some job" "\<not> LeaderOnly (job_Options job) \<or> \<not> follower D st"
    and "MissedFire (job_Options job) = MissedFireSkip" "missed D dj now"
    and "computeNextFire (d_cron D) dj now = Inr t" "0 \<le> now" "now < t"
    and "mem_table (st_storage st) (dj_ID dj) = Some row"
    and st': "st' = maybeDispatch D envs ctx dj now st"
  shows "st_spawned st' = st_spawned st \<and> st_calls st' = st_calls st \<and>
    mem_runs (st_storage st') = mem_runs (st_storage st) \<and>
    mem_table (st_storage st') = (mem_table (st_storage st))(dj_ID dj \<mapsto> row\<lparr>row_NextFire := max (row_NextFire row) t\<rparr>) \<and>
    (\<forall>s limit due. mem_FetchDue rng (st_storage st') now limit = (s, Inr due) \<longrightarrow> dj_ID dj \<notin> dj_ID ` set due)"
proof -
  note C = mem_reliable [OF assms(1)]
  have d: "decide D st dj now = Skip_to t" using assms by (simp add: decide_def IsZero_def)
  obtain s where c: "ClaimJob (MemoryStorage_ops rng) (st_storage st) (dj_ID dj) t = (s, Inr (row_NextFire row < t))"
    and s: "mem_table s = (mem_table (st_storage st))(dj_ID dj \<mapsto> row\<lparr>row_NextFire := max (row_NextFire row) t\<rparr>)"
      "mem_runs s = mem_runs (st_storage st)" "mem_inv s"
    using reliable_storage.claim_row [OF C assms(3,11)] by blast
  have st: "st_storage st' = s" "st_spawned st' = st_spawned st" "st_calls st' = st_calls st"
    using decide_Skip_toD [OF d, of envs ctx] c assms(2) st' by auto
  have "dj_ID dj \<notin> dj_ID ` set due" if f: "mem_FetchDue rng s now limit = (x, Inr due)" for x limit due
  proof
    assume "dj_ID dj \<in> dj_ID ` set due"
    then obtain r' where "mem_table s (dj_ID dj) = Some r'" "row_NextFire r' \<le> now"
      using mem_FetchDue_snapshot [OF assms(1) s(3) f] by (auto simp: due_snapshot_def)
    then show False using s(1) assms(10) by auto
  qed
  with st s show ?thesis by auto
qed

theorem skip_policy_witness:
  "st_spawned (maybeDispatch (demo_D (demo_job 1 (\<lambda>_. Returns None))) (\<lambda>_. demo_env 0) demo_ctx (demo_due 100) (100 * Second)
      (demo_st (demo_mem 100))) = []"
  using skip_policy [of "\<lambda>xs. xs" "demo_D (demo_job 1 (\<lambda>_. Returns None))" "demo_st (demo_mem 100)" "demo_due 100"
      "demo_job 1 (\<lambda>_. Returns None)" "100 * Second" "110 * Second" _ _ "\<lambda>_. demo_env 0" demo_ctx, OF _ _ _ _ _ _ _ _ _ _ _ refl]
  by (simp add: demo_inv demo_next demo_table demo_missed missed_fire_policies duration_units time_Sub_def sat64_def)

text \<open>
  Property C9. Under the policy \<open>RunAll\<close> a node that leads executes, in order, one fire
  for every instant the iterator returns for the window \<open>(NextFireTime, now)\<close>, that is for its first 256 instants, records
  a run for each under that fire time, and then moves the row to the next fire after \<open>now\<close>: also when
  executions of the window failed and asked for a retry, and also when the window holds more than 256 instants, the rest of which is
  then never replayed.
\<close>

theorem run_all_replays:
  assumes "range_order rng" "d_storage D = MemoryStorage_ops rng" "mem_inv (st_storage st)"
    and "lookup (d_scheduler D) (dj_Name dj) = Some job" "MissedFire (job_Options job) = MissedFireRunAll"
    and "missed D dj now" "\<not> follower D st"
    and "loadScheduleFromDue (d_cron D) dj = Inr sched" "now < schedule_Next sched now" "0 \<le> now"
    and "mem_table (st_storage st) (dj_ID dj) = Some row" "row_NextFire row \<le> now"
    and "iterateSchedule (Some sched) (dj_NextFireTime dj) now 256 = fires" "fires \<noteq> []"
    and st': "st' = maybeDispatch D envs ctx dj now st"
  shows "map (dj_NextFireTime \<circ> fst) (st_calls st') = map (dj_NextFireTime \<circ> fst) (st_calls st) @ fires \<and>
    (\<exists>rs. mem_runs (st_storage st') = mem_runs (st_storage st) @ rs \<and> map rr_FireTime rs = fires \<and>
       (\<forall>r \<in> set rs. rr_JobID r = dj_ID dj)) \<and>
    mem_table (st_storage st') =
      (mem_table (st_storage st))(dj_ID dj \<mapsto> row\<lparr>row_NextFire := schedule_Next sched now\<rparr>)"
proof -
  note C = mem_reliable [OF assms(1)]
  let ?next = "schedule_Next sched now"
  have nxt: "computeNextFire (d_cron D) dj now = Inr ?next" "?next \<noteq> zero_time"
    using computeNextFire_load_Inr [OF assms(8)] assms(9,10) by auto
  have "decide D st dj now = Replay job"
    using assms nxt by (simp add: decide_def IsZero_def missed_fire_policies)
  then have st'_eq: "st' = runAllMissed D envs ctx job dj now st" using st' decide_ReplayD by simp
  define st1 where "st1 = replay D envs ctx job dj 0 fires (logging Log_Info ''missed fire RunAll replay'' (dj_Name dj) st)"
  have inv0: "mem_inv (st_storage (logging Log_Info ''missed fire RunAll replay'' (dj_Name dj) st))" using assms(3) by simp
  have st1: "mem_inv (st_storage st1)" "pulled (dj_ID dj) (mem_table (st_storage st)) (mem_table (st_storage st1))"
    "\<exists>rs. mem_runs (st_storage st1) = mem_runs (st_storage st) @ rs \<and> map rr_FireTime rs = fires \<and>
       (\<forall>r \<in> set rs. rr_JobID r = dj_ID dj)"
    using reliable_storage.replay_law [OF C assms(2) inv0 _ st1_def] assms(11) by (simp_all add: domI)
  then obtain row1 where row1: "mem_table (st_storage st1) (dj_ID dj) = Some row1"
    using assms(11) by (auto simp: pulled_def)
  obtain s1 where c: "ClaimJob (MemoryStorage_ops rng) (st_storage st1) (dj_ID dj) ?next = (s1, Inr (row_NextFire row1 < ?next))"
    and s1: "mem_table s1 = (mem_table (st_storage st1))(dj_ID dj \<mapsto> row1\<lparr>row_NextFire := max (row_NextFire row1) ?next\<rparr>)"
      "mem_runs s1 = mem_runs (st_storage st1)"
    using reliable_storage.claim_row [OF C st1(1) row1] by blast
  have "mem_table s1 = advance (mem_table (st_storage st1)) (dj_ID dj) ?next"
    using s1(1) row1 by (auto simp: advance_apply fun_eq_iff)
  then have table: "mem_table s1 = (mem_table (st_storage st))(dj_ID dj \<mapsto> row\<lparr>row_NextFire := ?next\<rparr>)"
    using pulled_advance [OF st1(2) assms(11)] assms(9,12) by simp
  have "st' = st1\<lparr>st_storage := s1\<rparr>"
    unfolding st'_eq runAllMissed_def using assms(2,8,13,14) nxt(2) c st1_def
    by (simp add: maxCatchupInstants_def IsZero_def Let_def)
  with st1(3) s1(2) table show ?thesis by (simp add: st1_def replay_frame)
qed

theorem run_all_replays_witness:
  "map (dj_NextFireTime \<circ> fst) (st_calls (maybeDispatch (demo_D (demo_job 2 (\<lambda>_. Panics ''boom''))) (\<lambda>_. demo_env 0) demo_ctx
      (demo_due 100) (25 * Second) (demo_st (demo_mem 100)))) = [100 + 10 * Second, 100 + 20 * Second]"
proof -
  have "iterateSchedule (Some (intervalSchedule (10 * Second))) 100 (25 * Second) 256 = [10000000100, 20000000100]"
    by code_simp
  then show ?thesis
    using run_all_replays [of "\<lambda>xs. xs" "demo_D (demo_job 2 (\<lambda>_. Panics ''boom''))" "demo_st (demo_mem 100)" "demo_due 100"
        "demo_job 2 (\<lambda>_. Panics ''boom'')" "25 * Second" "intervalSchedule (10 * Second)" _ "[10000000100, 20000000100]" _
        "\<lambda>_. demo_env 0" demo_ctx, OF _ _ _ _ _ _ _ _ _ _ _ _ _ _ refl]
    by (simp add: demo_inv demo_load demo_table demo_missed missed_fire_policies duration_units time_Sub_def sat64_def time_Add_def)
qed

section \<open>Executions, retries and dead letters\<close>

text \<open>
  Property C6. Every execution appends exactly one run, for this job and fire, with
  the attempt number the counter gave and the outcome \<open>success\<close>, \<open>failed\<close> (attempts left) or
  \<open>dead-letter\<close>; the row moves only when the attempt is retried, and then back to the earlier of its
  fire and \<open>now\<close> plus the backoff; the counter is kept while retrying and reset otherwise.
\<close>

theorem execution_recorded:
  assumes "range_order rng" "d_storage D = MemoryStorage_ops rng" "mem_inv (st_storage st)"
    and "mem_table (st_storage st) (dj_ID dj) = Some row"
    and n: "n = exec_attempt st dj" and err: "err = safeRun (exec_ctx env parent job) (job_Handler job)"
    and st': "st' = execute D env parent job dj cf st"
  shows "mem_runs (st_storage st') = mem_runs (st_storage st) @
      [fill_run (ev_recordNow env)
        \<lparr>rr_JobID = dj_ID dj, rr_FireTime = dj_NextFireTime dj, rr_StartedAt = ev_startedAt env,
         rr_FinishedAt = ev_finishedAt env, rr_NodeID = NodeID (node_opts D), rr_Attempt = n,
         rr_Outcome = (if err = None then RunSucceeded
           else if n < MaxAttempts (Retry (job_Options job)) then RunFailed else RunDeadLetter),
         rr_Error = (case err of None \<Rightarrow> [] | Some e \<Rightarrow> e)\<rparr>] \<and>
    (if err \<noteq> None \<and> n < MaxAttempts (Retry (job_Options job))
     then mem_table (st_storage st') = (mem_table (st_storage st))(dj_ID dj \<mapsto> row\<lparr>row_NextFire :=
            min (row_NextFire row)
              (ev_retryNow env + computeBackoff (d_oor D) (Retry (job_Options job)) n (ev_rand env))\<rparr>) \<and>
          attempt_count (st_attempts st') (dj_ID dj) = n
     else mem_table (st_storage st') = mem_table (st_storage st) \<and> attempt_count (st_attempts st') (dj_ID dj) = 0)"
proof -
  have "dj_ID dj \<in> dom (mem_table (st_storage st))" using assms(4) by blast
  note law = reliable_storage.exec_storage_reliable [OF mem_reliable [OF assms(1)] assms(2,3) this refl refl, of env parent job n]
  have pull: "pull_back (mem_table (st_storage st)) (dj_ID dj) t =
      (mem_table (st_storage st))(dj_ID dj \<mapsto> row\<lparr>row_NextFire := min (row_NextFire row) t\<rparr>)" for t
    using assms(4) by (auto simp: pull_back_apply fun_eq_iff)
  have err': "exec_error env parent job = err" by (simp add: exec_error_def err)
  show ?thesis
    using law unfolding st' execute_storage_eq execute_attempts_eq n [symmetric] err' pull
    by (simp add: exec_retried_def exec_run_def exec_outcome_def exec_retryAt_def attempt_count_def)
qed

theorem execution_recorded_witness:
  "map rr_Outcome (mem_runs (st_storage (execute (demo_D (demo_job 0 (\<lambda>_. Panics ''boom''))) (demo_env 101) demo_ctx
      (demo_job 0 (\<lambda>_. Panics ''boom'')) (demo_due 100) 0 (demo_st (demo_mem 100))))) = [RunFailed]"
  using execution_recorded [of "\<lambda>xs. xs" "demo_D (demo_job 0 (\<lambda>_. Panics ''boom''))" "demo_st (demo_mem 100)" "demo_due 100",
      OF _ _ _ _ refl refl refl, of _ "demo_env 101" demo_ctx "demo_job 0 (\<lambda>_. Panics ''boom'')" 0]
  by (simp add: demo_inv demo_table safeRun_def exec_attempt_def attempt_count_def int64_def)

lemma fill_run_attempt: "1 \<le> rr_Attempt r \<Longrightarrow> rr_Attempt (fill_run now r) = rr_Attempt r"
  by (simp add: fill_run_def Let_def)

text \<open>One failing execution of a job: it is retried while attempts are left.\<close>

lemma failing_step:
  assumes "range_order rng" "d_storage D = MemoryStorage_ops rng" "mem_inv (st_storage st)"
    and "dj_ID dj \<in> dom (mem_table (st_storage st))" "\<And>c. safeRun c (job_Handler job) \<noteq> None"
    and "attempt_count (st_attempts st) (dj_ID dj) = k" "0 \<le> k" "k < MaxAttempts (Retry (job_Options job))"
      "MaxAttempts (Retry (job_Options job)) < 2 ^ 63"
    and st': "st' = execute D env parent job dj cf st"
  shows "mem_inv (st_storage st') \<and> dom (mem_table (st_storage st')) = dom (mem_table (st_storage st)) \<and>
    (\<exists>r. mem_runs (st_storage st') = mem_runs (st_storage st) @ [r] \<and> rr_JobID r = dj_ID dj \<and> rr_Attempt r = k + 1 \<and>
       rr_Outcome r = (if k + 1 < MaxAttempts (Retry (job_Options job)) then RunFailed else RunDeadLetter)) \<and>
    attempt_count (st_attempts st') (dj_ID dj) = (if k + 1 < MaxAttempts (Retry (job_Options job)) then k + 1 else 0)"
proof -
  have n: "exec_attempt st dj = k + 1"
    using assms(6-9) by (simp add: exec_attempt_def int64_def)
  have e: "exec_error env parent job \<noteq> None" using assms(5) by (simp add: exec_error_def)
  note law = reliable_storage.exec_storage_reliable [OF mem_reliable [OF assms(1)] assms(2-4) refl refl, of env parent job "k + 1"]
  show ?thesis
    using law e assms(7) unfolding st' execute_storage_eq execute_attempts_eq n
    by (auto simp: exec_retried_def exec_outcome_def attempt_count_def fill_run_attempt)
qed

section \<open>Jobs that a tick leaves alone\<close>

lemma replay_other_calls:
  "dj_ID dj \<noteq> i \<Longrightarrow>
     filter (\<lambda>(d, c). dj_ID d = i) (st_calls (replay D envs parent job dj k fires st)) =
     filter (\<lambda>(d, c). dj_ID d = i) (st_calls st)"
  by (induction fires arbitrary: k st) simp_all

lemma runAllMissed_other_calls:
  assumes "dj_ID dj \<noteq> i"
  shows "filter (\<lambda>(d, c). dj_ID d = i) (st_calls (runAllMissed D envs parent job dj now st)) =
    filter (\<lambda>(d, c). dj_ID d = i) (st_calls st)"
  using assms replay_other_calls [OF assms, of D envs parent job 0]
  by (auto simp: runAllMissed_def Let_def case_prod_beta split: sum.splits)

lemma div_mult_le: "0 < k \<Longrightarrow> t div k * k \<le> (t :: int)"
  using pos_mod_sign [of k t] div_mult_mod_eq [of t k] by linarith

text \<open>What a dispatch for another job, or one that decides to do nothing, leaves alone.\<close>

lemma maybeDispatch_other:
  assumes "dj_ID dj \<noteq> i \<or> decide D st dj now = Ignore"
  shows "filter (\<lambda>(d, c). dj_ID d = i) (st_calls (maybeDispatch D envs ctx dj now st)) =
      filter (\<lambda>(d, c). dj_ID d = i) (st_calls st)"
    and "filter (\<lambda>(job, d, t). dj_ID d = i) (st_spawned (maybeDispatch D envs ctx dj now st)) =
      filter (\<lambda>(job, d, t). dj_ID d = i) (st_spawned st)"
proof -
  show "filter (\<lambda>(d, c). dj_ID d = i) (st_calls (maybeDispatch D envs ctx dj now st)) =
      filter (\<lambda>(d, c). dj_ID d = i) (st_calls st)"
  proof (cases "decide D st dj now")
    case Ignore
    then show ?thesis using decide_IgnoreD [OF Ignore, of envs ctx] by auto
  next
    case (Skip_to t)
    then show ?thesis using decide_Skip_toD [OF Skip_to, of envs ctx] by auto
  next
    case (Replay job)
    then show ?thesis using assms runAllMissed_other_calls by (simp add: decide_ReplayD)
  next
    case (Claim job t)
    then show ?thesis using decide_ClaimD [OF Claim, of envs ctx] by (auto split: if_splits)
  qed
  show "filter (\<lambda>(job, d, t). dj_ID d = i) (st_spawned (maybeDispatch D envs ctx dj now st)) =
      filter (\<lambda>(job, d, t). dj_ID d = i) (st_spawned st)"
    by (cases rule: maybeDispatch_spawns [where D = D and envs = envs and ctx = ctx and dj = dj and now = now and st = st])
      (use assms in auto)
qed

lemma dispatch_all_ignored:
  assumes "range_order rng" "d_storage D = MemoryStorage_ops rng" "mem_inv (st_storage st)"
    and "\<And>d. d \<in> set due \<Longrightarrow> dj_ID d = i \<Longrightarrow> decide D st d now = Ignore"
    and st': "st' = dispatch_all D envs ctx now k due st"
  shows "mem_inv (st_storage st') \<and> mem_table (st_storage st') i = mem_table (st_storage st) i \<and>
    filter (\<lambda>(d, c). dj_ID d = i) (st_calls st') = filter (\<lambda>(d, c). dj_ID d = i) (st_calls st) \<and>
    filter (\<lambda>(job, d, t). dj_ID d = i) (st_spawned st') = filter (\<lambda>(job, d, t). dj_ID d = i) (st_spawned st)"
  using assms(3,4) unfolding st'
proof (induction due arbitrary: k st)
  case Nil
  then show ?case by simp
next
  case (Cons d due)
  let ?st = "maybeDispatch D (envs k) ctx d now st"
  have C: "storage_contract (MemoryStorage_ops rng) mem_table mem_runs mem_inv (\<lambda>t. t)"
    using mem_reliable [OF assms(1)] by (simp add: reliable_storage_def)
  have "mem_inv (st_storage ?st)" and other: "dj_ID d \<noteq> i \<Longrightarrow> mem_table (st_storage ?st) i = mem_table (st_storage st) i"
    using storage_contract.maybeDispatch_touches [OF C assms(2) Cons.prems(1), of d "envs k" ctx now]
    by (simp_all add: storage_contract.touches_def [OF C])
  moreover have "mem_table (st_storage ?st) i = mem_table (st_storage st) i" if "dj_ID d = i"
    using decide_IgnoreD [OF Cons.prems(2) [of d], of "envs k" ctx] that by auto
  moreover have "decide D ?st d' now = decide D st d' now" for d'
    by (rule decide_leader) (rule maybeDispatch_leader)
  moreover have "dj_ID d \<noteq> i \<or> decide D st d now = Ignore" using Cons.prems(2) by auto
  ultimately show ?case
    using Cons.IH [of ?st "Suc k"] Cons.prems maybeDispatch_other [of d i D st now "envs k" ctx]
    by (cases "dj_ID d = i") simp_all
qed


definition demo_at_mem :: "gotime \<Rightarrow> MemoryStorage" where
  "demo_at_mem t = fst (mem_EnsureJob NewMemoryStorage
     (Some \<lparr>job_Name = ''j'', job_Schedule = At t, job_Handler = (\<lambda>_. Returns None), job_Options = withDefaults zero_JobOptions\<rparr>) t)"


section \<open>Starvation\<close>

lemma sort_key_split:
  assumes "\<And>x y. x \<in> set xs \<Longrightarrow> y \<in> set ys \<Longrightarrow> f x \<le> f y" "mset zs = mset xs + mset ys" "inj_on f (set zs)"
  shows "sort_key f zs = sort_key f xs @ sort_key f ys"
proof (rule sorted_wrt_unique [where R = "\<lambda>a b. f a \<le> f b"])
  show "mset (sort_key f zs) = mset (sort_key f xs @ sort_key f ys)" using assms(2) by simp
  show "sorted_wrt (\<lambda>a b. f a \<le> f b) (sort_key f zs)"
    using sorted_sort_key [of f zs] by (simp add: sorted_wrt_map [symmetric])
  show "sorted_wrt (\<lambda>a b. f a \<le> f b) (sort_key f xs @ sort_key f ys)"
    using sorted_sort_key [of f xs] sorted_sort_key [of f ys] assms(1)
    by (auto simp: sorted_wrt_append sorted_wrt_map [symmetric])
  show "a = b" if "a \<in> set (sort_key f zs)" "b \<in> set (sort_key f zs)" "f a \<le> f b" "f b \<le> f a" for a b
    using that assms(3) by (auto dest: inj_onD)
qed

text \<open>The oldest due jobs fill the fetch at every later instant.\<close>

lemma mem_FetchDue_later:
  assumes "range_order rng" "mem_inv m" "now \<le> now'"
    and "mem_FetchDue rng m now 64 = (m, Inr due)" "length due = 64"
  shows "mem_FetchDue rng m now' 64 = (m, Inr due)"
proof -
  let ?old = "mem_dues (\<lambda>xs. xs) m now"
  let ?all = "mem_dues (\<lambda>xs. xs) m now'"
  let ?new = "filter (\<lambda>d. \<not> dj_NextFireTime d \<le> now) ?all"
  have due: "due = take 64 (sort_key due_key ?old)"
    using assms(4) by (simp add: mem_FetchDue_eq effective_limit_def mem_FetchDue_order_free [OF assms(1,2)])
  have fire: "dj_NextFireTime (mem_due j) = mj_NextFireTime j" for j by (simp add: mem_due_def)
  have old: "?old = filter (\<lambda>d. dj_NextFireTime d \<le> now) ?all"
    using assms(3) by (auto simp: mem_dues_def filter_map comp_def fire intro!: arg_cong [of _ _ "map (\<lambda>x. mem_due (snd x))"] filter_cong)
  then have parts: "mset ?all = mset ?old + mset ?new" by simp
  have inj: "inj_on due_key (set ?all)"
    using mem_dues_distinct(2) [OF range_order_id assms(2), of now'] by (auto simp: distinct_map inj_on_def due_key_def)
  have key: "due_key a \<le> due_key b" if "a \<in> set ?old" "b \<in> set ?new" for a b
    using that old by (auto simp: due_key_def)
  have "sort_key due_key ?all = sort_key due_key ?old @ sort_key due_key ?new"
    by (rule sort_key_split [OF key parts inj])
  moreover have "64 \<le> length (sort_key due_key ?old)" using assms(5) due by simp
  ultimately show ?thesis
    using due by (simp add: mem_FetchDue_eq effective_limit_def mem_FetchDue_order_free [OF assms(1,2)])
qed

lemma dispatch_all_ignore_all:
  assumes "\<And>d. d \<in> set due \<Longrightarrow> decide D st d now = Ignore"
  shows "\<exists>ls. dispatch_all D envs ctx now k due st = st\<lparr>st_log := st_log st @ ls\<rparr>"
  using assms
proof (induction due arbitrary: k st)
  case Nil
  show ?case by (rule exI [of _ "[]"]) simp
next
  case (Cons d due)
  obtain ls where ls: "maybeDispatch D (envs k) ctx d now st = st\<lparr>st_log := st_log st @ ls\<rparr>"
    using decide_IgnoreD [OF Cons.prems [of d], of "envs k" ctx] by auto
  have "decide D (st\<lparr>st_log := st_log st @ ls\<rparr>) d' now = decide D st d' now" for d'
    by (rule decide_leader) simp
  with Cons.IH [of "st\<lparr>st_log := st_log st @ ls\<rparr>" "Suc k"] Cons.prems
  obtain ls' where "dispatch_all D envs ctx now (Suc k) due (st\<lparr>st_log := st_log st @ ls\<rparr>) =
      st\<lparr>st_log := st_log st @ ls @ ls'\<rparr>"
    by auto
  with ls show ?case by auto
qed

text \<open>
  Property C32. A tick looks at the 64 oldest due rows only. When these belong to jobs
  this node has no handler for, nothing is dispatched any more, at this instant or at any later one:
  the rows stay the oldest, and every other job of the node waits for ever.
\<close>

theorem stuck_jobs_starve:
  assumes "range_order rng" "d_storage D = MemoryStorage_ops rng" "mem_inv (st_storage st)"
    and "mem_FetchDue rng (st_storage st) now 64 = (st_storage st, Inr due)" "length due = 64"
    and "\<And>d. d \<in> set due \<Longrightarrow> lookup (d_scheduler D) (dj_Name d) = None"
    and "list_all (\<lambda>(t, envs). now \<le> t) ticks"
  shows "\<exists>ls. fold (\<lambda>(t, envs). tick D envs ctx t) ticks st = st\<lparr>st_log := st_log st @ ls\<rparr>"
  using assms(3,4,7)
proof (induction ticks arbitrary: st)
  case Nil
  show ?case by (rule exI [of _ "[]"]) simp
next
  case (Cons tk ticks)
  obtain t envs where tk: "tk = (t, envs)" by fastforce
  have "mem_FetchDue rng (st_storage st) t 64 = (st_storage st, Inr due)"
    using mem_FetchDue_later [OF assms(1) Cons.prems(1) _ Cons.prems(2) assms(5)] Cons.prems(3) tk by simp
  then have "tick D envs ctx t st = dispatch_all D envs ctx t 0 due st"
    using assms(2) by (simp add: tick_def MemoryStorage_ops_def)
  moreover have "decide D st d t = Ignore" if "d \<in> set due" for d
    using assms(6) [OF that] by (simp add: decide_def)
  ultimately obtain ls where ls: "tick D envs ctx t st = st\<lparr>st_log := st_log st @ ls\<rparr>"
    using dispatch_all_ignore_all [of due D st t envs ctx 0] by auto
  with Cons.IH [of "st\<lparr>st_log := st_log st @ ls\<rparr>"] Cons.prems tk show ?case by auto
qed

text \<open>A storage with 64 jobs of another binary, all due since instant 5.\<close>

definition demo_stuck :: MemoryStorage where
  "demo_stuck =
     \<lparr>mem_jobs = map (\<lambda>k. (dec_string k, \<lparr>mj_ID = mem_id k, mj_Name = dec_string k, mj_NextFireTime = 5, mj_Schedule = ''10s'',
                          mj_ScheduleKind = ''every'', mj_Locked = False\<rparr>)) [1..64],
      mem_runs = [], mem_next = 64\<rparr>"

lemma demo_stuck_inv: "mem_inv demo_stuck"
  by (auto simp: mem_inv_def demo_stuck_def comp_def distinct_map inj_on_def dec_string_inject mem_id_inj list_all_iff)

lemma demo_stuck_fetch:
  obtains due where "mem_FetchDue (\<lambda>xs. xs) demo_stuck 7 64 = (demo_stuck, Inr due)" "length due = 64"
    "\<And>d. d \<in> set due \<Longrightarrow> \<exists>k \<ge> 0. dj_Name d = dec_string k"
proof -
  let ?all = "insertion_sort due_gt (mem_dues (\<lambda>xs. xs) demo_stuck 7)"
  have size: "mset ?all = mset (mem_dues (\<lambda>xs. xs) demo_stuck 7)" by (rule fire_order.mset_insertion_sort)
  have all: "mem_dues (\<lambda>xs. xs) demo_stuck 7 =
      map (\<lambda>k. \<lparr>dj_ID = mem_id k, dj_Name = dec_string k, dj_NextFireTime = 5, dj_ScheduleExpr = ''10s'', dj_ScheduleKind = ''every''\<rparr>) [1..64]"
    by (simp add: mem_dues_def demo_stuck_def mem_due_def comp_def filter_map del: upto_rec_numeral)
  have "length ?all = 64" using arg_cong [OF size, of size] all by simp
  moreover have "\<exists>k \<ge> 0. dj_Name d = dec_string k" if d: "d \<in> set ?all" for d
  proof -
    obtain x where "1 \<le> x" "dj_Name d = dec_string x"
      using d all by (auto simp: fire_order.set_insertion_sort simp del: upto_rec_numeral)
    then show ?thesis by (intro exI [of _ x]) simp
  qed
  ultimately show ?thesis
    by (intro that [of ?all]) (simp_all add: mem_FetchDue_eq effective_limit_def)
qed

theorem stuck_jobs_starve_witness:
  "\<exists>ls. fold (\<lambda>(t, envs). tick (demo_D (demo_job 0 (\<lambda>_. Returns None))) envs demo_ctx t) [(8, \<lambda>_ _. demo_env 8), (9, \<lambda>_ _. demo_env 9)]
     (demo_st demo_stuck) = (demo_st demo_stuck)\<lparr>st_log := ls\<rparr>"
proof -
  obtain due where due: "mem_FetchDue (\<lambda>xs. xs) demo_stuck 7 64 = (demo_stuck, Inr due)" "length due = 64"
    "\<And>d. d \<in> set due \<Longrightarrow> \<exists>k \<ge> 0. dj_Name d = dec_string k"
    using demo_stuck_fetch by metis
  have "lookup (d_scheduler (demo_D (demo_job 0 (\<lambda>_. Returns None)))) (dj_Name d) = None" if d: "d \<in> set due" for d
  proof -
    obtain k where k: "0 \<le> k" "dj_Name d = dec_string k" using due(3) [OF d] by blast
    have "is_digit (CHR ''j'') = False" by code_simp
    then have "dec_string k \<noteq> ''j''" using dec_string_digits [OF k(1)] by (metis list.set_intros(1))
    then show ?thesis using k(2) by (simp add: lookup_def demo_D_def)
  qed
  then show ?thesis
    using stuck_jobs_starve [of "\<lambda>xs. xs" "demo_D (demo_job 0 (\<lambda>_. Returns None))" "demo_st demo_stuck" 7 due
        "[(8, \<lambda>_ _. demo_env 8), (9, \<lambda>_ _. demo_env 9)]" demo_ctx] demo_stuck_inv due(1,2)
    by auto
qed

section \<open>Leadership, the wait group and shutdown\<close>

text \<open>
  A node that does not lead does nothing for a leader-only job, and nothing
  but logging for a missed fire of a \<open>RunAll\<close> job: no claim, no goroutine, no handler call.
\<close>

theorem follower_quiet:
  assumes "lookup (d_scheduler D) (dj_Name dj) = Some job" "follower D st"
    and "LeaderOnly (job_Options job) \<or> missed D dj now \<and> MissedFire (job_Options job) = MissedFireRunAll"
  shows "\<exists>ls. maybeDispatch D envs ctx dj now st = st\<lparr>st_log := st_log st @ ls\<rparr>"
proof (rule decide_IgnoreD)
  show "decide D st dj now = Ignore"
    using assms by (auto simp: decide_def missed_fire_policies split: sum.splits)
qed

theorem follower_quiet_witness:
  "\<exists>ls. maybeDispatch ((demo_D (demo_job 2 (\<lambda>_. Returns None)))\<lparr>d_leader := Some MemoryLeader_ops\<rparr>) (\<lambda>_. demo_env 0) demo_ctx
     (demo_due 100) (25 * Second) (demo_st (demo_mem 100)) = (demo_st (demo_mem 100))\<lparr>st_log := st_log (demo_st (demo_mem 100)) @ ls\<rparr>"
proof (rule follower_quiet)
  let ?D = "(demo_D (demo_job 2 (\<lambda>_. Returns None)))\<lparr>d_leader := Some MemoryLeader_ops\<rparr>"
  show "lookup (d_scheduler ?D) (dj_Name (demo_due 100)) = Some (demo_job 2 (\<lambda>_. Returns None))" by simp
  show "follower ?D (demo_st (demo_mem 100))"
    by (simp add: follower_def MemoryLeader_ops_def ml_IsLeader_def demo_st_def NewMemoryLeader_def)
  have "missed ?D (demo_due 100) (25 * Second) = missed (demo_D (demo_job 2 (\<lambda>_. Returns None))) (demo_due 100) (25 * Second)"
    by (simp add: missed_def missThreshold_def)
  then show "LeaderOnly (job_Options (demo_job 2 (\<lambda>_. Returns None))) \<or>
      missed ?D (demo_due 100) (25 * Second) \<and> MissedFire (job_Options (demo_job 2 (\<lambda>_. Returns None))) = MissedFireRunAll"
    by (simp add: demo_missed missed_fire_policies duration_units time_Sub_def sat64_def)
qed

lemma replay_running:
  assumes "d_telemetry D = newTelemetry m"
  shows "counter_value ''sundial.jobs.running'' (st_tel (replay D envs parent job dj k fires st)) =
    counter_value ''sundial.jobs.running'' (st_tel st)"
  by (induction fires arbitrary: k st) (simp_all add: executeAtFire_def execute_running_balanced [OF assms])

lemma maybeDispatch_running:
  assumes "d_telemetry D = newTelemetry m"
  shows "counter_value ''sundial.jobs.running'' (st_tel (maybeDispatch D envs ctx dj now st)) =
    counter_value ''sundial.jobs.running'' (st_tel st)"
proof (cases "decide D st dj now")
  case Ignore
  then show ?thesis using decide_IgnoreD [OF Ignore, of envs ctx] by auto
next
  case (Skip_to t)
  then show ?thesis using decide_Skip_toD [OF Skip_to, of envs ctx] by auto
next
  case (Replay job)
  have "counter_value ''sundial.jobs.running'' (st_tel (runAllMissed D envs ctx job dj now st)) =
      counter_value ''sundial.jobs.running'' (st_tel st)"
    by (auto simp: runAllMissed_def Let_def case_prod_beta executeAtFire_def execute_running_balanced [OF assms]
        replay_running [OF assms] split: sum.splits)
  with Replay show ?thesis by (simp add: decide_ReplayD)
next
  case (Claim job t)
  have "counter_value ''sundial.jobs.running'' (claimedInc (d_telemetry D) (dj_Name dj)) = 0"
    by (simp add: assms claimedInc_def counter_value_add)
  then show ?thesis using decide_ClaimD [OF Claim, of envs ctx] by (auto split: if_splits)
qed

lemma tick_running:
  assumes "d_telemetry D = newTelemetry m"
  shows "counter_value ''sundial.jobs.running'' (st_tel (tick D envs ctx now st)) =
    counter_value ''sundial.jobs.running'' (st_tel st)"
proof -
  have "counter_value ''sundial.jobs.running'' (st_tel (dispatch_all D envs ctx now k due s)) =
      counter_value ''sundial.jobs.running'' (st_tel s)" for k due s
    by (induction due arbitrary: k s) (simp_all add: maybeDispatch_running [OF assms])
  then show ?thesis by (simp add: tick_def Let_def case_prod_beta split: sum.splits)
qed

text \<open>
  Property C30. Whatever a tick does, once the goroutines it started have run, the
  wait group and the gauge of running jobs are back at their values from before the tick: shutdown
  waits for exactly the handlers in flight.
\<close>

theorem in_flight_balanced:
  assumes "d_telemetry D = newTelemetry m" "st_spawned st = []" "st1 = tick D envs ctx now st"
    and "length exs = length (st_spawned st1)"
    and "st2 = fold (\<lambda>(env, job, dj, t). execute D env ctx job dj t) (zip exs (st_spawned st1)) st1"
  shows "st_inFlight st2 = st_inFlight st \<and>
    counter_value ''sundial.jobs.running'' (st_tel st2) = counter_value ''sundial.jobs.running'' (st_tel st)"
proof -
  have fold: "st_inFlight (fold (\<lambda>(env, job, dj, t). execute D env ctx job dj t) xs s) = st_inFlight s - int (length xs) \<and>
      counter_value ''sundial.jobs.running'' (st_tel (fold (\<lambda>(env, job, dj, t). execute D env ctx job dj t) xs s)) =
      counter_value ''sundial.jobs.running'' (st_tel s)" for xs s
    by (induction xs arbitrary: s) (simp_all add: case_prod_beta execute_running_balanced [OF assms(1)])
  have "st_inFlight st1 = st_inFlight st + int (length (st_spawned st1))"
  proof (cases "FetchDue (d_storage D) (st_storage st) now 64")
    case (Pair s r)
    show ?thesis
    proof (cases r)
      case (Inl e)
      then show ?thesis using Pair assms(2,3) by (simp add: tick_def)
    next
      case (Inr due)
      then have "st1 = dispatch_all D envs ctx now 0 due (st\<lparr>st_storage := s\<rparr>)"
        using Pair assms(3) by (simp add: tick_def)
      then show ?thesis
        using dispatch_all_spawns [of D envs ctx now 0 due "st\<lparr>st_storage := s\<rparr>"] assms(2) by auto
    qed
  qed
  moreover have "counter_value ''sundial.jobs.running'' (st_tel st1) = counter_value ''sundial.jobs.running'' (st_tel st)"
    using tick_running [OF assms(1)] assms(3) by simp
  ultimately show ?thesis using fold assms(4,5) by simp
qed

theorem in_flight_balanced_witness:
  "st_inFlight (fold (\<lambda>(env, job, dj, t). execute (demo_D (demo_job 0 (\<lambda>_. Returns None))) env demo_ctx job dj t)
     (zip [demo_env 200] (st_spawned (tick (demo_D (demo_job 0 (\<lambda>_. Returns None))) (\<lambda>_ _. demo_env 101) demo_ctx 101 (demo_st (demo_mem 100)))))
     (tick (demo_D (demo_job 0 (\<lambda>_. Returns None))) (\<lambda>_ _. demo_env 101) demo_ctx 101 (demo_st (demo_mem 100)))) = 0"
proof -
  let ?D = "demo_D (demo_job 0 (\<lambda>_. Returns None))"
  have d: "decide ?D (demo_st (demo_mem 100)) (demo_due 100) 101 = Claim (demo_job 0 (\<lambda>_. Returns None)) (101 + 10 * Second)"
    by (rule demo_claim) (simp_all add: missed_fire_policies)
  have fetch: "FetchDue (d_storage ?D) (demo_mem 100) 101 64 = (demo_mem 100, Inr [demo_due 100])"
    using demo_fetch [of 100 101] by (simp add: MemoryStorage_ops_def)
  have "snd (ClaimJob (d_storage ?D) (demo_mem 100) (dj_ID (demo_due 100)) (101 + 10 * Second)) = Inr True"
    by (simp add: MemoryStorage_ops_def mem_ClaimJob_def demo_mem_def duration_units)
  then have "length (st_spawned (tick ?D (\<lambda>_ _. demo_env 101) demo_ctx 101 (demo_st (demo_mem 100)))) = 1"
    using fetch decide_ClaimD [OF d, of "\<lambda>_. demo_env 101" demo_ctx]
    by (auto simp: tick_def demo_st_def Let_def)
  then show ?thesis
    using in_flight_balanced [of ?D None "demo_st (demo_mem 100)", OF _ _ refl _ refl, of "[demo_env 200]" "\<lambda>_ _. demo_env 101" demo_ctx 101]
    by (simp add: demo_D_def demo_st_def)
qed

text \<open>Only a replay calls handlers on the goroutine of the loop.\<close>

lemma maybeDispatch_calls:
  assumes "\<And>job. decide D st dj now \<noteq> Replay job"
  shows "st_calls (maybeDispatch D envs ctx dj now st) = st_calls st"
proof (cases "decide D st dj now")
  case Ignore
  then show ?thesis using decide_IgnoreD [OF Ignore, of envs ctx] by auto
next
  case (Skip_to t)
  then show ?thesis using decide_Skip_toD [OF Skip_to, of envs ctx] by auto
next
  case (Replay job)
  with assms show ?thesis by blast
next
  case (Claim job t)
  then show ?thesis using decide_ClaimD [OF Claim, of envs ctx] by (auto split: if_splits)
qed

definition replays_nothing :: "('s, 'l) dispatcher \<Rightarrow> bool" where
  "replays_nothing D \<longleftrightarrow>
     (\<forall>name job. lookup (d_scheduler D) name = Some job \<longrightarrow> MissedFire (job_Options job) \<noteq> MissedFireRunAll)"

lemma tick_calls:
  assumes "replays_nothing D"
  shows "st_calls (tick D envs ctx now st) = st_calls st"
proof -
  have none: "decide D st' dj now \<noteq> Replay job" for st' dj job
    using assms decide_branches(2) unfolding replays_nothing_def by blast
  have "st_calls (dispatch_all D envs ctx now k due st') = st_calls st'" for k due st'
    by (induction due arbitrary: k st') (simp_all add: maybeDispatch_calls none)
  then show ?thesis by (auto simp: tick_def Let_def split: prod.splits sum.splits)
qed

fun hung_tick :: "('s, 'l) loop_event \<Rightarrow> bool" where
  "hung_tick (On_hung_tick now envs) \<longleftrightarrow> True"
| "hung_tick e \<longleftrightarrow> False"

fun cancelled :: "('s, 'l) loop_event \<Rightarrow> bool" where
  "cancelled (On_done err busy done_first) \<longleftrightarrow> True"
| "cancelled e \<longleftrightarrow> False"

lemma run_loop_returns:
  assumes "replays_nothing D \<or> list_all (Not \<circ> hung_tick) evs" "list_all (Not \<circ> cancelled) evs"
  shows "\<exists>st'. run_loop D ctx (evs @ rest) st = run_loop D ctx rest st'"
  using assms
proof (induction evs arbitrary: st)
  case (Cons e evs)
  then show ?case by (cases e) (auto simp: tick_calls)
qed auto

lemma run_loop_hangs:
  "run_loop D ctx evs st = Hung st' \<Longrightarrow> run_loop D ctx (evs @ rest) st = Hung st'"
  by (induction D ctx evs st rule: run_loop.induct) (auto simp: Let_def split: option.splits if_splits)

text \<open>A replay calls the handler at least once.\<close>

lemma runAllMissed_calls:
  assumes "loadScheduleFromDue (d_cron D) dj = Inr sched"
  shows "st_calls (runAllMissed D envs parent job dj now st) \<noteq> st_calls st"
proof -
  let ?fires = "iterateSchedule (Some sched) (dj_NextFireTime dj) now maxCatchupInstants"
  let ?st = "logging Log_Info ''missed fire RunAll replay'' (dj_Name dj) st"
  have "?fires \<noteq> [] \<Longrightarrow> st_calls (replay D envs parent job dj 0 ?fires ?st) \<noteq> st_calls st"
    using replay_frame(4) [of D envs parent job dj 0 ?fires ?st] by force
  then show ?thesis using assms by (auto simp: runAllMissed_def Let_def case_prod_beta split: sum.splits)
qed

text \<open>
  Property C29. With a positive grace period (\<open>New\<close> sets one when none is given) and
  positive intervals, the loop ends once it receives the cancellation of its context, within the grace
  period and with the context's error, even when a handler in a goroutine never finishes. This holds when no
  registered job has the policy \<open>RunAll\<close>, or when every handler the replays call returns. A replay calls handlers on the
  goroutine of the loop: when one of these never returns, the loop hangs, and no cancellation ends it.
\<close>

theorem shutdown_bounded:
  assumes "0 < TickInterval (node_opts D)" "d_leader D = None \<or> 0 < LeaderRenewInterval (node_opts D)"
    and "0 < ShutdownGrace (node_opts D)" "list_all (Not \<circ> cancelled) evs"
  shows "(replays_nothing D \<or> \<not> hung \<and> list_all (Not \<circ> hung_tick) evs \<longrightarrow>
      (\<exists>st' w. run D ctx now envs hung (evs @ On_done err busy done_first # rest) st = Returned st' err w \<and>
         w \<le> ShutdownGrace (node_opts D) \<and> (\<forall>b. busy = Some b \<and> b < ShutdownGrace (node_opts D) \<longrightarrow> w = b))) \<and>
    (\<forall>st'. run D ctx now envs hung evs st = Hung st' \<longrightarrow>
      run D ctx now envs hung (evs @ On_done err busy done_first # rest) st = Hung st')"
proof -
  let ?first = "if hung then On_hung_tick now envs else On_tick now envs"
  let ?st = "maybeRenewLeader D st"
  have run: "run D ctx now envs hung es st = run_loop D ctx (?first # es) ?st" for es
    using assms(1,2) by (auto simp: run_def Let_def)
  have finish: "\<exists>st' w. run_loop D ctx (On_done err busy done_first # rest) s = Returned st' err w \<and>
      w \<le> ShutdownGrace (node_opts D) \<and> (\<forall>b. busy = Some b \<and> b < ShutdownGrace (node_opts D) \<longrightarrow> w = b)" for s
    using assms(3) by (auto simp: drain_def Let_def split: option.splits)
  have "\<exists>s. run_loop D ctx ((?first # evs) @ On_done err busy done_first # rest) ?st =
      run_loop D ctx (On_done err busy done_first # rest) s" if "replays_nothing D \<or> \<not> hung \<and> list_all (Not \<circ> hung_tick) evs"
    using that assms(4) by (intro run_loop_returns) auto
  then have "replays_nothing D \<or> \<not> hung \<and> list_all (Not \<circ> hung_tick) evs \<longrightarrow>
      (\<exists>st' w. run D ctx now envs hung (evs @ On_done err busy done_first # rest) st = Returned st' err w \<and>
         w \<le> ShutdownGrace (node_opts D) \<and> (\<forall>b. busy = Some b \<and> b < ShutdownGrace (node_opts D) \<longrightarrow> w = b))"
    using finish unfolding run by (metis append_Cons)
  moreover have "\<forall>st'. run D ctx now envs hung evs st = Hung st' \<longrightarrow>
      run D ctx now envs hung (evs @ On_done err busy done_first # rest) st = Hung st'"
    using run_loop_hangs [of D ctx "?first # evs" ?st] unfolding run by simp
  ultimately show ?thesis by blast
qed

text \<open>
  A run without replays that is cancelled while a goroutine never finishes, and one whose first tick replays with a
  handler that never returns.
\<close>

theorem shutdown_bounded_witness:
  "(\<exists>st' w. run (demo_D (demo_job 0 (\<lambda>_. Returns None))) demo_ctx 101 (\<lambda>_ _. demo_env 101) True
     [On_tick 102 (\<lambda>_ _. demo_env 102), On_done ''context canceled'' None False] (demo_st (demo_mem 100)) =
       Returned st' ''context canceled'' w \<and> w \<le> 30 * Second) \<and>
   run (demo_D (demo_job 2 (\<lambda>_. Returns None))) demo_ctx (25 * Second) (\<lambda>_ _. demo_env 0) True
     [On_done ''context canceled'' None False] (demo_st (demo_mem 100)) = Hung (demo_st (demo_mem 100))"
proof -
  let ?D = "demo_D (demo_job 0 (\<lambda>_. Returns None))" and ?D2 = "demo_D (demo_job 2 (\<lambda>_. Returns None))"
  have opts: "TickInterval (node_opts (demo_D j)) = Second" "ShutdownGrace (node_opts (demo_D j)) = 30 * Second" for j
    by (simp_all add: demo_D_def empty_scheduler_def)
  have pos: "0 < Second" by (simp add: duration_units)
  have "replays_nothing ?D"
    by (auto simp: replays_nothing_def lookup_def demo_D_def empty_scheduler_def demo_job_def missed_fire_policies split: if_splits)
  then have "\<exists>st' w. run ?D demo_ctx 101 (\<lambda>_ _. demo_env 101) True
     ([On_tick 102 (\<lambda>_ _. demo_env 102)] @ On_done ''context canceled'' None False # []) (demo_st (demo_mem 100)) =
       Returned st' ''context canceled'' w \<and> w \<le> 30 * Second"
    using shutdown_bounded [of ?D "[On_tick 102 (\<lambda>_ _. demo_env 102)]" True demo_ctx 101
      "\<lambda>_ _. demo_env 101" "''context canceled''" None False "[]" "demo_st (demo_mem 100)"] opts pos by auto
  moreover have "FetchDue (d_storage ?D2) (demo_mem 100) (25 * Second) 64 = (demo_mem 100, Inr [demo_due 100])"
    using demo_fetch [of 100 "25 * Second"] by (simp add: MemoryStorage_ops_def duration_units)
  then have tick: "tick ?D2 (\<lambda>_ _. demo_env 0) demo_ctx (25 * Second) (demo_st (demo_mem 100)) =
      maybeDispatch ?D2 (\<lambda>_. demo_env 0) demo_ctx (demo_due 100) (25 * Second) (demo_st (demo_mem 100))"
    by (simp add: tick_def demo_st_def)
  have "decide ?D2 (demo_st (demo_mem 100)) (demo_due 100) (25 * Second) = Replay (demo_job 2 (\<lambda>_. Returns None))"
    using demo_replay [of "25 * Second" 100] by (simp add: missed_fire_policies duration_units time_Sub_def sat64_def)
  from decide_ReplayD [OF this] have "st_calls (tick ?D2 (\<lambda>_ _. demo_env 0) demo_ctx (25 * Second) (demo_st (demo_mem 100))) \<noteq> []"
    using runAllMissed_calls [OF demo_load, where st = "demo_st (demo_mem 100)" and D = ?D2] unfolding tick by simp
  then have "run ?D2 demo_ctx (25 * Second) (\<lambda>_ _. demo_env 0) True [] (demo_st (demo_mem 100)) = Hung (demo_st (demo_mem 100))"
    using opts pos by (simp add: run_def Let_def maybeRenewLeader_def)
  then have "run ?D2 demo_ctx (25 * Second) (\<lambda>_ _. demo_env 0) True ([] @ On_done ''context canceled'' None False # []) (demo_st (demo_mem 100)) =
      Hung (demo_st (demo_mem 100))"
    using shutdown_bounded [of ?D2 "[]" True demo_ctx "25 * Second" "\<lambda>_ _. demo_env 0" "''context canceled''" None False "[]"
      "demo_st (demo_mem 100)"] opts pos by simp
  ultimately show ?thesis by simp
qed

end
