(* ===== verification/Sundial_Run.thy ===== *)
theory Sundial_Run
  imports Dispatcher_Properties
begin

text \<open>
  \<open>Scheduler.Run\<close> of \<open>sundial.go\<close>: the guard against a second run, the persisting of the
  registered jobs, the dispatcher, and the release of the leader role at the end.
\<close>

section \<open>Definitions\<close>

text \<open>The loop over the registered jobs; the result carries the job whose \<open>EnsureJob\<close> failed.\<close>

fun ensure_all ::
  "'s Storage \<Rightarrow> gotime \<Rightarrow> Job list \<Rightarrow> 's \<Rightarrow> 's \<times> (string \<times> go_error) option" where
  "ensure_all S now [] s = (s, None)"
| "ensure_all S now (j # jobs) s =
     (let nextFire = schedule_Next (job_Schedule j) now
      in if IsZero nextFire then ensure_all S now jobs s
         else case EnsureJob S s (Some j) nextFire of
                (s, Inl err) \<Rightarrow> (s, Some (job_Name j, err))
              | (s, Inr i) \<Rightarrow> ensure_all S now jobs s)"

definition new_dstate :: "'s \<Rightarrow> 'l \<Rightarrow> ('s, 'l) dstate" where
  "new_dstate s l =
     \<lparr>st_storage = s, st_leader = l, st_attempts = Map.empty, st_inFlight = 0, st_spawned = [], st_calls = [],
      st_tel = [], st_log = []\<rparr>"

datatype ('s, 'l) Run_result =
    Refused go_error
  | Ran "('s, 'l) run_result"

text \<open>
  The arguments after the scheduler: the storage and the leader behind its interface fields, the
  cron parser, the conversion of a float out of range, the meter, the order of the map, the clock at
  the start and at the first tick, whether a handler that tick calls inline hangs, and what the loop receives. The
  storage and the leader of a run that hangs are those at the start of its last tick.
\<close>

definition Run ::
  "Scheduler \<Rightarrow> 's Storage \<Rightarrow> 'l Leader option \<Rightarrow> cron_parser \<Rightarrow> (f64 \<Rightarrow> int) \<Rightarrow> meter option \<Rightarrow> job_range \<Rightarrow>
     Context \<Rightarrow> gotime \<Rightarrow> gotime \<Rightarrow> (nat \<Rightarrow> nat \<Rightarrow> exec_env) \<Rightarrow> bool \<Rightarrow> ('s, 'l) loop_event list \<Rightarrow> 's \<Rightarrow> 'l \<Rightarrow>
     Scheduler \<times> 's \<times> 'l \<times> ('s, 'l) Run_result" where
  "Run sc S L parse oor m rng ctx now now1 envs hung evs s l =
     (if sc_running sc then (sc, s, l, Refused (NewError ''sundial: Run is already in progress''))
      else
        let sc = sc\<lparr>sc_running := True\<rparr>; jobs = map snd (rng (sc_jobs sc))
        in case ensure_all S now jobs s of
             (s, Some (name, err)) \<Rightarrow> (markStopped sc, s, l, Refused (Wrapf name err))
           | (s, None) \<Rightarrow>
               let D = \<lparr>d_scheduler = sc, d_storage = S, d_leader = L, d_telemetry = newTelemetry m,
                        d_cron = parse, d_oor = oor\<rparr>;
                   st = emit (counter_Add (jobsScheduled (d_telemetry D)) (int (length jobs)) []) (new_dstate s l)
               in case run D ctx now1 envs hung evs st of
                    Returned st err w \<Rightarrow>
                      let l = (case L of None \<Rightarrow> st_leader st | Some L' \<Rightarrow> fst (Release L' (st_leader st)))
                      in (markStopped sc, st_storage st, l, Ran (Returned st err w))
                  | Running st \<Rightarrow> (sc, st_storage st, st_leader st, Ran (Running st))
                  | Blocked st \<Rightarrow> (sc, st_storage st, st_leader st, Ran (Blocked st))
                  | Panicked st \<Rightarrow> (sc, st_storage st, st_leader st, Ran (Panicked st))
                  | Hung st \<Rightarrow> (sc, st_storage st, st_leader st, Ran (Hung st)))"

section \<open>What the persisting loop leaves in the table\<close>

definition persisted :: "jobtable \<Rightarrow> Job \<Rightarrow> bool" where
  "persisted T j \<longleftrightarrow>
     (\<exists>i r. T i = Some r \<and> row_Name r = job_Name j \<and> row_Expr r = schedule_String (job_Schedule j) \<and>
        row_Kind r = schedule_Kind (job_Schedule j))"

definition fires_kept :: "jobtable \<Rightarrow> jobtable \<Rightarrow> bool" where
  "fires_kept T T' \<longleftrightarrow>
     (\<forall>i r. T i = Some r \<longrightarrow> (\<exists>r'. T' i = Some r' \<and> row_Name r' = row_Name r \<and> row_NextFire r' = row_NextFire r))"

lemma registered_fires_kept: "registered T j f i T' \<Longrightarrow> fires_kept T T'"
  by (auto simp: registered_def fires_kept_def split: option.splits)

lemma fires_kept_trans: "fires_kept T T' \<Longrightarrow> fires_kept T' T'' \<Longrightarrow> fires_kept T T''"
  unfolding fires_kept_def by metis

lemma registered_persisted: "registered T j f i T' \<Longrightarrow> persisted T' j"
  by (auto simp: registered_def persisted_def split: option.splits intro!: exI [of _ i])

lemma persisted_other:
  assumes "registered T j f i T'" "persisted T j'" "job_Name j' \<noteq> job_Name j"
  shows "persisted T' j'"
proof -
  obtain k r where k: "T k = Some r" "row_Name r = job_Name j'" "row_Expr r = schedule_String (job_Schedule j')"
    "row_Kind r = schedule_Kind (job_Schedule j')"
    using assms(2) by (auto simp: persisted_def)
  have "k \<noteq> i" using assms(1,3) k by (auto simp: registered_def split: option.splits)
  then have "T' k = Some r" using assms(1) k by (auto simp: registered_def split: option.splits)
  with k show ?thesis by (auto simp: persisted_def)
qed

context reliable_storage begin

lemma ensure_all_law:
  assumes "inv s" "distinct (map job_Name jobs)" "ensure_all S now jobs s = (s', e)"
  shows "inv s' \<and> e = None \<and> runs s' = runs s \<and> fires_kept (table s) (table s') \<and>
    (\<forall>j \<in> set jobs. schedule_Next (job_Schedule j) now \<noteq> zero_time \<longrightarrow> persisted (table s') j) \<and>
    (\<forall>j'. job_Name j' \<notin> job_Name ` set jobs \<longrightarrow> persisted (table s) j' \<longrightarrow> persisted (table s') j')"
  using assms
proof (induction jobs arbitrary: s)
  case Nil
  then show ?case by (simp add: fires_kept_def)
next
  case (Cons j jobs)
  let ?f = "schedule_Next (job_Schedule j) now"
  show ?case
  proof (cases "?f = zero_time")
    case True
    with Cons show ?thesis by (simp add: IsZero_def)
  next
    case False
    obtain s1 i where e: "EnsureJob S s (Some j) ?f = (s1, Inr i)"
      using ensure_reliable [OF Cons.prems(1), of j ?f] by (metis prod.collapse)
    then have reg: "inv s1" "runs s1 = runs s" "registered (table s) j (ts ?f) i (table s1)"
      using ensure_law [OF Cons.prems(1) e] by auto
    have "ensure_all S now jobs s1 = (s', e)" if "e = snd (ensure_all S now (j # jobs) s)" for e
      using Cons.prems(3) e False that by (simp add: IsZero_def Let_def)
    then have IH: "inv s' \<and> e = None \<and> runs s' = runs s1 \<and> fires_kept (table s1) (table s') \<and>
        (\<forall>j \<in> set jobs. schedule_Next (job_Schedule j) now \<noteq> zero_time \<longrightarrow> persisted (table s') j) \<and>
        (\<forall>j'. job_Name j' \<notin> job_Name ` set jobs \<longrightarrow> persisted (table s1) j' \<longrightarrow> persisted (table s') j')"
      using Cons.IH [OF reg(1)] Cons.prems(2,3) by simp
    then show ?thesis
      using reg Cons.prems(2) fires_kept_trans [OF registered_fires_kept [OF reg(3)]] registered_persisted [OF reg(3)]
        persisted_other [OF reg(3)]
      by auto
  qed
qed

end

section \<open>Properties\<close>

text \<open>
  Property C33. Before the first tick \<open>Run\<close> leaves in the storage a row for every
  registered job that has a further fire, with the schedule of this registration, and it keeps the
  fire time of every row that was there: registering a job again, also with another schedule, does
  not reset its next fire.
\<close>

theorem run_persists_jobs:
  assumes "range_order rng" "range_order jrng" "registry_inv sc" "mem_inv m"
    and "ensure_all (MemoryStorage_ops rng) now (map snd (jrng (sc_jobs sc))) m = (m', e)"
  shows "e = None \<and> mem_inv m' \<and> fires_kept (mem_table m) (mem_table m') \<and>
    (\<forall>j name. lookup sc name = Some j \<longrightarrow> schedule_Next (job_Schedule j) now \<noteq> zero_time \<longrightarrow> persisted (mem_table m') j)"
proof -
  let ?jobs = "map snd (jrng (sc_jobs sc))"
  have names: "map (job_Name \<circ> snd) (sc_jobs sc) = map fst (sc_jobs sc)"
    using assms(3) by (auto simp: registry_inv_def list_all_iff)
  have "distinct (map (job_Name \<circ> snd) (sc_jobs sc))" unfolding names using assms(3) by (simp add: registry_inv_def)
  moreover have "mset (map (job_Name \<circ> snd) (jrng (sc_jobs sc))) = mset (map (job_Name \<circ> snd) (sc_jobs sc))"
    using assms(2) by (simp add: range_order_def)
  ultimately have "distinct (map job_Name ?jobs)"
    unfolding map_map using mset_eq_imp_distinct_iff by blast
  note law = reliable_storage.ensure_all_law [OF mem_reliable [OF assms(1)] assms(4) this assms(5)]
  have "j \<in> set ?jobs" if "lookup sc name = Some j" for j name
    using that map_of_SomeD [of "sc_jobs sc" name j] range_order_set [OF assms(2)] by (force simp: lookup_def)
  with law show ?thesis by blast
qed

theorem run_persists_jobs_witness:
  "persisted (mem_table (fst (ensure_all (MemoryStorage_ops (\<lambda>xs. xs)) 0 (map snd (sc_jobs (d_scheduler (demo_D (demo_job 0 (\<lambda>_. Returns None))))))
     NewMemoryStorage))) (demo_job 0 (\<lambda>_. Returns None))"
proof -
  let ?sc = "d_scheduler (demo_D (demo_job 0 (\<lambda>_. Returns None)))"
  have reg: "registry_inv ?sc"
    by (simp add: registry_inv_def demo_D_def demo_job_def empty_scheduler_def withDefaults_policy_set)
  have nz: "schedule_Next (job_Schedule (demo_job 0 (\<lambda>_. Returns None))) 0 \<noteq> zero_time"
    by (simp add: demo_job_def time_Add_def duration_units)
  obtain m' e where m': "ensure_all (MemoryStorage_ops (\<lambda>xs. xs)) 0 (map snd (sc_jobs ?sc)) NewMemoryStorage = (m', e)"
    by fastforce
  have "\<forall>j name. lookup ?sc name = Some j \<longrightarrow> schedule_Next (job_Schedule j) 0 \<noteq> zero_time \<longrightarrow> persisted (mem_table m') j"
    using run_persists_jobs [OF range_order_id range_order_id reg mem_inv_New m'] by blast
  then have "persisted (mem_table m') (demo_job 0 (\<lambda>_. Returns None))" using demo_lookup nz by blast
  with m' show ?thesis by simp
qed

text \<open>
  While a scheduler runs, a second \<open>Run\<close> is refused and changes nothing;
  and a run that returned has released the leader role and left the scheduler ready to run again.
\<close>

theorem run_exclusive:
  assumes "leader_contract L"
  shows "(sc_running sc \<longrightarrow>
      Run sc S (Some L) parse oor m rng ctx now now1 envs hung evs s l =
        (sc, s, l, Refused (NewError ''sundial: Run is already in progress''))) \<and>
    (\<forall>sc' s' l' st err w.
      Run sc S (Some L) parse oor m rng ctx now now1 envs hung evs s l = (sc', s', l', Ran (Returned st err w)) \<longrightarrow>
      \<not> sc_running sc' \<and> \<not> IsLeader L l')"
proof (intro conjI allI impI)
  show "Run sc S (Some L) parse oor m rng ctx now now1 envs hung evs s l =
      (sc, s, l, Refused (NewError ''sundial: Run is already in progress''))" if "sc_running sc"
    using that by (simp add: Run_def)
  fix sc' s' l' st err w
  assume r: "Run sc S (Some L) parse oor m rng ctx now now1 envs hung evs s l = (sc', s', l', Ran (Returned st err w))"
  have "sc' = markStopped (sc\<lparr>sc_running := True\<rparr>) \<and> (\<exists>x. l' = fst (Release L x))"
    using r by (auto simp: Run_def Let_def split: if_splits prod.splits option.splits run_result.splits)
  moreover have "\<not> IsLeader L (fst (Release L x))" for x
    using leader_contract.release_drops [OF assms, of x] by (metis prod.collapse)
  ultimately show "\<not> sc_running sc'" "\<not> IsLeader L l'" by (auto simp: markStopped_def)
qed

theorem run_exclusive_witness:
  "Run (empty_scheduler\<lparr>sc_running := True\<rparr>) (MemoryStorage_ops (\<lambda>xs. xs)) (Some MemoryLeader_ops) (\<lambda>_. Inl ''no parser'') (\<lambda>_. 0) None
     (\<lambda>xs. xs) demo_ctx 0 0 (\<lambda>_ _. demo_env 0) False [] NewMemoryStorage NewMemoryLeader =
   (empty_scheduler\<lparr>sc_running := True\<rparr>, NewMemoryStorage, NewMemoryLeader, Refused (NewError ''sundial: Run is already in progress''))"
  using run_exclusive [OF ml.leader_contract_axioms, of "empty_scheduler\<lparr>sc_running := True\<rparr>" "MemoryStorage_ops (\<lambda>xs. xs)"
      "\<lambda>_. Inl ''no parser''" "\<lambda>_. 0" None "\<lambda>xs. xs" demo_ctx 0 0 "\<lambda>_ _. demo_env 0" False "[]" NewMemoryStorage NewMemoryLeader]
  by simp

end
