(* ===== verification/Dispatcher_Progress.thy ===== *)
theory Dispatcher_Progress
  imports Dispatcher_Properties
begin

text \<open>
  What a node achieves over many ticks: every slot of a schedule in which it ticks is served exactly
  once, a failed execution is started again by the first tick that finds its backoff over, a job that always fails is
  attempted as often as its budget says, a missed window without fires is executed at every tick, and what the
  attempt counters of several nodes add up to.
\<close>

section \<open>Slots of equal length\<close>

lemma next_slot_later: "0 < k \<Longrightarrow> t < (t div k + 1) * k" for t k :: int
proof -
  assume "0 < k"
  then have "t mod k < k" by (rule pos_mod_bound)
  moreover have "t = t div k * k + t mod k" by simp
  ultimately show ?thesis unfolding distrib_right by linarith
qed

lemma same_slot: "0 < k \<Longrightarrow> t \<le> u \<Longrightarrow> u < (t div k + 1) * k \<Longrightarrow> u div k = t div k" for t u k :: int
  using zdiv_mono1 [of t u k] div_mult_mod_eq [of u k] pos_mod_sign [of k u]
  by (smt (verit) mult_le_cancel_right)

section \<open>One job over one tick\<close>

context storage_contract begin

lemma dispatch_all_keeps:
  assumes "d_storage D = S" "inv (st_storage st)"
  shows "inv (st_storage (dispatch_all D envs ctx now k due st)) \<and>
    dom (table (st_storage (dispatch_all D envs ctx now k due st))) = dom (table (st_storage st))"
  using assms(2)
proof (induction due arbitrary: k st)
  case Nil
  then show ?case by simp
next
  case (Cons dj due)
  show ?case
    using maybeDispatch_touches [OF assms(1) Cons.prems(1), of dj "envs k" ctx now]
      Cons.IH [of "maybeDispatch D (envs k) ctx dj now st" "Suc k"]
    by (simp add: touches_def)
qed

text \<open>With no more rows than the limit of the fetch, every due row is fetched.\<close>

lemma snapshot_complete:
  assumes "due_snapshot T now limit ds" "finite (dom T)" "int (card (dom T)) \<le> effective_limit limit"
    and "T i = Some r" "row_NextFire r \<le> now"
  shows "due_of_row i r \<in> set ds"
proof (rule ccontr)
  have row: "T (dj_ID d) \<noteq> None" "T (dj_ID d) = Some r \<Longrightarrow> d = due_of_row (dj_ID d) r" if "d \<in> set ds" for d
    using assms(1) that by (auto simp: due_snapshot_def)
  assume "due_of_row i r \<notin> set ds"
  then have i: "i \<notin> dj_ID ` set ds" using row(2) assms(4) by auto
  then have full: "int (length ds) = effective_limit limit"
    using assms(1,4,5) unfolding due_snapshot_def by blast
  have "insert i (dj_ID ` set ds) \<subseteq> dom T" using row(1) assms(4) by auto
  then have "card (insert i (dj_ID ` set ds)) \<le> card (dom T)" by (rule card_mono [OF assms(2)])
  moreover have "card (dj_ID ` set ds) = length ds"
    using assms(1) distinct_card [of "map dj_ID ds"] by (simp add: due_snapshot_def)
  ultimately show False using i full assms(3) by simp
qed

end

text \<open>The goroutines of one job.\<close>

definition spawns_of :: "string \<Rightarrow> (Job \<times> DueJob \<times> gotime) list \<Rightarrow> (Job \<times> DueJob \<times> gotime) list" where
  "spawns_of i xs = filter (\<lambda>(job, dj, t). dj_ID dj = i) xs"

lemma spawns_of_simps [simp]:
  "spawns_of i [] = []" "spawns_of i (xs @ ys) = spawns_of i xs @ spawns_of i ys"
  "spawns_of i ((job, dj, t) # xs) = (if dj_ID dj = i then (job, dj, t) # spawns_of i xs else spawns_of i xs)"
  by (simp_all add: spawns_of_def)

lemma spawns_of_unique:
  assumes "distinct (map (dj_ID \<circ> fst \<circ> snd) xs)" "(job, dj, t) \<in> set xs"
  shows "spawns_of (dj_ID dj) xs = [(job, dj, t)]"
  using assms
proof (induction xs)
  case (Cons x xs)
  obtain job' dj' t' where x: "x = (job', dj', t')" by (cases x) auto
  show ?case
  proof (cases "x = (job, dj, t)")
    case True
    then have "dj_ID dj \<notin> set (map (dj_ID \<circ> fst \<circ> snd) xs)" using Cons.prems(1) by auto
    then have "spawns_of (dj_ID dj) xs = []" by (force simp: spawns_of_def filter_empty_conv)
    with True show ?thesis by simp
  next
    case False
    then have mem: "(job, dj, t) \<in> set xs" using Cons.prems(2) by auto
    then have "dj_ID dj' \<noteq> dj_ID dj" using Cons.prems(1) x by force
    with Cons.IH mem Cons.prems(1) x show ?thesis by simp
  qed
qed simp

text \<open>Only an execution touches a counter, and a dispatch executes only what it replays.\<close>

lemma replay_attempts:
  "dj_ID dj \<noteq> i \<Longrightarrow> st_attempts (replay D envs parent job dj k fires st) i = st_attempts st i"
  by (induction fires arbitrary: k st) simp_all

lemma runAllMissed_attempts:
  "dj_ID dj \<noteq> i \<Longrightarrow> st_attempts (runAllMissed D envs parent job dj now st) i = st_attempts st i"
  by (auto simp: runAllMissed_def Let_def case_prod_beta replay_attempts split: sum.splits)

lemma maybeDispatch_attempts:
  assumes "dj_ID dj \<noteq> i \<or> (\<forall>job. decide D st dj now \<noteq> Replay job)"
  shows "st_attempts (maybeDispatch D envs ctx dj now st) i = st_attempts st i"
proof (cases "decide D st dj now")
  case Ignore
  then show ?thesis using decide_IgnoreD [OF Ignore, of envs ctx] by auto
next
  case (Skip_to t)
  then show ?thesis using decide_Skip_toD [OF Skip_to, of envs ctx] by auto
next
  case (Replay job)
  with assms show ?thesis by (simp add: decide_ReplayD runAllMissed_attempts)
next
  case (Claim job t)
  then show ?thesis using decide_ClaimD [OF Claim, of envs ctx] by (auto split: if_splits)
qed

lemma dispatch_all_attempts:
  assumes "\<And>d job. d \<in> set due \<Longrightarrow> dj_ID d = i \<Longrightarrow> decide D st d now \<noteq> Replay job"
  shows "st_attempts (dispatch_all D envs ctx now k due st) i = st_attempts st i"
  using assms
proof (induction due arbitrary: k st)
  case (Cons dj due)
  let ?st = "maybeDispatch D (envs k) ctx dj now st"
  have "decide D ?st d now = decide D st d now" for d by (rule decide_leader) (rule maybeDispatch_leader)
  with Cons.IH [of ?st "Suc k"] Cons.prems maybeDispatch_attempts [of dj i D st now "envs k" ctx] show ?case by auto
qed simp

text \<open>The recorded runs of one job: only an execution of the job adds to them.\<close>

definition runs_of :: "string \<Rightarrow> RunRecord list \<Rightarrow> RunRecord list" where
  "runs_of i rs = filter (\<lambda>r. rr_JobID r = i) rs"

lemma runs_of_append [simp]: "runs_of i (xs @ ys) = runs_of i xs @ runs_of i ys"
  by (simp add: runs_of_def)

lemma run_ts_JobID [simp]: "rr_JobID (run_ts ts r) = rr_JobID r"
  by (simp add: run_ts_def)

context storage_contract begin

lemma exec_runs_of:
  assumes "d_storage D = S" "inv s" "dj_ID dj \<noteq> i"
  shows "runs_of i (runs (exec_storage D env parent job dj n s)) = runs_of i (runs s)"
  using exec_storage_law [OF assms(1,2) refl refl, of env parent job dj n] assms(3) by (auto simp: runs_of_def)

lemma replay_runs_of:
  assumes "d_storage D = S" "inv (st_storage st)" "dj_ID dj \<noteq> i"
  shows "runs_of i (runs (st_storage (replay D envs parent job dj k fires st))) = runs_of i (runs (st_storage st))"
  using assms(2)
proof (induction fires arbitrary: k st)
  case (Cons f fires)
  let ?dj = "dj\<lparr>dj_NextFireTime := f\<rparr>"
  have "inv (st_storage (executeAtFire D (envs k) parent job ?dj st))"
    using exec_storage_law [OF assms(1) Cons.prems refl refl, of "envs k" parent job ?dj "exec_attempt st ?dj"] by simp
  from Cons.IH [OF this] show ?case
    using exec_runs_of [OF assms(1) Cons.prems, of ?dj i] assms(3) by simp
qed simp

lemma claim_runs: "inv s \<Longrightarrow> runs (fst (ClaimJob S s j t)) = runs s"
  using claim_law [of s j t] by (cases "ClaimJob S s j t") auto

lemma runAllMissed_runs_of:
  assumes "d_storage D = S" "inv (st_storage st)" "dj_ID dj \<noteq> i"
  shows "runs_of i (runs (st_storage (runAllMissed D envs parent job dj now st))) = runs_of i (runs (st_storage st))"
proof (cases "loadScheduleFromDue (d_cron D) dj")
  case (Inl e)
  then show ?thesis by (simp add: runAllMissed_def)
next
  case (Inr sched)
  let ?fires = "iterateSchedule (Some sched) (dj_NextFireTime dj) now maxCatchupInstants"
  define st1 where "st1 = replay D envs parent job dj 0 ?fires (logging Log_Info ''missed fire RunAll replay'' (dj_Name dj) st)"
  have st1: "inv (st_storage st1)" "runs_of i (runs (st_storage st1)) = runs_of i (runs (st_storage st))"
    using replay_keeps [OF assms(1) _ st1_def] replay_runs_of [OF assms(1) _ assms(3)] assms(2) by (simp_all add: st1_def)
  show ?thesis
    using Inr st1 assms(1) claim_runs [OF st1(1)] exec_runs_of [OF assms]
    by (auto simp: runAllMissed_def Let_def st1_def [symmetric] case_prod_beta split: sum.splits)
qed

lemma maybeDispatch_runs_of:
  assumes "d_storage D = S" "inv (st_storage st)" "dj_ID dj \<noteq> i \<or> (\<forall>job. decide D st dj now \<noteq> Replay job)"
  shows "runs_of i (runs (st_storage (maybeDispatch D envs ctx dj now st))) = runs_of i (runs (st_storage st))"
proof (cases "decide D st dj now")
  case Ignore
  then show ?thesis using decide_IgnoreD [OF Ignore, of envs ctx] by auto
next
  case (Skip_to t)
  then show ?thesis using decide_Skip_toD [OF Skip_to, of envs ctx] claim_runs [OF assms(2)] assms(1) by auto
next
  case (Replay job)
  then show ?thesis using assms(3) runAllMissed_runs_of [OF assms(1,2)] by (simp add: decide_ReplayD)
next
  case (Claim job t)
  then show ?thesis
    using decide_ClaimD [OF Claim, of envs ctx] claim_runs [OF assms(2)] assms(1) by (auto split: if_splits)
qed

lemma dispatch_all_runs_of:
  assumes "d_storage D = S" "inv (st_storage st)"
    and "\<And>d job. d \<in> set due \<Longrightarrow> dj_ID d = i \<Longrightarrow> decide D st d now \<noteq> Replay job"
  shows "runs_of i (runs (st_storage (dispatch_all D envs ctx now k due st))) = runs_of i (runs (st_storage st))"
  using assms(2,3)
proof (induction due arbitrary: k st)
  case (Cons dj due)
  let ?st = "maybeDispatch D (envs k) ctx dj now st"
  have "decide D ?st d now = decide D st d now" for d by (rule decide_leader) (rule maybeDispatch_leader)
  moreover have "inv (st_storage ?st)" using maybeDispatch_touches [OF assms(1) Cons.prems(1)] by (simp add: touches_def)
  ultimately show ?case
    using Cons.IH [of ?st "Suc k"] Cons.prems maybeDispatch_runs_of [OF assms(1) Cons.prems(1), of dj i now "envs k" ctx]
    by auto
qed simp

end

context reliable_storage begin

text \<open>A tick before the fire of a job leaves its row, its counter, its goroutines and its runs alone.\<close>

lemma tick_not_due:
  assumes "d_storage D = S" "inv (st_storage st)" "table (st_storage st) i = Some r" "ts now < row_NextFire r"
    and st': "st' = tick D envs ctx now st"
  shows "inv (st_storage st') \<and> dom (table (st_storage st')) = dom (table (st_storage st)) \<and>
    spawns_of i (st_spawned st') = spawns_of i (st_spawned st) \<and> table (st_storage st') i = Some r \<and>
    st_attempts st' i = st_attempts st i \<and> runs_of i (runs (st_storage st')) = runs_of i (runs (st_storage st))"
proof -
  obtain due s where f: "FetchDue S (st_storage st) now 64 = (s, Inr due)"
    using fetch_reliable [OF assms(2), of now 64] by (metis prod.collapse)
  have s: "inv s" "table s = table (st_storage st)" "due_snapshot (table s) (ts now) 64 due" "runs s = runs (st_storage st)"
    using fetch_law [OF assms(2) f] by auto
  let ?st = "st\<lparr>st_storage := s\<rparr>"
  have st'_eq: "st' = dispatch_all D envs ctx now 0 due ?st" unfolding st' using f assms(1) by (simp add: tick_def)
  have i: "i \<notin> dj_ID ` set due" using s(2,3) assms(3,4) unfolding due_snapshot_def by force
  obtain new where new: "st_spawned st' = st_spawned st @ new" "subseq (map (fst \<circ> snd) new) due"
    using dispatch_all_spawns [of D envs ctx now 0 due ?st] unfolding st'_eq by auto
  have "fst (snd x) \<in> set due" if "x \<in> set new" for x
    using list_emb_set [OF new(2), of "fst (snd x)"] that by auto
  then have "spawns_of i new = []" using i by (force simp: spawns_of_def filter_empty_conv)
  moreover have "st_attempts st' i = st_attempts st i"
    using dispatch_all_attempts [of due i D ?st now envs ctx 0] i unfolding st'_eq by force
  moreover have "runs_of i (runs (st_storage st')) = runs_of i (runs (st_storage st))"
    using dispatch_all_runs_of [OF assms(1), of ?st due i now envs ctx 0] s(1,4) i unfolding st'_eq by force
  ultimately show ?thesis
    using dispatch_all_untouched [OF assms(1), of ?st i due envs ctx now 0] new(1) assms(3) s(1,2) i unfolding st'_eq by simp
qed

lemma ticks_not_due:
  assumes "d_storage D = S" "inv (st_storage st)" "table (st_storage st) i = Some r"
    and "\<And>t envs. (t, envs) \<in> set ticks \<Longrightarrow> ts t < row_NextFire r"
    and st': "st' = fold (\<lambda>(t, envs). tick D envs ctx t) ticks st"
  shows "inv (st_storage st') \<and> dom (table (st_storage st')) = dom (table (st_storage st)) \<and>
    spawns_of i (st_spawned st') = spawns_of i (st_spawned st) \<and> table (st_storage st') i = Some r \<and>
    st_attempts st' i = st_attempts st i \<and> runs_of i (runs (st_storage st')) = runs_of i (runs (st_storage st))"
  using assms(2-4) unfolding st'
proof (induction ticks arbitrary: st)
  case (Cons x ticks)
  obtain t envs where x: "x = (t, envs)" by fastforce
  have "ts t < row_NextFire r" using Cons.prems(3) [of t envs] x by simp
  from tick_not_due [OF assms(1) Cons.prems(1,2) this refl, of envs ctx] Cons.IH [of "tick D envs ctx t st"] Cons.prems(3) x
  show ?case by auto
qed simp

lemma tick_one_job:
  assumes "d_storage D = S" "inv (st_storage st)" "finite (dom (table (st_storage st)))" "card (dom (table (st_storage st))) \<le> 64"
    and row: "table (st_storage st) i = Some r" "dj = due_of_row i r"
    and "decide D st dj now = Claim job t" "ts now < ts t" and st': "st' = tick D envs ctx now st"
  shows "inv (st_storage st') \<and> dom (table (st_storage st')) = dom (table (st_storage st)) \<and>
    spawns_of i (st_spawned st') = spawns_of i (st_spawned st) @ (if row_NextFire r \<le> ts now then [(job, dj, t)] else []) \<and>
    table (st_storage st') i = Some (if row_NextFire r \<le> ts now then r\<lparr>row_NextFire := ts t\<rparr> else r) \<and>
    st_attempts st' i = st_attempts st i \<and> runs_of i (runs (st_storage st')) = runs_of i (runs (st_storage st))"
proof -
  obtain due s where f: "FetchDue S (st_storage st) now 64 = (s, Inr due)"
    using fetch_reliable [OF assms(2), of now 64] by (metis prod.collapse)
  have s: "inv s" "table s = table (st_storage st)" "due_snapshot (table s) (ts now) 64 due" "runs s = runs (st_storage st)"
    using fetch_law [OF assms(2) f] by auto
  let ?st = "st\<lparr>st_storage := s\<rparr>"
  have st'_eq: "st' = dispatch_all D envs ctx now 0 due ?st" unfolding st' using f assms(1) by (simp add: tick_def)
  have kept: "inv (st_storage st')" "dom (table (st_storage st')) = dom (table (st_storage st))"
    using dispatch_all_keeps [OF assms(1), of ?st envs ctx now 0 due] s(1,2) unfolding st'_eq by simp_all
  obtain new where new: "st_spawned st' = st_spawned st @ new" "subseq (map (fst \<circ> snd) new) due"
    using dispatch_all_spawns [of D envs ctx now 0 due ?st] unfolding st'_eq by auto
  have dist: "distinct (map dj_ID due)" using s(3) by (simp add: due_snapshot_def)
  obtain N where N: "map (dj_ID \<circ> fst \<circ> snd) new = nths (map dj_ID due) N"
    using subseq_map [OF new(2), of dj_ID] unfolding subseq_conv_nths by (auto simp: comp_assoc)
  have ids: "distinct (map (dj_ID \<circ> fst \<circ> snd) new)" "set (map (dj_ID \<circ> fst \<circ> snd) new) \<subseteq> dj_ID ` set due"
    unfolding N using distinct_nthsI [OF dist] set_nths_subset [of "map dj_ID due" N] by simp_all
  have dj: "dj_ID dj = i" by (simp add: row(2) due_of_row_def)
  have claim: "decide D ?st dj now = Claim job t" unfolding assms(7) [symmetric] by (rule decide_leader) simp
  have "d = dj" if "d \<in> set due" "dj_ID d = i" for d
    using s(2,3) row that unfolding due_snapshot_def by force
  then have only: "decide D ?st d now \<noteq> Replay job'" if "d \<in> set due" "dj_ID d = i" for d job' using claim that by auto
  have counted: "st_attempts st' i = st_attempts st i" "runs_of i (runs (st_storage st')) = runs_of i (runs (st_storage st))"
    using dispatch_all_attempts [of due i D ?st now envs ctx 0] dispatch_all_runs_of [OF assms(1), of ?st due i now envs ctx 0] only s(1,4)
    unfolding st'_eq by simp_all
  show ?thesis
  proof (cases "row_NextFire r \<le> ts now")
    case True
    note claim
    moreover have "claimable (table s) (dj_ID dj) (ts t)" using row(1) dj s(2) True assms(8) by (simp add: claimable_def)
    moreover have "dj \<in> set due"
      unfolding row(2) by (rule snapshot_complete [OF s(3)]) (use assms(3,4) row True s(2) in \<open>simp_all add: effective_limit_def\<close>)
    ultimately have served: "(job, dj, t) \<in> set new" "table (st_storage st') i = advance (table s) i (ts t) i"
      using dispatch_all_claims [OF assms(1), of ?st due dj now job t envs ctx 0] s(1) dist dj new(1) unfolding st'_eq by auto
    from spawns_of_unique [OF ids(1) served(1)] served(2) show ?thesis
      using kept counted new(1) dj True row(1) s(2) assms(8) by (simp add: advance_apply)
  next
    case False
    then show ?thesis using tick_not_due [OF assms(1,2) row(1) _ st'] by simp
  qed
qed

end

section \<open>One job over many ticks\<close>

lemma maybeRenewLeader_frame [simp]:
  "st_storage (maybeRenewLeader D st) = st_storage st" "st_spawned (maybeRenewLeader D st) = st_spawned st"
  by (auto simp: maybeRenewLeader_def Let_def split: option.splits prod.splits sum.splits)

text \<open>
  The reference: a job whose row is at \<open>f\<close> is served by the ticks that find it due, each of which moves
  it to the fire after the tick. \<open>served\<close> lists these fires.
\<close>

fun served :: "(gotime \<Rightarrow> gotime) \<Rightarrow> gotime \<Rightarrow> gotime list \<Rightarrow> gotime list" where
  "served nxt f [] = []"
| "served nxt f (t # ticks) = (if f \<le> t then nxt t # served nxt (nxt t) ticks else served nxt f ticks)"

text \<open>On a schedule with slots the reference serves each slot that has a tick, once.\<close>

lemma served_slots:
  assumes "\<And>t u. t \<le> u \<Longrightarrow> u < nxt t \<Longrightarrow> nxt u = nxt t" "\<And>t. t \<in> set ticks \<Longrightarrow> t < nxt t"
    and "sorted (t # ticks)"
  shows "nxt t # served nxt (nxt t) ticks = remdups_adj (nxt t # map nxt ticks)"
  using assms(2,3)
proof (induction ticks arbitrary: t)
  case Nil
  show ?case by simp
next
  case (Cons u ticks)
  show ?case
  proof (cases "nxt t \<le> u")
    case True
    then have "nxt u \<noteq> nxt t" using Cons.prems(1) [of u] by auto
    with True Cons.IH [of u] Cons.prems show ?thesis by simp
  next
    case False
    then have "nxt u = nxt t" using assms(1) [of t u] Cons.prems(2) by simp
    with False Cons.IH [of t] Cons.prems show ?thesis by simp
  qed
qed

fun ticks_of :: "('s, 'l) loop_event list \<Rightarrow> gotime list" where
  "ticks_of [] = []"
| "ticks_of (On_tick now envs # evs) = now # ticks_of evs"
| "ticks_of (ev # evs) = ticks_of evs"

definition targets_of :: "string \<Rightarrow> ('s, 'l) dstate \<Rightarrow> gotime list" where
  "targets_of i st = map (\<lambda>(job, dj, t). t) (spawns_of i (st_spawned st))"

lemma due_of_row_fields [simp]:
  "dj_ID (due_of_row i r) = i" "dj_Name (due_of_row i r) = row_Name r" "dj_NextFireTime (due_of_row i r) = row_NextFire r"
  by (simp_all add: due_of_row_def)

lemma due_of_row_reload [simp]:
  "loadScheduleFromDue parse (due_of_row i (r\<lparr>row_NextFire := f\<rparr>)) = loadScheduleFromDue parse (due_of_row i r)"
  by (simp add: loadScheduleFromDue_def due_of_row_def split: option.splits)

lemma decide_run_once:
  assumes "lookup (d_scheduler D) (dj_Name dj) = Some job" "\<not> LeaderOnly (job_Options job)"
    and "MissedFire (job_Options job) = MissedFireRunOnce"
    and "loadScheduleFromDue (d_cron D) dj = Inr s" "schedule_Next s now \<noteq> zero_time"
  shows "decide D st dj now = Claim job (schedule_Next s now)"
  using assms computeNextFire_load_Inr [OF assms(4), of now] by (intro decide_ClaimI) auto

text \<open>What happens between the ticks must leave the table and the list of goroutines alone.\<close>

fun undisturbing :: "('s \<Rightarrow> bool) \<Rightarrow> ('s \<Rightarrow> jobtable) \<Rightarrow> ('s, 'l) loop_event \<Rightarrow> bool" where
  "undisturbing I T (On_tick now envs) \<longleftrightarrow> True"
| "undisturbing I T (On_hung_tick now envs) \<longleftrightarrow> False"
| "undisturbing I T On_leader \<longleftrightarrow> True"
| "undisturbing I T (On_done err busy first) \<longleftrightarrow> False"
| "undisturbing I T (Elsewhere f) \<longleftrightarrow>
     (\<forall>st. I (st_storage st) \<longrightarrow> I (st_storage (f st)) \<and> T (st_storage (f st)) = T (st_storage st) \<and>
        st_spawned (f st) = st_spawned st)"

context reliable_storage begin

lemma run_loop_served:
  assumes "d_storage D = S" "lookup (d_scheduler D) (row_Name r) = Some job" "\<not> LeaderOnly (job_Options job)"
    and "MissedFire (job_Options job) = MissedFireRunOnce" "loadScheduleFromDue (d_cron D) (due_of_row i r) = Inr s"
    and "list_all (undisturbing inv table) evs" "\<And>t. t \<in> set (ticks_of evs) \<Longrightarrow> schedule_Next s t \<noteq> zero_time \<and> ts t < ts (schedule_Next s t)"
    and "inv (st_storage st)" "finite (dom (table (st_storage st)))" "card (dom (table (st_storage st))) \<le> 64"
    and "table (st_storage st) i = Some (r\<lparr>row_NextFire := f\<rparr>)" and id: "\<And>t. ts t = t"
  shows "\<exists>st'. run_loop D ctx evs st = Running st' \<and>
    targets_of i st' = targets_of i st @ served (schedule_Next s) f (ticks_of evs)"
  using assms(6-11)
proof (induction evs arbitrary: st f)
  case Nil
  then show ?case by simp
next
  case (Cons ev evs)
  note IH = Cons.IH [OF _ _ _ _ _ _]
  show ?case
  proof (cases ev)
    case (On_tick now envs)
    let ?dj = "due_of_row i (r\<lparr>row_NextFire := f\<rparr>)" and ?t = "schedule_Next s now"
    let ?st = "tick D envs ctx now st"
    have nx: "?t \<noteq> zero_time" "ts now < ts ?t" using Cons.prems(2) [of now] On_tick by auto
    have d: "decide D st ?dj now = Claim job ?t"
      by (rule decide_run_once) (use assms(2-5) nx in simp_all)
    note one = tick_one_job [OF assms(1) Cons.prems(3-6) refl d nx(2) refl, of envs ctx]
    have "table (st_storage ?st) i = Some (r\<lparr>row_NextFire := if f \<le> now then ?t else f\<rparr>)"
      using one id by auto
    from IH [OF _ _ _ _ _ this] one Cons.prems On_tick obtain st' where
      "run_loop D ctx evs ?st = Running st'"
      "targets_of i st' = targets_of i ?st @ served (schedule_Next s) (if f \<le> now then ?t else f) (ticks_of evs)"
      by auto
    moreover have "targets_of i ?st = targets_of i st @ (if f \<le> now then [?t] else [])"
      using one id by (simp add: targets_of_def)
    ultimately show ?thesis using On_tick by simp
  next
    case (On_hung_tick now envs)
    then show ?thesis using Cons.prems(1) by simp
  next
    case On_leader
    then show ?thesis
      using IH [of "maybeRenewLeader D st" f] Cons.prems by (simp add: targets_of_def)
  next
    case (On_done err busy first)
    then show ?thesis using Cons.prems(1) by simp
  next
    case (Elsewhere g)
    then show ?thesis
      using IH [of "g st" f] Cons.prems by (simp add: targets_of_def)
  qed
qed

end

section \<open>Properties\<close>

lemma mem_table_card: "finite (dom (mem_table m)) \<and> card (dom (mem_table m)) \<le> length (mem_jobs m)"
proof -
  have "dom (mem_table m) \<subseteq> set (map (mj_ID \<circ> snd) (mem_jobs m))"
    by (force simp: mem_table_def dest: map_of_SomeD)
  then show ?thesis
    by (metis List.finite_set card_length card_mono finite_subset length_map order_trans)
qed

text \<open>
  Property C4. A node that ticks at the instants \<open>ticks_of evs\<close>, in ascending order, with other goroutines
  doing whatever does not move rows in between, starts a job whose schedule has slots exactly once for every slot
  in which it ticks: the fires it claims are the next fires of its ticks, without repetition. The backend is the in-memory one
  with at most 64 jobs (the limit of a fetch); the job is due at the first tick, is not leader-only and has
  the policy \<open>RunOnce\<close>.
\<close>

theorem slots_served_once:
  assumes "range_order rng" "d_storage D = MemoryStorage_ops rng" "mem_inv (st_storage st)" "length (mem_jobs (st_storage st)) \<le> 64"
    and "mem_table (st_storage st) i = Some r" "lookup (d_scheduler D) (row_Name r) = Some job"
    and "\<not> LeaderOnly (job_Options job)" "MissedFire (job_Options job) = MissedFireRunOnce"
    and "loadScheduleFromDue (d_cron D) (due_of_row i r) = Inr s"
    and "\<And>t u. t \<le> u \<Longrightarrow> u < schedule_Next s t \<Longrightarrow> schedule_Next s u = schedule_Next s t"
    and "\<And>t. t \<in> set (ticks_of evs) \<Longrightarrow> 0 \<le> t \<and> row_NextFire r \<le> t \<and> t < schedule_Next s t"
    and "sorted (ticks_of evs)" "list_all (undisturbing mem_inv mem_table) evs"
  shows "\<exists>st'. run_loop D ctx evs st = Running st' \<and>
    targets_of i st' = targets_of i st @ remdups_adj (map (schedule_Next s) (ticks_of evs))"
proof -
  have "\<exists>st'. run_loop D ctx evs st = Running st' \<and>
      targets_of i st' = targets_of i st @ served (schedule_Next s) (row_NextFire r) (ticks_of evs)"
  proof (rule reliable_storage.run_loop_served [OF mem_reliable [OF assms(1)] assms(2,6-9,13)])
    show "schedule_Next s t \<noteq> zero_time \<and> t < schedule_Next s t" if "t \<in> set (ticks_of evs)" for t
      using assms(11) [OF that] by auto
  qed (use assms mem_table_card [of "st_storage st"] in auto)
  moreover have "served (schedule_Next s) (row_NextFire r) (ticks_of evs) = remdups_adj (map (schedule_Next s) (ticks_of evs))"
  proof (cases "ticks_of evs")
    case (Cons t ticks)
    then show ?thesis
      using served_slots [of "schedule_Next s" ticks t] assms(10-12) by simp
  qed simp
  ultimately show ?thesis by simp
qed

text \<open>A job every full minute, ticks in two slots.\<close>

definition minute_mem :: MemoryStorage where
  "minute_mem =
     \<lparr>mem_jobs = [(''j'', \<lparr>mj_ID = ''mem-job-1'', mj_Name = ''j'', mj_NextFireTime = Minute, mj_Schedule = ''* * * * *'',
                          mj_ScheduleKind = ''cron'', mj_Locked = False\<rparr>)],
      mem_runs = [], mem_next = 1\<rparr>"

definition minute_D :: "(MemoryStorage, MemoryLeader) dispatcher" where
  "minute_D = (demo_D (demo_job MissedFireRunOnce (\<lambda>_. Returns None)))\<lparr>d_cron := (\<lambda>expr. Inr (\<lambda>t. (t div Minute + 1) * Minute))\<rparr>"

theorem slots_served_once_witness:
  "\<exists>st'. run_loop minute_D demo_ctx [On_tick (61 * Second) (\<lambda>_ _. demo_env 0), On_tick (62 * Second) (\<lambda>_ _. demo_env 0),
       On_leader, On_tick (121 * Second) (\<lambda>_ _. demo_env 0)] (demo_st minute_mem) = Running st' \<and>
     targets_of ''mem-job-1'' st' = [2 * Minute, 3 * Minute]"
proof -
  let ?s = "cronSchedule ''* * * * *'' (\<lambda>t. (t div Minute + 1) * Minute)"
  let ?r = "\<lparr>row_Name = ''j'', row_NextFire = Minute, row_Expr = ''* * * * *'', row_Kind = ''cron''\<rparr>"
  let ?evs = "[On_tick (61 * Second) (\<lambda>_ _. demo_env 0), On_tick (62 * Second) (\<lambda>_ _. demo_env 0), On_leader,
    On_tick (121 * Second) (\<lambda>_ _. demo_env 0)] :: (MemoryStorage, MemoryLeader) loop_event list"
  have pos: "0 < Minute" by (simp add: duration_units)
  have "mem_id 1 = ''mem-job-1''" by code_simp
  then have m: "mem_inv minute_mem" "mem_table minute_mem ''mem-job-1'' = Some ?r" "length (mem_jobs minute_mem) \<le> 64"
    by (simp_all add: mem_inv_def mem_table_def minute_mem_def mem_row_def)
  have "\<exists>st'. run_loop minute_D demo_ctx ?evs (demo_st minute_mem) = Running st' \<and>
      targets_of ''mem-job-1'' st' = targets_of ''mem-job-1'' (demo_st minute_mem) @ remdups_adj (map (schedule_Next ?s) (ticks_of ?evs))"
  proof (rule slots_served_once [where rng = "\<lambda>xs. xs" and job = "demo_job MissedFireRunOnce (\<lambda>_. Returns None)" and r = ?r])
    show "loadScheduleFromDue (d_cron minute_D) (due_of_row ''mem-job-1'' ?r) = Inr ?s"
      by (simp add: loadScheduleFromDue_def due_of_row_def minute_D_def Cron_def)
    show "schedule_Next ?s u = schedule_Next ?s t" if "t \<le> u" "u < schedule_Next ?s t" for t u
      using same_slot [OF pos that(1)] that(2) by simp
  qed (use m in \<open>auto simp: minute_D_def duration_units\<close>)
  then show ?thesis by (simp add: targets_of_def duration_units)
qed

section \<open>Retries\<close>

text \<open>
  Property C7. A failed execution with attempts left is not forgotten: its row is pulled back to the end of the
  backoff, ticks before that instant (or before the regular fire, when that comes first) start nothing, and the first tick
  at or after it starts the job again, exactly once, and that execution will count as the next attempt. Between the
  execution and that tick there are only ticks of this node. This is the in-memory backend with at most 64 jobs
  (the limit of a fetch), and the job is not leader-only and has the policy \<open>RunOnce\<close>.
\<close>

theorem retry_runs_again:
  assumes "range_order rng" "d_storage D = MemoryStorage_ops rng" "mem_inv (st_storage st)" "length (mem_jobs (st_storage st)) \<le> 64"
    and "mem_table (st_storage st) (dj_ID dj) = Some r" "lookup (d_scheduler D) (row_Name r) = Some job"
    and "\<not> LeaderOnly (job_Options job)" "MissedFire (job_Options job) = MissedFireRunOnce"
    and "loadScheduleFromDue (d_cron D) (due_of_row (dj_ID dj) r) = Inr s"
    and "exec_error env ctx job = Some e" "exec_attempt st dj < MaxAttempts (Retry (job_Options job))"
    and f: "f = min (row_NextFire r) (exec_retryAt D env job (exec_attempt st dj))"
    and early: "\<And>t envs. (t, envs) \<in> set early \<Longrightarrow> t < f"
    and "f \<le> now" "0 \<le> now" "now < schedule_Next s now"
  shows "let st1 = execute D env ctx job dj cf st; st2 = fold (\<lambda>(t, envs). tick D envs ctx t) early st1;
      st3 = tick D envs ctx now st2 in
    spawns_of (dj_ID dj) (st_spawned st2) = spawns_of (dj_ID dj) (st_spawned st) \<and>
    (\<exists>d. spawns_of (dj_ID dj) (st_spawned st3) = spawns_of (dj_ID dj) (st_spawned st2) @ [(job, d, schedule_Next s now)] \<and>
      dj_ID d = dj_ID dj \<and> dj_NextFireTime d = f \<and> exec_attempt st3 d = wrap64 (exec_attempt st dj + 1))"
proof -
  let ?i = "dj_ID dj" and ?n = "exec_attempt st dj"
  let ?st1 = "execute D env ctx job dj cf st"
  let ?st2 = "fold (\<lambda>(t, envs). tick D envs ctx t) early ?st1"
  let ?d = "due_of_row ?i (r\<lparr>row_NextFire := f\<rparr>)"
  have retried: "exec_retried job ?n (exec_error env ctx job)" using assms(10,11) by (simp add: exec_retried_def)
  note R = mem_reliable [OF assms(1)]
  note law = reliable_storage.exec_storage_reliable [OF R assms(2,3) _ refl refl, of dj env ctx job ?n]
  have st1: "mem_inv (st_storage ?st1)" "mem_table (st_storage ?st1) = pull_back (mem_table (st_storage st)) ?i (exec_retryAt D env job ?n)"
    using law assms(5) retried by (auto simp: execute_storage_eq)
  have row: "mem_table (st_storage ?st1) ?i = Some (r\<lparr>row_NextFire := f\<rparr>)"
    using assms(5) f by (simp add: st1(2) pull_back_apply)
  have dom: "dom (mem_table (st_storage ?st1)) = dom (mem_table (st_storage st))"
    using pulled_pull_back [of ?i] unfolding st1(2) pulled_def by blast
  have "t < row_NextFire (r\<lparr>row_NextFire := f\<rparr>)" if "(t, envs) \<in> set early" for t envs
    using early [OF that] by simp
  note quiet = reliable_storage.ticks_not_due [where ctx = ctx, OF R assms(2) st1(1) row this refl]
  have decide: "decide D st' ?d now = Claim job (schedule_Next s now)" for st'
    by (rule decide_run_once) (use assms(6-9,15,16) in auto)
  have size: "card (dom (mem_table (st_storage st))) \<le> 64" "finite (dom (mem_table (st_storage st)))"
    using mem_table_card [of "st_storage st"] assms(4) by auto
  have st2: "mem_inv (st_storage ?st2)" "mem_table (st_storage ?st2) ?i = Some (r\<lparr>row_NextFire := f\<rparr>)"
    "dom (mem_table (st_storage ?st2)) = dom (mem_table (st_storage st))"
    "spawns_of ?i (st_spawned ?st2) = spawns_of ?i (st_spawned ?st1)" "st_attempts ?st2 ?i = Some ?n"
    using quiet dom retried by (simp_all add: execute_attempts_eq)
  from reliable_storage.tick_one_job [OF R assms(2) st2(1) _ _ st2(2) refl decide assms(16) refl, of envs ctx] size
  have st3: "spawns_of ?i (st_spawned (tick D envs ctx now ?st2)) = spawns_of ?i (st_spawned ?st2) @ [(job, ?d, schedule_Next s now)]"
    "st_attempts (tick D envs ctx now ?st2) ?i = Some ?n"
    using assms(14) st2(3,5) by simp_all
  from st3(2) have "exec_attempt (tick D envs ctx now ?st2) ?d = wrap64 (?n + 1)"
    by (simp add: exec_attempt_def attempt_count_def)
  with st3(1) st2(4) show ?thesis
    unfolding Let_def by (intro conjI exI [of _ ?d]) simp_all
qed

definition boom_job :: Job where
  "boom_job = demo_job MissedFireRunOnce (\<lambda>_. Panics ''boom'')"

text \<open>The end of the backoff after an attempt whose timestamps start at \<open>t\<close>.\<close>

definition boom_retry :: "gotime \<Rightarrow> int \<Rightarrow> gotime" where
  "boom_retry t n = max 0 (exec_retryAt (demo_D boom_job) (demo_env t) boom_job n)"

lemma boom_fields:
  "lookup (d_scheduler (demo_D boom_job)) ''j'' = Some boom_job" "\<not> LeaderOnly (job_Options boom_job)"
  "MissedFire (job_Options boom_job) = MissedFireRunOnce" "MaxAttempts (Retry (job_Options boom_job)) = 3"
  "safeRun c (job_Handler boom_job) = Some ''sundial: handler panicked: boom''"
  by (simp_all add: boom_job_def safeRun_def)

theorem retry_runs_again_witness:
  "\<exists>d. spawns_of ''mem-job-1'' (st_spawned (tick (demo_D boom_job) (\<lambda>_ _. demo_env 0) demo_ctx (boom_retry 101 1)
       (fold (\<lambda>(t, envs). tick (demo_D boom_job) envs demo_ctx t) [(min (10 * Second) (exec_retryAt (demo_D boom_job) (demo_env 101) boom_job 1) - 1, \<lambda>_ _. demo_env 0)]
       (execute (demo_D boom_job) (demo_env 101) demo_ctx boom_job (demo_due 100) 0 (demo_st (demo_mem (10 * Second))))))) =
     [(boom_job, d, boom_retry 101 1 + 10 * Second)]"
proof -
  let ?r = "\<lparr>row_Name = ''j'', row_NextFire = 10 * Second, row_Expr = ''10s'', row_Kind = ''every''\<rparr>"
  let ?f = "min (10 * Second) (exec_retryAt (demo_D boom_job) (demo_env 101) boom_job 1)" and ?now = "boom_retry 101 1"
  let ?early = "[(?f - 1, \<lambda>_ _. demo_env 0)]"
  let ?st1 = "execute (demo_D boom_job) (demo_env 101) demo_ctx boom_job (demo_due 100) 0 (demo_st (demo_mem (10 * Second)))"
  have d: "due_of_row ''mem-job-1'' ?r = demo_due (10 * Second)" by (simp add: due_of_row_def demo_due_def)
  have n: "exec_attempt (demo_st (demo_mem (10 * Second))) (demo_due 100) = 1"
    by (simp add: exec_attempt_def attempt_count_def int64_def)
  have e: "exec_error (demo_env 101) demo_ctx boom_job = Some ''sundial: handler panicked: boom''"
    by (simp add: exec_error_def boom_fields)
  have len: "length (mem_jobs (demo_mem (10 * Second))) \<le> 64" and pos: "0 < Second" by (simp_all add: demo_mem_def Second_def)
  have "let st1 = ?st1; st2 = fold (\<lambda>(t, envs). tick (demo_D boom_job) envs demo_ctx t) ?early st1;
      st3 = tick (demo_D boom_job) (\<lambda>_ _. demo_env 0) demo_ctx ?now st2 in
    spawns_of (dj_ID (demo_due 100)) (st_spawned st2) = spawns_of (dj_ID (demo_due 100)) (st_spawned (demo_st (demo_mem (10 * Second)))) \<and>
    (\<exists>d. spawns_of (dj_ID (demo_due 100)) (st_spawned st3) = spawns_of (dj_ID (demo_due 100)) (st_spawned st2) @
        [(boom_job, d, schedule_Next (intervalSchedule (10 * Second)) ?now)] \<and>
      dj_ID d = dj_ID (demo_due 100) \<and> dj_NextFireTime d = ?f \<and>
      exec_attempt st3 d = wrap64 (exec_attempt (demo_st (demo_mem (10 * Second))) (demo_due 100) + 1))"
    by (rule retry_runs_again [where rng = "\<lambda>xs. xs" and r = ?r and f = ?f and early = ?early, OF _ _ _ _ _ _ _ _ _ e])
      (use boom_fields n d demo_load len pos in \<open>auto simp: demo_inv demo_table boom_retry_def time_Add_def\<close>)
  then show ?thesis by (auto simp: Let_def time_Add_def)
qed

section \<open>The retry budget\<close>

text \<open>
  One round of a job: ticks that may come early, a tick, and then, before the next tick, the execution of the goroutines
  that were started for the job. The goroutines of other jobs are left waiting.
\<close>

definition attempt_round ::
  "('s, 'l) dispatcher \<Rightarrow> Context \<Rightarrow> string \<Rightarrow>
     (gotime \<times> (nat \<Rightarrow> nat \<Rightarrow> exec_env)) list \<times> gotime \<times> (nat \<Rightarrow> nat \<Rightarrow> exec_env) \<times> exec_env \<Rightarrow> ('s, 'l) dstate \<Rightarrow> ('s, 'l) dstate" where
  "attempt_round D ctx i = (\<lambda>(early, now, envs, env) st.
     let st = tick D envs ctx now (fold (\<lambda>(t, envs). tick D envs ctx t) early st)
     in fold (\<lambda>(job, dj, t). execute D env ctx job dj t) (spawns_of i (st_spawned st))
          (st\<lparr>st_spawned := filter (\<lambda>(job, dj, t). dj_ID dj \<noteq> i) (st_spawned st)\<rparr>))"

text \<open>
  The rounds of a job that always fails, with its row at \<open>f\<close> after \<open>k\<close> attempts: while attempts are left, the tick of each
  round is the first that finds the row due, where a failed attempt pulled it back to the end of its backoff (or
  left it at the regular fire, when that comes first); after the last attempt, the ticks of the rounds come before the next regular fire.
\<close>

fun paced ::
  "('s, 'l) dispatcher \<Rightarrow> Job \<Rightarrow> Schedule \<Rightarrow> int \<Rightarrow> gotime \<Rightarrow>
     ((gotime \<times> (nat \<Rightarrow> nat \<Rightarrow> exec_env)) list \<times> gotime \<times> (nat \<Rightarrow> nat \<Rightarrow> exec_env) \<times> exec_env) list \<Rightarrow> bool" where
  "paced D job s k f [] \<longleftrightarrow> True"
| "paced D job s k f ((early, now, envs, env) # rounds) \<longleftrightarrow>
     (\<forall>(t, envs) \<in> set early. t < f) \<and>
     (if k < MaxAttempts (Retry (job_Options job))
      then f \<le> now \<and> 0 \<le> now \<and> now < schedule_Next s now \<and>
        paced D job s (k + 1)
          (if k + 1 < MaxAttempts (Retry (job_Options job)) then min (schedule_Next s now) (exec_retryAt D env job (k + 1))
           else schedule_Next s now) rounds
      else now < f \<and> paced D job s k f rounds)"

lemma failing_row:
  assumes "range_order rng" "d_storage D = MemoryStorage_ops rng" "mem_inv (st_storage st)"
    and "mem_table (st_storage st) (dj_ID dj) = Some r" "\<And>c. safeRun c (job_Handler job) \<noteq> None"
    and "attempt_count (st_attempts st) (dj_ID dj) = k" "0 \<le> k" "k < MaxAttempts (Retry (job_Options job))"
      "MaxAttempts (Retry (job_Options job)) < 2 ^ 63"
  shows "mem_table (st_storage (execute D env parent job dj cf st)) (dj_ID dj) =
    Some (if k + 1 < MaxAttempts (Retry (job_Options job))
      then r\<lparr>row_NextFire := min (row_NextFire r) (exec_retryAt D env job (k + 1))\<rparr> else r)"
proof -
  have n: "exec_attempt st dj = k + 1" using assms(6-9) by (simp add: exec_attempt_def int64_def)
  have e: "exec_error env parent job \<noteq> None" using assms(5) by (simp add: exec_error_def)
  have "dj_ID dj \<in> dom (mem_table (st_storage st))" using assms(4) by blast
  note law = reliable_storage.exec_storage_reliable [OF mem_reliable [OF assms(1)] assms(2,3) this refl refl, of env parent job "k + 1"]
  show ?thesis using law e assms(4) unfolding execute_storage_eq n by (simp add: exec_retried_def pull_back_apply)
qed

lemma spawns_of_rest [simp]: "spawns_of i (filter (\<lambda>(job, dj, t). dj_ID dj \<noteq> i) xs) = []"
  by (auto simp: spawns_of_def filter_empty_conv)

lemma attempt_round_quiet:
  assumes "range_order rng" "d_storage D = MemoryStorage_ops rng" "mem_inv (st_storage st)"
    and "mem_table (st_storage st) i = Some r" "spawns_of i (st_spawned st) = []"
    and "\<forall>(t, envs) \<in> set early. t < row_NextFire r" "now < row_NextFire r"
    and st': "st' = attempt_round D ctx i (early, now, envs, env) st"
  shows "mem_inv (st_storage st') \<and> dom (mem_table (st_storage st')) = dom (mem_table (st_storage st)) \<and>
    mem_table (st_storage st') i = Some r \<and> spawns_of i (st_spawned st') = [] \<and>
    runs_of i (mem_runs (st_storage st')) = runs_of i (mem_runs (st_storage st))"
proof -
  note R = mem_reliable [OF assms(1)]
  define st1 where "st1 = fold (\<lambda>(t, envs). tick D envs ctx t) early st"
  define st2 where "st2 = tick D envs ctx now st1"
  have early: "(t, envs) \<in> set early \<Longrightarrow> t < row_NextFire r" for t envs using assms(6) by auto
  note st1 = reliable_storage.ticks_not_due [OF R assms(2-4) early st1_def]
  have "mem_inv (st_storage st1)" "mem_table (st_storage st1) i = Some r" using st1 by auto
  note st2 = reliable_storage.tick_not_due [OF R assms(2) this assms(7) st2_def]
  have "spawns_of i (st_spawned st2) = []" using st1 st2 assms(5) by auto
  then have "st' = st2\<lparr>st_spawned := filter (\<lambda>(job, dj, t). dj_ID dj \<noteq> i) (st_spawned st2)\<rparr>"
    unfolding st' attempt_round_def by (simp add: st1_def [symmetric] st2_def [symmetric] Let_def)
  with st1 st2 show ?thesis by simp
qed

lemma attempt_round_fails:
  assumes "range_order rng" "d_storage D = MemoryStorage_ops rng" "mem_inv (st_storage st)" "card (dom (mem_table (st_storage st))) \<le> 64"
    and "mem_table (st_storage st) i = Some (r\<lparr>row_NextFire := f\<rparr>)" "spawns_of i (st_spawned st) = []"
    and "lookup (d_scheduler D) (row_Name r) = Some job" "\<not> LeaderOnly (job_Options job)"
    and "MissedFire (job_Options job) = MissedFireRunOnce" "loadScheduleFromDue (d_cron D) (due_of_row i r) = Inr s"
    and "\<And>c. safeRun c (job_Handler job) \<noteq> None" "MaxAttempts (Retry (job_Options job)) < 2 ^ 63"
    and "attempt_count (st_attempts st) i = k" "0 \<le> k" "k < MaxAttempts (Retry (job_Options job))"
    and "\<forall>(t, envs) \<in> set early. t < f" "f \<le> now" "0 \<le> now" "now < schedule_Next s now"
    and st': "st' = attempt_round D ctx i (early, now, envs, env) st"
  shows "mem_inv (st_storage st') \<and> dom (mem_table (st_storage st')) = dom (mem_table (st_storage st)) \<and>
    mem_table (st_storage st') i = Some (r\<lparr>row_NextFire := if k + 1 < MaxAttempts (Retry (job_Options job))
      then min (schedule_Next s now) (exec_retryAt D env job (k + 1)) else schedule_Next s now\<rparr>) \<and>
    spawns_of i (st_spawned st') = [] \<and>
    attempt_count (st_attempts st') i = (if k + 1 < MaxAttempts (Retry (job_Options job)) then k + 1 else 0) \<and>
    (\<exists>x. runs_of i (mem_runs (st_storage st')) = runs_of i (mem_runs (st_storage st)) @ [x] \<and> rr_Attempt x = k + 1 \<and>
       rr_Outcome x = (if k + 1 < MaxAttempts (Retry (job_Options job)) then RunFailed else RunDeadLetter))"
proof -
  note R = mem_reliable [OF assms(1)]
  let ?dj = "due_of_row i (r\<lparr>row_NextFire := f\<rparr>)" and ?t = "schedule_Next s now"
  define st1 where "st1 = fold (\<lambda>(t, envs). tick D envs ctx t) early st"
  define st2 where "st2 = tick D envs ctx now st1"
  define st3 where "st3 = st2\<lparr>st_spawned := filter (\<lambda>(job, dj, t). dj_ID dj \<noteq> i) (st_spawned st2)\<rparr>"
  have early: "(t, envs) \<in> set early \<Longrightarrow> t < row_NextFire (r\<lparr>row_NextFire := f\<rparr>)" for t envs using assms(16) by auto
  note quiet = reliable_storage.ticks_not_due [OF R assms(2,3,5) early st1_def]
  have st1: "mem_inv (st_storage st1)" "mem_table (st_storage st1) i = Some (r\<lparr>row_NextFire := f\<rparr>)"
    "dom (mem_table (st_storage st1)) = dom (mem_table (st_storage st))" using quiet by auto
  have decide: "decide D st1 ?dj now = Claim job ?t"
    by (rule decide_run_once) (use assms(7-10,18,19) in auto)
  have "finite (dom (mem_table (st_storage st1)))" using mem_table_card by blast
  note one = reliable_storage.tick_one_job [OF R assms(2) st1(1) this _ st1(2) refl decide assms(19) st2_def]
  have st2: "mem_inv (st_storage st2)" "dom (mem_table (st_storage st2)) = dom (mem_table (st_storage st))"
    "spawns_of i (st_spawned st2) = [(job, ?dj, ?t)]" "mem_table (st_storage st2) i = Some (r\<lparr>row_NextFire := ?t\<rparr>)"
    "st_attempts st2 i = st_attempts st i" "runs_of i (mem_runs (st_storage st2)) = runs_of i (mem_runs (st_storage st))"
    using one quiet st1(3) assms(4,6,17) by auto
  have st'_eq: "st' = execute D env ctx job ?dj ?t st3"
    unfolding st' attempt_round_def by (simp add: st1_def [symmetric] st2_def [symmetric] st3_def [symmetric] st2(3) Let_def)
  have k: "attempt_count (st_attempts st3) (dj_ID ?dj) = k"
    using st2(5) assms(13) by (simp add: st3_def attempt_count_def)
  have at3: "mem_inv (st_storage st3)" "mem_table (st_storage st3) (dj_ID ?dj) = Some (r\<lparr>row_NextFire := ?t\<rparr>)"
    "dj_ID ?dj \<in> dom (mem_table (st_storage st3))"
    using st2(1,4) by (auto simp: st3_def)
  note fails = failing_step [OF assms(1,2) at3(1,3) assms(11) k assms(14,15,12) st'_eq]
  note row = failing_row [OF assms(1,2) at3(1,2) assms(11) k assms(14,15,12), of env ctx ?t]
  have "spawns_of i (st_spawned st') = []" unfolding st'_eq by (simp add: st3_def)
  with fails row st2 show ?thesis unfolding st'_eq [symmetric] by (auto simp: st3_def runs_of_def)
qed

text \<open>The rounds from the \<open>k\<close>-th attempt on.\<close>

lemma rounds_budget:
  assumes "range_order rng" "d_storage D = MemoryStorage_ops rng"
    and "lookup (d_scheduler D) (row_Name r) = Some job" "\<not> LeaderOnly (job_Options job)"
    and "MissedFire (job_Options job) = MissedFireRunOnce" "loadScheduleFromDue (d_cron D) (due_of_row i r) = Inr s"
    and "\<And>c. safeRun c (job_Handler job) \<noteq> None" "MaxAttempts (Retry (job_Options job)) < 2 ^ 63"
    and "mem_inv (st_storage st)" "card (dom (mem_table (st_storage st))) \<le> 64" "mem_table (st_storage st) i = Some (r\<lparr>row_NextFire := f\<rparr>)"
      "spawns_of i (st_spawned st) = []" "k < MaxAttempts (Retry (job_Options job)) \<longrightarrow> attempt_count (st_attempts st) i = k"
      "0 \<le> k" "k \<le> MaxAttempts (Retry (job_Options job))" "paced D job s k f rounds"
  shows "\<exists>xs. runs_of i (mem_runs (st_storage (fold (attempt_round D ctx i) rounds st))) = runs_of i (mem_runs (st_storage st)) @ xs \<and>
    map (\<lambda>x. (rr_Attempt x, rr_Outcome x)) xs =
      map (\<lambda>a. (a, if a < MaxAttempts (Retry (job_Options job)) then RunFailed else RunDeadLetter))
        [k + 1..min (k + int (length rounds)) (MaxAttempts (Retry (job_Options job)))]"
  using assms(9-16)
proof (induction rounds arbitrary: st k f)
  case (Cons round rounds)
  let ?max = "MaxAttempts (Retry (job_Options job))"
  let ?budget = "map (\<lambda>a. (a, if a < ?max then RunFailed else RunDeadLetter))"
  obtain early now envs env where x: "round = (early, now, envs, env)" by (cases round) auto
  let ?st = "attempt_round D ctx i (early, now, envs, env) st"
  note paced = Cons.prems(8) [unfolded x paced.simps]
  show ?case
  proof (cases "k < ?max")
    case True
    let ?f = "if k + 1 < ?max then min (schedule_Next s now) (exec_retryAt D env job (k + 1)) else schedule_Next s now"
    have step: "mem_inv (st_storage ?st)" "dom (mem_table (st_storage ?st)) = dom (mem_table (st_storage st))"
      "mem_table (st_storage ?st) i = Some (r\<lparr>row_NextFire := ?f\<rparr>)" "spawns_of i (st_spawned ?st) = []"
      "attempt_count (st_attempts ?st) i = (if k + 1 < ?max then k + 1 else 0)"
      and run: "\<exists>x. runs_of i (mem_runs (st_storage ?st)) = runs_of i (mem_runs (st_storage st)) @ [x] \<and> rr_Attempt x = k + 1 \<and>
        rr_Outcome x = (if k + 1 < ?max then RunFailed else RunDeadLetter)"
      using attempt_round_fails [OF assms(1,2) Cons.prems(1-4) assms(3-8) _ Cons.prems(6) True _ _ _ _ refl]
        Cons.prems(5) paced True by auto
    from run obtain y where y: "runs_of i (mem_runs (st_storage ?st)) = runs_of i (mem_runs (st_storage st)) @ [y]"
        "rr_Attempt y = k + 1" "rr_Outcome y = (if k + 1 < ?max then RunFailed else RunDeadLetter)" by blast
    from Cons.IH [OF step(1) _ step(3,4), of "k + 1"] step(2,5) Cons.prems(2,6) paced True obtain xs where
      xs: "runs_of i (mem_runs (st_storage (fold (attempt_round D ctx i) rounds ?st))) = runs_of i (mem_runs (st_storage ?st)) @ xs"
        "map (\<lambda>x. (rr_Attempt x, rr_Outcome x)) xs = ?budget [k + 1 + 1..min (k + 1 + int (length rounds)) ?max]"
      by auto
    have "[k + 1..min (k + int (length (round # rounds))) ?max] = (k + 1) # [k + 1 + 1..min (k + 1 + int (length rounds)) ?max]"
      using True by (subst upto_rec1) (auto simp: algebra_simps)
    with xs y x show ?thesis by (intro exI [of _ "y # xs"]) simp
  next
    case False
    then have quiet: "\<forall>(t, envs) \<in> set early. t < row_NextFire (r\<lparr>row_NextFire := f\<rparr>)" "now < row_NextFire (r\<lparr>row_NextFire := f\<rparr>)"
      "paced D job s k f rounds" using paced by auto
    from attempt_round_quiet [OF assms(1,2) Cons.prems(1,3,4) quiet(1,2) refl, of ctx envs env]
      Cons.IH [of ?st f k] Cons.prems(2,6,7) quiet(3) False x
    show ?thesis by simp
  qed
qed simp

text \<open>
  Property C5. A job that always fails is attempted \<open>MaxAttempts\<close> times and no more until its next regular fire: over
  any number of rounds, in which each attempt is started by the first tick that finds the row due and ends before the next
  tick, the attempts recorded for the job are numbered 1, 2 and so on, one per round, until \<open>MaxAttempts\<close>; all but the attempt
  \<open>MaxAttempts\<close> fail, that one is the dead letter, and the ticks that come after it and before the next regular fire
  start nothing. This is one node on the in-memory backend with at most 64 jobs, and the job is not leader-only
  and has the policy \<open>RunOnce\<close>.
\<close>

theorem retry_budget:
  assumes "range_order rng" "d_storage D = MemoryStorage_ops rng" "mem_inv (st_storage st)" "length (mem_jobs (st_storage st)) \<le> 64"
    and "mem_table (st_storage st) i = Some r" "spawns_of i (st_spawned st) = []" "attempt_count (st_attempts st) i = 0"
    and "lookup (d_scheduler D) (row_Name r) = Some job" "\<not> LeaderOnly (job_Options job)"
    and "MissedFire (job_Options job) = MissedFireRunOnce" "loadScheduleFromDue (d_cron D) (due_of_row i r) = Inr s"
    and "\<And>c. safeRun c (job_Handler job) \<noteq> None"
    and "1 \<le> MaxAttempts (Retry (job_Options job))" "MaxAttempts (Retry (job_Options job)) < 2 ^ 63"
    and "paced D job s 0 (row_NextFire r) rounds" and "st' = fold (attempt_round D ctx i) rounds st"
  shows "\<exists>xs. runs_of i (mem_runs (st_storage st')) = runs_of i (mem_runs (st_storage st)) @ xs \<and>
    map (\<lambda>x. (rr_Attempt x, rr_Outcome x)) xs =
      map (\<lambda>a. (a, if a < MaxAttempts (Retry (job_Options job)) then RunFailed else RunDeadLetter))
        [1..min (int (length rounds)) (MaxAttempts (Retry (job_Options job)))]"
proof -
  have "card (dom (mem_table (st_storage st))) \<le> 64"
    using mem_table_card [of "st_storage st"] assms(4) by auto
  from rounds_budget [OF assms(1,2,8-12,14,3) this, where k = 0 and f = "row_NextFire r"] show ?thesis
    using assms(5-7,13,15) unfolding assms(16) by simp
qed

definition boom_rounds :: "((gotime \<times> (nat \<Rightarrow> nat \<Rightarrow> exec_env)) list \<times> gotime \<times> (nat \<Rightarrow> nat \<Rightarrow> exec_env) \<times> exec_env) list" where
  "boom_rounds =
     [([(99, \<lambda>_ _. demo_env 0)], 101, \<lambda>_ _. demo_env 0, demo_env 102), ([], boom_retry 102 1, \<lambda>_ _. demo_env 0, demo_env 103),
      ([], boom_retry 103 2, \<lambda>_ _. demo_env 0, demo_env 104), ([], boom_retry 103 2 + Second, \<lambda>_ _. demo_env 0, demo_env 105)]"

theorem retry_budget_witness:
  "length boom_rounds = 4 \<and>
   (\<exists>xs. runs_of ''mem-job-1'' (mem_runs (st_storage (fold (attempt_round (demo_D boom_job) demo_ctx ''mem-job-1'') boom_rounds
       (demo_st (demo_mem 100))))) = xs \<and>
     map (\<lambda>x. (rr_Attempt x, rr_Outcome x)) xs = [(1, RunFailed), (2, RunFailed), (3, RunDeadLetter)])"
proof -
  let ?r = "\<lparr>row_Name = ''j'', row_NextFire = 100, row_Expr = ''10s'', row_Kind = ''every''\<rparr>"
  have d: "due_of_row ''mem-job-1'' ?r = demo_due 100" by (simp add: due_of_row_def demo_due_def)
  have len: "length boom_rounds = 4" by (simp add: boom_rounds_def)
  have paced: "paced (demo_D boom_job) boom_job (intervalSchedule (10 * Second)) 0 (row_NextFire ?r) boom_rounds"
    by (simp add: boom_rounds_def boom_fields boom_retry_def time_Add_def Second_def min_le_iff_disj)
  have "\<exists>xs. runs_of ''mem-job-1'' (mem_runs (st_storage (fold (attempt_round (demo_D boom_job) demo_ctx ''mem-job-1'') boom_rounds (demo_st (demo_mem 100))))) =
      runs_of ''mem-job-1'' (mem_runs (st_storage (demo_st (demo_mem 100)))) @ xs \<and>
    map (\<lambda>x. (rr_Attempt x, rr_Outcome x)) xs =
      map (\<lambda>a. (a, if a < MaxAttempts (Retry (job_Options boom_job)) then RunFailed else RunDeadLetter))
        [1..min (int (length boom_rounds)) (MaxAttempts (Retry (job_Options boom_job)))]"
    by (rule retry_budget [OF _ _ _ _ _ _ _ _ _ _ _ _ _ _ paced refl, where rng = "\<lambda>xs. xs"])
      (use d demo_load in \<open>simp_all add: boom_fields demo_inv demo_table attempt_count_def, simp add: demo_mem_def\<close>)
  then show ?thesis using len by (simp add: boom_fields runs_of_def upto_rec1)
qed

section \<open>A missed window without fires\<close>

lemma dispatch_all_append:
  "dispatch_all D envs ctx now k (xs @ ys) st =
     dispatch_all D envs ctx now (k + length xs) ys (dispatch_all D envs ctx now k xs st)"
  by (induction xs arbitrary: k st) simp_all

lemma dispatch_all_leader: "st_leader (dispatch_all D envs ctx now k due st) = st_leader st"
  by (induction due arbitrary: k st) (simp_all add: maybeDispatch_leader)

lemma tick_leader: "st_leader (tick D envs ctx now st) = st_leader st"
  by (simp add: tick_def Let_def case_prod_beta dispatch_all_leader split: sum.splits)

text \<open>The fire times of the inline calls of one job.\<close>

definition calls_of :: "string \<Rightarrow> ('s, 'l) dstate \<Rightarrow> gotime list" where
  "calls_of i st = map (dj_NextFireTime \<circ> fst) (filter (\<lambda>(d, c). dj_ID d = i) (st_calls st))"

lemma dispatch_others:
  assumes "range_order rng" "d_storage D = MemoryStorage_ops rng" "mem_inv (st_storage st)" "i \<notin> dj_ID ` set due"
    and st': "st' = dispatch_all D envs ctx now k due st"
  shows "mem_inv (st_storage st')" "mem_table (st_storage st') i = mem_table (st_storage st) i" "calls_of i st' = calls_of i st"
    "runs_of i (mem_runs (st_storage st')) = runs_of i (mem_runs (st_storage st))"
proof -
  have C: "storage_contract (MemoryStorage_ops rng) mem_table mem_runs mem_inv (\<lambda>t. t)"
    using mem_reliable [OF assms(1)] by (simp add: reliable_storage_def)
  have none: "d \<in> set due \<Longrightarrow> dj_ID d = i \<Longrightarrow> P" for d P using assms(4) by blast
  note ignored = dispatch_all_ignored [OF assms(1-3) none st']
  show "mem_inv (st_storage st')" "mem_table (st_storage st') i = mem_table (st_storage st) i" "calls_of i st' = calls_of i st"
    using ignored by (simp_all add: calls_of_def)
  show "runs_of i (mem_runs (st_storage st')) = runs_of i (mem_runs (st_storage st))"
    unfolding st' by (rule storage_contract.dispatch_all_runs_of [OF C assms(2,3)]) (use none in blast)
qed

lemma empty_window_tick:
  assumes "range_order rng" "d_storage D = MemoryStorage_ops rng" "mem_inv (st_storage st)" "card (dom (mem_table (st_storage st))) \<le> 64"
    and "mem_table (st_storage st) i = Some r" "row_NextFire r \<le> now" "decide D st (due_of_row i r) now = Replay job"
    and "loadScheduleFromDue (d_cron D) (due_of_row i r) = Inr sched"
    and "iterateSchedule (Some sched) (row_NextFire r) now 256 = []" "\<And>c. safeRun c (job_Handler job) = None"
    and st': "st' = tick D envs ctx now st"
  shows "mem_inv (st_storage st') \<and> dom (mem_table (st_storage st')) = dom (mem_table (st_storage st)) \<and>
    mem_table (st_storage st') i = Some r \<and> calls_of i st' = calls_of i st @ [row_NextFire r] \<and>
    (\<exists>x. runs_of i (mem_runs (st_storage st')) = runs_of i (mem_runs (st_storage st)) @ [x] \<and>
       rr_FireTime x = row_NextFire r \<and> rr_Outcome x = RunSucceeded)"
proof -
  let ?dj = "due_of_row i r"
  note R = mem_reliable [OF assms(1)]
  have C: "storage_contract (MemoryStorage_ops rng) mem_table mem_runs mem_inv (\<lambda>t. t)"
    using R by (simp add: reliable_storage_def)
  obtain due where due: "mem_FetchDue rng (st_storage st) now 64 = (st_storage st, Inr due)"
      "due_snapshot (mem_table (st_storage st)) now 64 due"
    using mem_FetchDue_snapshot [OF assms(1,3)] by (metis prod.collapse)
  have st'_eq: "st' = dispatch_all D envs ctx now 0 due st" using due(1) assms(2) by (simp add: st' tick_def MemoryStorage_ops_def)
  have "?dj \<in> set due"
    using storage_contract.snapshot_complete [OF C due(2) _ _ assms(5,6)] mem_table_card [of "st_storage st"] assms(4)
    by (simp add: effective_limit_def)
  then obtain xs ys where split: "due = xs @ ?dj # ys" by (meson split_list)
  have "distinct (map dj_ID due)" using due(2) by (simp add: due_snapshot_def)
  then have others: "i \<notin> dj_ID ` set xs" "i \<notin> dj_ID ` set ys" by (auto simp: split)
  define st1 where "st1 = dispatch_all D envs ctx now 0 xs st"
  define st2 where "st2 = maybeDispatch D (envs (length xs)) ctx ?dj now st1"
  have st3: "st' = dispatch_all D envs ctx now (Suc (length xs)) ys st2"
    by (simp add: st'_eq split dispatch_all_append st1_def st2_def)
  note st1 = dispatch_others [OF assms(1-3) others(1) st1_def]
  have i: "i \<in> dom (mem_table (st_storage st1))" using st1(2) assms(5) by auto
  have "decide D st1 ?dj now = Replay job"
    unfolding assms(7) [symmetric] by (rule decide_leader) (simp add: st1_def dispatch_all_leader)
  from decide_ReplayD [OF this] have st2: "st2 = executeAtFire D (envs (length xs) 0) ctx job ?dj st1"
    unfolding st2_def using assms(8,9) by (simp add: runAllMissed_def maxCatchupInstants_def)
  have "exec_error (envs (length xs) 0) ctx job = None" using assms(10) by (simp add: exec_error_def)
  then have exec: "mem_inv (st_storage st2)" "mem_table (st_storage st2) = mem_table (st_storage st1)"
    "\<exists>x. runs_of i (mem_runs (st_storage st2)) = runs_of i (mem_runs (st_storage st1)) @ [x] \<and>
       rr_FireTime x = row_NextFire r \<and> rr_Outcome x = RunSucceeded"
    using reliable_storage.exec_storage_reliable [OF R assms(2), of "st_storage st1" ?dj, OF _ _ refl refl, of "envs (length xs) 0" ctx job "exec_attempt st1 ?dj"]
      st1(1) i by (auto simp: st2 exec_retried_def exec_outcome_def runs_of_def)
  have calls: "calls_of i st2 = calls_of i st1 @ [row_NextFire r]" by (simp add: st2 calls_of_def)
  note dispatch_others [OF assms(1,2) exec(1) others(2) st3]
  moreover have "mem_inv (st_storage st') \<and> dom (mem_table (st_storage st')) = dom (mem_table (st_storage st))"
    using storage_contract.dispatch_all_keeps [OF C assms(2,3), of envs ctx now 0 due] by (simp add: st'_eq)
  ultimately show ?thesis using st1 exec calls assms(5) by auto
qed

text \<open>
  Property C31. A \<open>RunAll\<close> job whose fire is missed but whose window up to \<open>now\<close> holds no instant (the
  next fire of the schedule is not yet over) is executed for its stored fire without a claim and without moving the row. On a node that
  leads (or has no leader election), with at most 64 jobs in memory and a handler that succeeds, every such tick therefore executes
  the same fire again: as many ticks as come before the next fire, as many executions and run records of one fire.
\<close>

theorem run_all_empty_window:
  assumes "range_order rng" "d_storage D = MemoryStorage_ops rng" "mem_inv (st_storage st)" "card (dom (mem_table (st_storage st))) \<le> 64"
    and "mem_table (st_storage st) i = Some r" "lookup (d_scheduler D) (row_Name r) = Some job"
    and "MissedFire (job_Options job) = MissedFireRunAll" "\<not> follower D st" "\<And>c. safeRun c (job_Handler job) = None"
    and "loadScheduleFromDue (d_cron D) (due_of_row i r) = Inr sched"
    and "\<And>now envs. (now, envs) \<in> set ticks \<Longrightarrow> 0 \<le> now \<and> row_NextFire r \<le> now \<and> now < schedule_Next sched now \<and>
      missed D (due_of_row i r) now \<and> iterateSchedule (Some sched) (row_NextFire r) now 256 = []"
    and st': "st' = fold (\<lambda>(now, envs). tick D envs ctx now) ticks st"
  shows "mem_table (st_storage st') i = Some r \<and> calls_of i st' = calls_of i st @ replicate (length ticks) (row_NextFire r) \<and>
    (\<exists>xs. runs_of i (mem_runs (st_storage st')) = runs_of i (mem_runs (st_storage st)) @ xs \<and>
       map (\<lambda>x. (rr_FireTime x, rr_Outcome x)) xs = replicate (length ticks) (row_NextFire r, RunSucceeded))"
  using assms(3-5,8,11) unfolding st'
proof (induction ticks arbitrary: st)
  case (Cons tk ticks)
  obtain now envs where tk: "tk = (now, envs)" by fastforce
  let ?st = "tick D envs ctx now st"
  have now: "0 \<le> now" "row_NextFire r \<le> now" "now < schedule_Next sched now" "missed D (due_of_row i r) now"
    "iterateSchedule (Some sched) (row_NextFire r) now 256 = []"
    using Cons.prems(5) [of now envs] tk by auto
  have "decide D st (due_of_row i r) now = Replay job"
    using assms(6,7,10) Cons.prems(4) now computeNextFire_load_Inr [OF assms(10), of now]
    by (auto simp: decide_def IsZero_def missed_fire_policies)
  from empty_window_tick [OF assms(1,2) Cons.prems(1-3) now(2) this assms(10) now(5) assms(9) refl, of envs ctx]
  obtain x where step: "mem_inv (st_storage ?st)" "dom (mem_table (st_storage ?st)) = dom (mem_table (st_storage st))"
      "mem_table (st_storage ?st) i = Some r" "calls_of i ?st = calls_of i st @ [row_NextFire r]"
      "runs_of i (mem_runs (st_storage ?st)) = runs_of i (mem_runs (st_storage st)) @ [x]"
      "rr_FireTime x = row_NextFire r" "rr_Outcome x = RunSucceeded"
    by blast
  have "\<not> follower D ?st" using Cons.prems(4) tick_leader [of D envs ctx now st] by (simp add: follower_def split: option.splits)
  from Cons.IH [OF step(1) _ step(3) this] Cons.prems(2,5) step(2) obtain xs where
    "mem_table (st_storage (fold (\<lambda>(now, envs). tick D envs ctx now) ticks ?st)) i = Some r"
    "calls_of i (fold (\<lambda>(now, envs). tick D envs ctx now) ticks ?st) = calls_of i ?st @ replicate (length ticks) (row_NextFire r)"
    "runs_of i (mem_runs (st_storage (fold (\<lambda>(now, envs). tick D envs ctx now) ticks ?st))) = runs_of i (mem_runs (st_storage ?st)) @ xs"
    "map (\<lambda>x. (rr_FireTime x, rr_Outcome x)) xs = replicate (length ticks) (row_NextFire r, RunSucceeded)"
    by auto
  with step tk show ?case by (intro conjI exI [of _ "x # xs"]) simp_all
qed simp

theorem run_all_empty_window_witness:
  "let st' = fold (\<lambda>(now, envs). tick (demo_D (demo_job 2 (\<lambda>_. Returns None))) envs demo_ctx now)
     [(5 * Second, \<lambda>_ _. demo_env 0), (6 * Second, \<lambda>_ _. demo_env 1), (7 * Second, \<lambda>_ _. demo_env 2)] (demo_st (demo_mem 100))
   in calls_of ''mem-job-1'' st' = [100, 100, 100] \<and> length (runs_of ''mem-job-1'' (mem_runs (st_storage st'))) = 3"
proof -
  let ?D = "demo_D (demo_job 2 (\<lambda>_. Returns None))"
  let ?r = "\<lparr>row_Name = ''j'', row_NextFire = 100, row_Expr = ''10s'', row_Kind = ''every''\<rparr>"
  let ?ticks = "[(5 * Second, \<lambda>_ _. demo_env 0), (6 * Second, \<lambda>_ _. demo_env 1), (7 * Second, \<lambda>_ _. demo_env 2)]
    :: (gotime \<times> (nat \<Rightarrow> nat \<Rightarrow> exec_env)) list"
  let ?st' = "fold (\<lambda>(now, envs). tick ?D envs demo_ctx now) ?ticks (demo_st (demo_mem 100))"
  have d: "due_of_row ''mem-job-1'' ?r = demo_due 100" by (simp add: due_of_row_def demo_due_def)
  have empty: "iterateSchedule (Some (intervalSchedule (10 * Second))) 100 (5 * Second) 256 = []"
    "iterateSchedule (Some (intervalSchedule (10 * Second))) 100 (6 * Second) 256 = []"
    "iterateSchedule (Some (intervalSchedule (10 * Second))) 100 (7 * Second) 256 = []" by code_simp+
  have "mem_table (st_storage ?st') ''mem-job-1'' = Some ?r \<and>
    calls_of ''mem-job-1'' ?st' = calls_of ''mem-job-1'' (demo_st (demo_mem 100)) @ replicate (length ?ticks) (row_NextFire ?r) \<and>
    (\<exists>xs. runs_of ''mem-job-1'' (mem_runs (st_storage ?st')) = runs_of ''mem-job-1'' (mem_runs (st_storage (demo_st (demo_mem 100)))) @ xs \<and>
       map (\<lambda>x. (rr_FireTime x, rr_Outcome x)) xs = replicate (length ?ticks) (row_NextFire ?r, RunSucceeded))"
  proof (rule run_all_empty_window [where rng = "\<lambda>xs. xs" and job = "demo_job 2 (\<lambda>_. Returns None)" and sched = "intervalSchedule (10 * Second)"])
    show "0 \<le> now \<and> row_NextFire ?r \<le> now \<and> now < schedule_Next (intervalSchedule (10 * Second)) now \<and>
        missed ?D (due_of_row ''mem-job-1'' ?r) now \<and> iterateSchedule (Some (intervalSchedule (10 * Second))) (row_NextFire ?r) now 256 = []"
      if "(now, envs) \<in> set ?ticks" for now envs
      using that empty d by (auto simp: demo_missed time_Sub_def sat64_def time_Add_def duration_units)
  qed (use d demo_load in \<open>simp_all add: demo_inv demo_table missed_fire_policies safeRun_def\<close>)
  then obtain xs where xs: "calls_of ''mem-job-1'' ?st' = [100, 100, 100]" "runs_of ''mem-job-1'' (mem_runs (st_storage ?st')) = xs"
      "map (\<lambda>x. (rr_FireTime x, rr_Outcome x)) xs = replicate 3 (100, RunSucceeded)"
    by (auto simp: calls_of_def runs_of_def numeral_eq_Suc)
  then have "length xs = 3" by (metis length_map length_replicate)
  with xs(1,2) show ?thesis by (simp add: Let_def)
qed

section \<open>Attempts on several nodes\<close>

text \<open>Executions of one job, one after the other, each on the node that claimed it, over the shared storage.\<close>

fun exec_on_nodes ::
  "(nat \<Rightarrow> ('s, 'l) dispatcher) \<Rightarrow> Context \<Rightarrow> Job \<Rightarrow> gotime \<Rightarrow> (nat \<times> exec_env \<times> DueJob) list \<Rightarrow> (nat \<Rightarrow> ('s, 'l) dstate) \<Rightarrow> 's \<Rightarrow>
     (nat \<Rightarrow> ('s, 'l) dstate) \<times> 's" where
  "exec_on_nodes D ctx job cf [] N s = (N, s)"
| "exec_on_nodes D ctx job cf ((n, env, dj) # es) N s =
     (let st = execute (D n) env ctx job dj cf ((N n)\<lparr>st_storage := s\<rparr>)
      in exec_on_nodes D ctx job cf es (N(n := st)) (st_storage st))"

text \<open>
  Property C20. The attempt counter lives in the process: a retry that another node claims starts counting there
  from one again. When every node has executed the failing job fewer than \<open>MaxAttempts\<close> times, no execution is the
  last one, whatever their total: a job that always fails is attempted up to \<open>MaxAttempts - 1\<close> times per node
  before the first dead letter.
\<close>

theorem retry_budget_per_node:
  assumes "range_order rng" "\<And>n. d_storage (D n) = MemoryStorage_ops rng" "mem_inv s" "i \<in> dom (mem_table s)"
    and "\<And>c. safeRun c (job_Handler job) \<noteq> None" "MaxAttempts (Retry (job_Options job)) < 2 ^ 63"
    and "list_all (\<lambda>(n, env, dj). dj_ID dj = i) es" "\<And>n. 0 \<le> attempt_count (st_attempts (N n)) i"
    and "\<And>n. attempt_count (st_attempts (N n)) i + int (count_list (map fst es) n) < MaxAttempts (Retry (job_Options job))"
    and "exec_on_nodes D ctx job cf es N s = (N', s')"
  shows "\<exists>rs. mem_runs s' = mem_runs s @ rs \<and> map rr_Outcome rs = replicate (length es) RunFailed \<and> (\<forall>r \<in> set rs. rr_JobID r = i)"
  using assms(3,4,7-10)
proof (induction es arbitrary: N s)
  case Nil
  then show ?case by simp
next
  case (Cons x es)
  obtain n env dj where x: "x = (n, env, dj)" by (cases x) auto
  have dj: "dj_ID dj = i" using Cons.prems(3) x by simp
  let ?before = "(N n)\<lparr>st_storage := s\<rparr>"
  let ?st = "execute (D n) env ctx job dj cf ?before"
  let ?k = "attempt_count (st_attempts (N n)) i"
  have k: "0 \<le> ?k" "?k + 1 < MaxAttempts (Retry (job_Options job))"
    using Cons.prems(4) [of n] Cons.prems(5) [of n] x by simp_all
  have step: "mem_inv (st_storage ?st)" "dom (mem_table (st_storage ?st)) = dom (mem_table s)"
    "attempt_count (st_attempts ?st) i = ?k + 1"
    and "\<exists>r. mem_runs (st_storage ?st) = mem_runs s @ [r] \<and> rr_JobID r = i \<and> rr_Outcome r = RunFailed"
    using failing_step [where st = ?before and dj = dj and D = "D n" and env = env and parent = ctx and cf = cf and k = ?k,
        OF assms(1,2) _ _ assms(5) _ k(1) _ assms(6) refl] Cons.prems(1,2) k(2) dj by auto
  then obtain r where r: "mem_runs (st_storage ?st) = mem_runs s @ [r]" "rr_JobID r = i" "rr_Outcome r = RunFailed" by blast
  have bound: "attempt_count (st_attempts ((N(n := ?st)) m)) i + int (count_list (map fst es) m) < MaxAttempts (Retry (job_Options job))" for m
    using Cons.prems(5) [of m] step(3) x by (cases "m = n") auto
  have pos: "0 \<le> attempt_count (st_attempts ((N(n := ?st)) m)) i" for m
    using Cons.prems(4) [of m] step(3) k(1) by simp
  have rest: "exec_on_nodes D ctx job cf es (N(n := ?st)) (st_storage ?st) = (N', s')" using Cons.prems(6) x by (simp add: Let_def)
  have "i \<in> dom (mem_table (st_storage ?st))" "list_all (\<lambda>(n, env, dj). dj_ID dj = i) es"
    using step(2) Cons.prems(2,3) by simp_all
  from Cons.IH [OF step(1) this pos bound rest] obtain rs where "mem_runs s' = mem_runs (st_storage ?st) @ rs"
      "map rr_Outcome rs = replicate (length es) RunFailed" "\<forall>r \<in> set rs. rr_JobID r = i"
    by blast
  with r show ?case by (intro exI [of _ "r # rs"]) simp
qed

theorem retry_budget_per_node_witness:
  "\<exists>rs. mem_runs (snd (exec_on_nodes (\<lambda>_. demo_D boom_job) demo_ctx boom_job 0
       [(0, demo_env 101, demo_due 100), (1, demo_env 201, demo_due 200), (0, demo_env 301, demo_due 300), (1, demo_env 401, demo_due 400)]
       (\<lambda>_. demo_st (demo_mem 100)) (demo_mem 100))) = rs \<and>
     map rr_Outcome rs = [RunFailed, RunFailed, RunFailed, RunFailed] \<and> MaxAttempts (Retry (job_Options boom_job)) = 3"
proof -
  let ?es = "[(0, demo_env 101, demo_due 100), (1, demo_env 201, demo_due 200), (0, demo_env 301, demo_due 300), (1, demo_env 401, demo_due 400)]
    :: (nat \<times> exec_env \<times> DueJob) list"
  have max: "MaxAttempts (Retry (job_Options boom_job)) = 3" by (simp add: boom_job_def)
  obtain N' s' where run: "exec_on_nodes (\<lambda>_. demo_D boom_job) demo_ctx boom_job 0 ?es (\<lambda>_. demo_st (demo_mem 100)) (demo_mem 100) = (N', s')"
    by fastforce
  have "\<exists>rs. mem_runs s' = mem_runs (demo_mem 100) @ rs \<and> map rr_Outcome rs = replicate (length ?es) RunFailed \<and> (\<forall>r \<in> set rs. rr_JobID r = ''mem-job-1'')"
    by (rule retry_budget_per_node [where rng = "\<lambda>xs. xs" and i = "''mem-job-1''", OF _ _ demo_inv _ _ _ _ _ _ run])
      (simp_all add: max demo_table boom_job_def safeRun_def attempt_count_def)
  then show ?thesis using run max by (simp add: numeral_eq_Suc)
qed

end
