(* ===== verification/Dispatch_Segments.thy ===== *)
theory Dispatch_Segments
  imports Sundial_Dispatcher
begin

text \<open>
  \<open>maybeDispatch\<close> (\<open>dispatcher.go\<close>) cut where it waits for the storage or for a handler, so that other nodes can act in
  between: the decision (with its leader check), the claim, the claim of a skipped fire, and the replay of a missed
  window as single executions followed by a last claim. What the loop of a node has decided and not yet done is its
  \<open>activity\<close>; \<open>Stopped\<close> is a loop that has returned. The last section shows that the segments, one after the other, are the whole function.
\<close>

section \<open>The segments\<close>

datatype activity =
    Idle
  | Stopped
  | Skipping Job DueJob gotime
  | Claiming Job DueJob gotime gotime
  | Replaying Job "DueJob list" "(DueJob \<times> gotime) option"

text \<open>The head of \<open>runAllMissed\<close>: the executions to make, and the claim after them.\<close>

definition replay_open ::
  "('s, 'l) dispatcher \<Rightarrow> Job \<Rightarrow> DueJob \<Rightarrow> gotime \<Rightarrow> ('s, 'l) dstate \<Rightarrow> ('s, 'l) dstate \<times> activity" where
  "replay_open D job dj now st =
     (case loadScheduleFromDue (d_cron D) dj of
        Inl err \<Rightarrow> (logging Log_Error ''missed-fire iterator: load schedule'' (dj_Name dj) st, Idle)
      | Inr sched \<Rightarrow>
          let instants = iterateSchedule (Some sched) (dj_NextFireTime dj) now maxCatchupInstants
          in if instants = [] then (st, Replaying job [dj] None)
             else
               let st = logging Log_Info ''missed fire RunAll replay'' (dj_Name dj) st;
                   future = schedule_Next sched now
               in (st, Replaying job (map (\<lambda>fireTime. dj\<lparr>dj_NextFireTime := fireTime\<rparr>) instants)
                     (if \<not> IsZero future then Some (dj, future) else None)))"

text \<open>
  \<open>maybeDispatch\<close> up to its first call of the storage or of a handler. The next fire it computes a second time
  before a skip is the same one.
\<close>

definition dispatch_look ::
  "('s, 'l) dispatcher \<Rightarrow> DueJob \<Rightarrow> gotime \<Rightarrow> ('s, 'l) dstate \<Rightarrow> ('s, 'l) dstate \<times> activity" where
  "dispatch_look D dj now st =
     (case lookup (d_scheduler D) (dj_Name dj) of
        None \<Rightarrow> (st, Idle)
      | Some job \<Rightarrow>
          if LeaderOnly (job_Options job) \<and> follower D st then (st, Idle)
          else case computeNextFire (d_cron D) dj now of
            Inl err \<Rightarrow> (logging Log_Error ''compute next fire'' (dj_Name dj) st, Idle)
          | Inr nextFire \<Rightarrow>
              if IsZero nextFire then (st, Idle)
              else
                let lag = time_Sub now (dj_NextFireTime dj); missed = lag > missThreshold D
                in if missed \<and> MissedFire (job_Options job) = MissedFireSkip then (st, Skipping job dj nextFire)
                   else if missed \<and> MissedFire (job_Options job) = MissedFireRunAll then
                     (if follower D st then (st, Idle) else replay_open D job dj now st)
                   else (st, Claiming job dj now nextFire))"

text \<open>The claim of a skipped fire, of a regular one, and the one that ends a replay.\<close>

definition dispatch_skip ::
  "('s, 'l) dispatcher \<Rightarrow> DueJob \<Rightarrow> gotime \<Rightarrow> ('s, 'l) dstate \<Rightarrow> ('s, 'l) dstate" where
  "dispatch_skip D dj future st =
     (case ClaimJob (d_storage D) (st_storage st) (dj_ID dj) future of (s, r) \<Rightarrow>
        let st = st\<lparr>st_storage := s\<rparr>;
            st = (case r of Inl claimErr \<Rightarrow> logging Log_Error ''skip missed fire'' (dj_Name dj) st | Inr claimed \<Rightarrow> st)
        in logging Log_Info ''missed fire skipped'' (dj_Name dj) st)"

definition dispatch_claim ::
  "('s, 'l) dispatcher \<Rightarrow> Job \<Rightarrow> DueJob \<Rightarrow> gotime \<Rightarrow> gotime \<Rightarrow> ('s, 'l) dstate \<Rightarrow> ('s, 'l) dstate" where
  "dispatch_claim D job dj now nextFire st =
     (case ClaimJob (d_storage D) (st_storage st) (dj_ID dj) nextFire of (s, r) \<Rightarrow>
        let st = st\<lparr>st_storage := s\<rparr>
        in (case r of
              Inl err \<Rightarrow> logging Log_Error ''claim job'' (dj_Name dj) st
            | Inr claimed \<Rightarrow>
                if \<not> claimed then st
                else
                  let st = emit (claimedInc (d_telemetry D) (dj_Name dj)) st;
                      st = (if missed D dj now then logging Log_Info ''missed fire recovering (run-once)'' (dj_Name dj) st
                            else st);
                      st = st\<lparr>st_inFlight := st_inFlight st + 1\<rparr>
                  in st\<lparr>st_spawned := st_spawned st @ [(job, dj, nextFire)]\<rparr>))"

definition replay_close ::
  "('s, 'l) dispatcher \<Rightarrow> (DueJob \<times> gotime) option \<Rightarrow> ('s, 'l) dstate \<Rightarrow> ('s, 'l) dstate" where
  "replay_close D advance_to st =
     (case advance_to of
        None \<Rightarrow> st
      | Some (dj, future) \<Rightarrow>
          (case ClaimJob (d_storage D) (st_storage st) (dj_ID dj) future of (s, r) \<Rightarrow>
             let st = st\<lparr>st_storage := s\<rparr>
             in (case r of
                   Inl err \<Rightarrow> logging Log_Error ''missed-fire RunAll: advance next_fire'' (dj_Name dj) st
                 | Inr claimed \<Rightarrow> st)))"

section \<open>The segments in sequence\<close>

fun replay_each ::
  "('s, 'l) dispatcher \<Rightarrow> (nat \<Rightarrow> exec_env) \<Rightarrow> Context \<Rightarrow> Job \<Rightarrow> nat \<Rightarrow> DueJob list \<Rightarrow> ('s, 'l) dstate \<Rightarrow> ('s, 'l) dstate" where
  "replay_each D envs parent job k [] st = st"
| "replay_each D envs parent job k (dj # djs) st =
     replay_each D envs parent job (Suc k) djs (executeAtFire D (envs k) parent job dj st)"

fun finish_activity ::
  "('s, 'l) dispatcher \<Rightarrow> (nat \<Rightarrow> exec_env) \<Rightarrow> Context \<Rightarrow> activity \<Rightarrow> ('s, 'l) dstate \<Rightarrow> ('s, 'l) dstate" where
  "finish_activity D envs ctx Idle st = st"
| "finish_activity D envs ctx Stopped st = st"
| "finish_activity D envs ctx (Skipping job dj future) st = dispatch_skip D dj future st"
| "finish_activity D envs ctx (Claiming job dj now nextFire) st = dispatch_claim D job dj now nextFire st"
| "finish_activity D envs ctx (Replaying job djs advance_to) st =
     replay_close D advance_to (replay_each D envs ctx job 0 djs st)"

lemma replay_each_replay:
  "replay_each D envs ctx job k (map (\<lambda>t. dj\<lparr>dj_NextFireTime := t\<rparr>) ts) st = replay D envs ctx job dj k ts st"
  by (induction ts arbitrary: k st) simp_all

lemma runAllMissed_segments:
  "runAllMissed D envs ctx job dj now st =
     (case replay_open D job dj now st of (st', act) \<Rightarrow> finish_activity D envs ctx act st')"
  by (auto simp: runAllMissed_def replay_open_def replay_close_def replay_each_replay Let_def split: sum.splits)

lemma maybeDispatch_segments:
  "maybeDispatch D envs ctx dj now st =
     (case dispatch_look D dj now st of (st', act) \<Rightarrow> finish_activity D envs ctx act st')"
proof (cases "lookup (d_scheduler D) (dj_Name dj)")
  case None
  then show ?thesis by (simp add: maybeDispatch_def dispatch_look_def)
next
  case (Some job)
  show ?thesis
  proof (cases "computeNextFire (d_cron D) dj now")
    case (Inl err)
    with Some show ?thesis by (simp add: maybeDispatch_def dispatch_look_def)
  next
    case (Inr nextFire)
    obtain s r where c: "ClaimJob (d_storage D) (st_storage st) (dj_ID dj) nextFire = (s, r)" by fastforce
    show ?thesis
      using Some Inr c
      by (cases r) (simp_all add: maybeDispatch_def dispatch_look_def runAllMissed_segments dispatch_skip_def dispatch_claim_def missed_def Let_def)
  qed
qed

section \<open>What the segments leave alone\<close>

lemma replay_open_frame [simp]:
  "st_storage (fst (replay_open D job dj now st)) = st_storage st" "st_leader (fst (replay_open D job dj now st)) = st_leader st"
  "st_spawned (fst (replay_open D job dj now st)) = st_spawned st"
  by (simp_all add: replay_open_def Let_def split: sum.splits)

lemma dispatch_look_frame [simp]:
  "st_storage (fst (dispatch_look D dj now st)) = st_storage st" "st_leader (fst (dispatch_look D dj now st)) = st_leader st"
  "st_spawned (fst (dispatch_look D dj now st)) = st_spawned st"
  by (simp_all add: dispatch_look_def Let_def split: option.splits sum.splits)

lemma dispatch_look_runs: "snd (dispatch_look D dj now st) \<noteq> Stopped"
  by (simp add: dispatch_look_def replay_open_def Let_def split: option.splits sum.splits)

lemma dispatch_skip_frame [simp]:
  "st_storage (dispatch_skip D dj t st) = fst (ClaimJob (d_storage D) (st_storage st) (dj_ID dj) t)"
  "st_leader (dispatch_skip D dj t st) = st_leader st" "st_spawned (dispatch_skip D dj t st) = st_spawned st"
  by (simp_all add: dispatch_skip_def Let_def split: prod.splits sum.splits)

lemma replay_close_frame [simp]:
  "st_storage (replay_close D a st) =
     (case a of None \<Rightarrow> st_storage st | Some (dj, t) \<Rightarrow> fst (ClaimJob (d_storage D) (st_storage st) (dj_ID dj) t))"
  "st_leader (replay_close D a st) = st_leader st" "st_spawned (replay_close D a st) = st_spawned st"
  by (auto simp: replay_close_def Let_def split: option.splits prod.splits sum.splits)

lemma dispatch_claim_frame [simp]:
  "st_storage (dispatch_claim D job dj now t st) = fst (ClaimJob (d_storage D) (st_storage st) (dj_ID dj) t)"
  "st_leader (dispatch_claim D job dj now t st) = st_leader st"
  "st_spawned (dispatch_claim D job dj now t st) = st_spawned st @
     (if snd (ClaimJob (d_storage D) (st_storage st) (dj_ID dj) t) = Inr True then [(job, dj, t)] else [])"
  by (auto simp: dispatch_claim_def Let_def split: prod.splits sum.splits)

text \<open>What a decision to claim, or to replay, says.\<close>

lemma dispatch_look_decides:
  "snd (dispatch_look D dj now st) = Claiming job dj' now' t \<longleftrightarrow> decide D st dj now = Claim job t \<and> dj' = dj \<and> now' = now"
  "snd (dispatch_look D dj now st) = Skipping job dj' t \<Longrightarrow>
     decide D st dj now = Skip_to t \<and> dj' = dj \<and> lookup (d_scheduler D) (dj_Name dj) = Some job"
  "snd (dispatch_look D dj now st) = Replaying job djs a \<Longrightarrow> decide D st dj now = Replay job"
  by (auto simp: dispatch_look_def decide_def missed_def replay_open_def Let_def split: option.splits sum.splits if_splits)

end
