(* ===== verification/Postgres_Storage.thy ===== *)
theory Postgres_Storage
  imports Sundial_Storage "HOL-Library.Word"
begin

text \<open>
  \<open>PostgresStorage\<close> of \<open>storage.go\<close>. The database is the pair of tables of the migration; every
  SQL statement of the program is a function on them, with the constraints of the schema. What the
  server and the network decide is an \<open>answer\<close> per round trip: whether the reply arrives, is lost
  before the statement took effect or after it, which advisory keys other transactions hold, the
  uuid a new row gets and the order of a scan. Job ids are the canonical text of uuids, as
  \<open>id::text\<close> returns them and \<open>$1::uuid\<close> reads them back. The driver (pgx) is not part of the program: what it
  and the column type keep of an instant is the parameter \<open>ts\<close>.

  The backend is an interpretation of \<open>storage_contract\<close> for every monotone \<open>ts\<close>.
\<close>

unbundle bit_operations_syntax

section \<open>The advisory key\<close>

fun fnv_loop :: "64 word \<Rightarrow> string \<Rightarrow> 64 word" where
  "fnv_loop h [] = h"
| "fnv_loop h (c # cs) = fnv_loop ((h XOR of_nat (of_char c)) * 0x100000001b3) cs"

definition advisoryKey :: "string \<Rightarrow> int" where
  "advisoryKey i = sint (fnv_loop 0xcbf29ce484222325 i)"

section \<open>The database\<close>

record pg_row =
  pr_name :: string
  pr_schedule :: string
  pr_kind :: string
  pr_next :: gotime

record pg_answer =
  an_fate :: fate
  an_held :: "int list"
  an_uuid :: string
  an_scan :: "(string \<times> pg_row) list \<Rightarrow> (string \<times> pg_row) list"

record PgDB =
  db_jobs :: "(string \<times> pg_row) list"
  db_runs :: "RunRecord list"
  db_answers :: "nat \<Rightarrow> pg_answer"
  db_trips :: nat

definition pg_trip :: "PgDB \<Rightarrow> PgDB \<times> pg_answer" where
  "pg_trip db = (db\<lparr>db_trips := Suc (db_trips db)\<rparr>, db_answers db (db_trips db))"

section \<open>The statements\<close>

text \<open>\<open>INSERT ... ON CONFLICT (name) DO UPDATE ... RETURNING id\<close>, with the checks of the table.\<close>

definition pg_upsert ::
  "string \<Rightarrow> string \<Rightarrow> string \<Rightarrow> string \<Rightarrow> gotime \<Rightarrow> (string \<times> pg_row) list \<Rightarrow>
     go_error + (string \<times> (string \<times> pg_row) list)" where
  "pg_upsert uuid name schedule kind firstFire jobs =
     (if kind \<notin> {''cron'', ''every'', ''at''} then Inl (NewError ''check constraint'')
      else case find (\<lambda>(i, r). pr_name r = name) jobs of
        Some (i, r) \<Rightarrow> Inr (i, AList.update i (r\<lparr>pr_schedule := schedule, pr_kind := kind\<rparr>) jobs)
      | None \<Rightarrow>
          if uuid \<in> fst ` set jobs then Inl (NewError ''duplicate key'')
          else Inr (uuid, jobs @ [(uuid, \<lparr>pr_name = name, pr_schedule = schedule, pr_kind = kind, pr_next = firstFire\<rparr>)]))"

text \<open>\<open>SELECT ... WHERE next_fire_time <= $1 ORDER BY next_fire_time LIMIT $2\<close>.\<close>

definition pg_due :: "string \<times> pg_row \<Rightarrow> DueJob" where
  "pg_due p =
     \<lparr>dj_ID = fst p, dj_Name = pr_name (snd p), dj_NextFireTime = pr_next (snd p),
      dj_ScheduleExpr = pr_schedule (snd p), dj_ScheduleKind = pr_kind (snd p)\<rparr>"

definition pg_select_due ::
  "((string \<times> pg_row) list \<Rightarrow> (string \<times> pg_row) list) \<Rightarrow> gotime \<Rightarrow> int \<Rightarrow> (string \<times> pg_row) list \<Rightarrow> DueJob list" where
  "pg_select_due scan now limit jobs =
     take (nat limit) (sort_key dj_NextFireTime (map pg_due (filter (\<lambda>p. pr_next (snd p) \<le> now) (scan jobs))))"

text \<open>\<open>UPDATE ... SET next_fire_time = $2 WHERE id = $1 AND ...\<close>: the new table and the rows affected.\<close>

definition pg_update ::
  "string \<Rightarrow> gotime \<Rightarrow> (gotime \<Rightarrow> bool) \<Rightarrow> (string \<times> pg_row) list \<Rightarrow> (string \<times> pg_row) list \<times> nat" where
  "pg_update i t cond jobs =
     (case map_of jobs i of
        Some r \<Rightarrow> if cond (pr_next r) then (AList.update i (r\<lparr>pr_next := t\<rparr>) jobs, 1) else (jobs, 0)
      | None \<Rightarrow> (jobs, 0))"

text \<open>
  \<open>INSERT INTO sundial_runs\<close>, with the foreign key and the range of the attempt column. The empty error text stands for the
  \<open>NULL\<close> that \<open>NULLIF\<close> makes of it. The cast of the id to \<open>uuid\<close> cannot fail for the ids the server handed out; any other id
  fails in any case (the error is then the cast's and not the foreign key's, a text nothing depends on).
\<close>

definition pg_insert_run :: "RunRecord \<Rightarrow> PgDB \<Rightarrow> go_error + PgDB" where
  "pg_insert_run run db =
     (if rr_JobID run \<notin> fst ` set (db_jobs db) then Inl (NewError ''foreign key'')
      else if \<not> rr_Attempt run < 2 ^ 31 then Inl (NewError ''integer out of range'')
      else Inr (db\<lparr>db_runs := db_runs db @ [run]\<rparr>))"

section \<open>The methods\<close>

definition pg_EnsureJob ::
  "(gotime \<Rightarrow> gotime) \<Rightarrow> PgDB \<Rightarrow> Job option \<Rightarrow> gotime \<Rightarrow> PgDB \<times> (go_error + string)" where
  "pg_EnsureJob ts db jo firstFire =
     (case jo of
        None \<Rightarrow> (db, Inl (NewError ''sundial: nil job''))
      | Some j \<Rightarrow>
          (case pg_trip db of (db, a) \<Rightarrow>
             case an_fate a of
               Lost_before err \<Rightarrow> (db, Inl (Wrapf (job_Name j) err))
             | fate \<Rightarrow>
                 (case pg_upsert (an_uuid a) (job_Name j) (schedule_String (job_Schedule j))
                    (schedule_Kind (job_Schedule j)) (ts firstFire) (db_jobs db) of
                    Inl err \<Rightarrow> (db, Inl (Wrapf (job_Name j) err))
                  | Inr (i, jobs) \<Rightarrow>
                      (db\<lparr>db_jobs := jobs\<rparr>,
                       case fate of Lost_after err \<Rightarrow> Inl (Wrapf (job_Name j) err) | _ \<Rightarrow> Inr i))))"

definition pg_FetchDue ::
  "(gotime \<Rightarrow> gotime) \<Rightarrow> PgDB \<Rightarrow> gotime \<Rightarrow> int \<Rightarrow> PgDB \<times> (go_error + DueJob list)" where
  "pg_FetchDue ts db now limit =
     (let limit = (if limit \<le> 0 then 32 else limit)
      in case pg_trip db of (db, a) \<Rightarrow>
           (db, case an_fate a of
                  Answered \<Rightarrow> Inr (pg_select_due (an_scan a) (ts now) limit (db_jobs db))
                | Lost_before err \<Rightarrow> Inl (Wrapf ''sundial: fetch due'' err)
                | Lost_after err \<Rightarrow> Inl (Wrapf ''sundial: iterate due'' err)))"

text \<open>
  The claim transaction: begin, lock, update, commit. A reply lost before the commit, the lock held
  elsewhere, or no row affected roll the transaction back.
\<close>

definition pg_ClaimJob ::
  "(gotime \<Rightarrow> gotime) \<Rightarrow> PgDB \<Rightarrow> string \<Rightarrow> gotime \<Rightarrow> PgDB \<times> (go_error + bool)" where
  "pg_ClaimJob ts db jobID nextFire =
     (case pg_trip db of (db, begin_a) \<Rightarrow>
        case an_fate begin_a of
          Lost_before err \<Rightarrow> (db, Inl (Wrapf ''sundial: begin claim tx'' err))
        | Lost_after err \<Rightarrow> (db, Inl (Wrapf ''sundial: begin claim tx'' err))
        | Answered \<Rightarrow>
            (case pg_trip db of (db, lock_a) \<Rightarrow>
               case an_fate lock_a of
                 Lost_before err \<Rightarrow> (db, Inl (Wrapf ''sundial: advisory lock'' err))
               | Lost_after err \<Rightarrow> (db, Inl (Wrapf ''sundial: advisory lock'' err))
               | Answered \<Rightarrow>
                   if advisoryKey jobID \<in> set (an_held lock_a) then (db, Inr False)
                   else
                     (case pg_trip db of (db, update_a) \<Rightarrow>
                        case an_fate update_a of
                          Lost_before err \<Rightarrow> (db, Inl (Wrapf ''sundial: advance next_fire'' err))
                        | Lost_after err \<Rightarrow> (db, Inl (Wrapf ''sundial: advance next_fire'' err))
                        | Answered \<Rightarrow>
                            (case pg_update jobID (ts nextFire) (\<lambda>n. n < ts nextFire) (db_jobs db) of (jobs, affected) \<Rightarrow>
                               if affected = 0 then (db, Inr False)
                               else
                                 (case pg_trip db of (db, commit_a) \<Rightarrow>
                                    case an_fate commit_a of
                                      Lost_before err \<Rightarrow> (db, Inl (Wrapf ''sundial: commit claim'' err))
                                    | Lost_after err \<Rightarrow>
                                        (db\<lparr>db_jobs := jobs\<rparr>, Inl (Wrapf ''sundial: commit claim'' err))
                                    | Answered \<Rightarrow> (db\<lparr>db_jobs := jobs\<rparr>, Inr True))))))"

definition pg_ScheduleRetry ::
  "(gotime \<Rightarrow> gotime) \<Rightarrow> PgDB \<Rightarrow> string \<Rightarrow> gotime \<Rightarrow> PgDB \<times> go_error option" where
  "pg_ScheduleRetry ts db jobID retryAt =
     (case pg_trip db of (db, a) \<Rightarrow>
        let updated = db\<lparr>db_jobs := fst (pg_update jobID (ts retryAt) (\<lambda>n. ts retryAt < n) (db_jobs db))\<rparr>
        in case an_fate a of
             Answered \<Rightarrow> (updated, None)
           | Lost_before err \<Rightarrow> (db, Some (Wrapf ''sundial: schedule retry'' err))
           | Lost_after err \<Rightarrow> (updated, Some (Wrapf ''sundial: schedule retry'' err)))"

definition pg_RecordRun ::
  "(gotime \<Rightarrow> gotime) \<Rightarrow> PgDB \<Rightarrow> gotime \<Rightarrow> RunRecord \<Rightarrow> PgDB \<times> go_error option" where
  "pg_RecordRun ts db now run =
     (case pg_trip db of (db, a) \<Rightarrow>
        case an_fate a of
          Lost_before err \<Rightarrow> (db, Some (Wrapf ''sundial: record run'' err))
        | fate \<Rightarrow>
            (case pg_insert_run (run_ts ts (fill_run now run)) db of
               Inl err \<Rightarrow> (db, Some (Wrapf ''sundial: record run'' err))
             | Inr db' \<Rightarrow>
                 (db', case fate of Lost_after err \<Rightarrow> Some (Wrapf ''sundial: record run'' err) | _ \<Rightarrow> None)))"

definition PostgresStorage_ops :: "(gotime \<Rightarrow> gotime) \<Rightarrow> PgDB Storage" where
  "PostgresStorage_ops ts =
     \<lparr>EnsureJob = pg_EnsureJob ts, FetchDue = pg_FetchDue ts, ClaimJob = pg_ClaimJob ts,
      RecordRun = pg_RecordRun ts, ScheduleRetry = pg_ScheduleRetry ts\<rparr>"

section \<open>Invariant and abstraction\<close>

definition pg_inv :: "PgDB \<Rightarrow> bool" where
  "pg_inv db \<longleftrightarrow>
     distinct (map fst (db_jobs db)) \<and> distinct (map (pr_name \<circ> snd) (db_jobs db)) \<and>
     (\<forall>k. range_order (an_scan (db_answers db k)))"

definition pg_jobrow :: "pg_row \<Rightarrow> jobrow" where
  "pg_jobrow r =
     \<lparr>row_Name = pr_name r, row_NextFire = pr_next r, row_Expr = pr_schedule r, row_Kind = pr_kind r\<rparr>"

definition pg_table :: "PgDB \<Rightarrow> jobtable" where
  "pg_table db i = map_option pg_jobrow (map_of (db_jobs db) i)"

lemma pg_jobrow_simps [simp]:
  "row_Name (pg_jobrow r) = pr_name r" "row_NextFire (pg_jobrow r) = pr_next r"
  "row_Expr (pg_jobrow r) = pr_schedule r" "row_Kind (pg_jobrow r) = pr_kind r"
  "pg_jobrow (r\<lparr>pr_next := t\<rparr>) = (pg_jobrow r)\<lparr>row_NextFire := t\<rparr>"
  by (simp_all add: pg_jobrow_def)

lemma pg_trip_frame:
  "pg_trip db = (db', a) \<Longrightarrow>
     db_jobs db' = db_jobs db \<and> db_runs db' = db_runs db \<and> pg_inv db' = pg_inv db \<and> pg_table db' = pg_table db \<and>
     a = db_answers db (db_trips db)"
  by (auto simp: pg_trip_def pg_inv_def pg_table_def fun_eq_iff)

lemma pg_runs_frame [simp]:
  "pg_inv (db\<lparr>db_runs := rs\<rparr>) = pg_inv db" "pg_table (db\<lparr>db_runs := rs\<rparr>) = pg_table db"
  by (auto simp: pg_inv_def pg_table_def fun_eq_iff)

text \<open>Replacing a row by one with the same name.\<close>

lemma pg_replace:
  assumes "pg_inv db" "map_of (db_jobs db) i = Some r" "pr_name r' = pr_name r"
  shows "pg_inv (db\<lparr>db_jobs := AList.update i r' (db_jobs db)\<rparr>)"
    and "pg_table (db\<lparr>db_jobs := AList.update i r' (db_jobs db)\<rparr>) = (pg_table db)(i \<mapsto> pg_jobrow r')"
proof -
  have keys: "distinct (map fst (db_jobs db))" using assms(1) by (simp add: pg_inv_def)
  have mem: "(i, r) \<in> set (db_jobs db)" using assms(2) by (rule map_of_SomeD)
  have upd: "AList.update i r' (db_jobs db) = map (\<lambda>(k, x). (k, if k = i then r' else x)) (db_jobs db)"
    using keys mem by (rule update_existing)
  have "map fst (AList.update i r' (db_jobs db)) = map fst (db_jobs db)" unfolding upd by (simp add: comp_def case_prod_beta)
  moreover have "x = r" if "(i, x) \<in> set (db_jobs db)" for x using that mem keys by (meson eq_key_imp_eq_value)
  then have "map (pr_name \<circ> snd) (AList.update i r' (db_jobs db)) = map (pr_name \<circ> snd) (db_jobs db)"
    unfolding upd using assms(3) by auto
  ultimately show "pg_inv (db\<lparr>db_jobs := AList.update i r' (db_jobs db)\<rparr>)"
    using assms(1) by (simp add: pg_inv_def)
  show "pg_table (db\<lparr>db_jobs := AList.update i r' (db_jobs db)\<rparr>) = (pg_table db)(i \<mapsto> pg_jobrow r')"
    by (simp add: pg_table_def fun_eq_iff update_conv)
qed

lemma pg_update_claim:
  assumes "pg_inv db" "pg_update i t (\<lambda>n. n < t) (db_jobs db) = (jobs, k)"
  shows "pg_inv (db\<lparr>db_jobs := jobs\<rparr>) \<and> pg_table (db\<lparr>db_jobs := jobs\<rparr>) = advance (pg_table db) i t \<and>
    (k = 0 \<longleftrightarrow> \<not> claimable (pg_table db) i t)"
proof (cases "map_of (db_jobs db) i")
  case None
  then show ?thesis using assms by (auto simp: pg_update_def advance_def claimable_def pg_table_def)
next
  case (Some r)
  then have "pg_table db i = Some (pg_jobrow r)" by (simp add: pg_table_def)
  then show ?thesis
    using assms Some pg_replace [OF assms(1) Some, of "r\<lparr>pr_next := t\<rparr>"]
    by (auto simp: pg_update_def advance_def claimable_def split: if_splits)
qed

lemma pg_update_retry:
  assumes "pg_inv db" "pg_update i t (\<lambda>n. t < n) (db_jobs db) = (jobs, k)"
  shows "pg_inv (db\<lparr>db_jobs := jobs\<rparr>) \<and> pg_table (db\<lparr>db_jobs := jobs\<rparr>) = pull_back (pg_table db) i t"
proof (cases "map_of (db_jobs db) i")
  case None
  then show ?thesis using assms by (auto simp: pg_update_def pull_back_def pg_table_def)
next
  case (Some r)
  then have "pg_table db i = Some (pg_jobrow r)" by (simp add: pg_table_def)
  then show ?thesis
    using assms Some pg_replace [OF assms(1) Some, of "r\<lparr>pr_next := t\<rparr>"]
    by (auto simp: pg_update_def pull_back_def split: if_splits)
qed

lemma pg_upsert_law:
  assumes "pg_inv db" "pg_upsert uuid (job_Name j) (schedule_String (job_Schedule j)) (schedule_Kind (job_Schedule j)) t (db_jobs db) = Inr (i, jobs)"
  shows "pg_inv (db\<lparr>db_jobs := jobs\<rparr>) \<and> registered (pg_table db) j t i (pg_table (db\<lparr>db_jobs := jobs\<rparr>))"
proof (cases "find (\<lambda>(i, r). pr_name r = job_Name j) (db_jobs db)")
  case None
  let ?r = "\<lparr>pr_name = job_Name j, pr_schedule = schedule_String (job_Schedule j), pr_kind = schedule_Kind (job_Schedule j), pr_next = t\<rparr>"
  have new: "i \<notin> fst ` set (db_jobs db)" "jobs = db_jobs db @ [(i, ?r)]"
    using assms(2) None by (auto simp: pg_upsert_def split: if_splits)
  have names: "\<forall>(k, r) \<in> set (db_jobs db). pr_name r \<noteq> job_Name j" using None by (auto simp: find_None_iff)
  have fresh: "map_of (db_jobs db) i = None" using new(1) by (simp add: map_of_eq_None_iff)
  have "pg_inv (db\<lparr>db_jobs := jobs\<rparr>)" using assms(1) new names by (auto simp: pg_inv_def)
  moreover have "pg_table (db\<lparr>db_jobs := jobs\<rparr>) = (pg_table db)(i \<mapsto> pg_jobrow ?r)"
    using new(2) fresh by (auto simp: pg_table_def fun_eq_iff map_add_def split: option.splits)
  moreover have "\<forall>r \<in> ran (pg_table db). row_Name r \<noteq> job_Name j"
    using names by (force simp: pg_table_def ran_def dest: map_of_SomeD)
  ultimately show ?thesis
    using fresh by (simp add: registered_def pg_table_def [of db] pg_jobrow_def)
next
  case (Some p)
  then obtain k r where p: "find (\<lambda>(i, r). pr_name r = job_Name j) (db_jobs db) = Some (k, r)" by (cases p) auto
  then have mem: "(k, r) \<in> set (db_jobs db)" "pr_name r = job_Name j"
    by (auto simp: find_Some_iff in_set_conv_nth)
  then have kr: "map_of (db_jobs db) k = Some r" using assms(1) by (simp add: pg_inv_def)
  have eq: "i = k" "jobs = AList.update k (r\<lparr>pr_schedule := schedule_String (job_Schedule j), pr_kind := schedule_Kind (job_Schedule j)\<rparr>) (db_jobs db)"
    using assms(2) p by (auto simp: pg_upsert_def split: if_splits)
  have "pg_table db k = Some (pg_jobrow r)" using kr by (simp add: pg_table_def)
  then show ?thesis
    using pg_replace [OF assms(1) kr, of "r\<lparr>pr_schedule := schedule_String (job_Schedule j), pr_kind := schedule_Kind (job_Schedule j)\<rparr>"] mem(2)
    unfolding eq by (simp add: registered_def pg_jobrow_def)
qed

lemma pg_select_due_snapshot:
  assumes "pg_inv db" "range_order scan"
  shows "due_snapshot (pg_table db) now limit (pg_select_due scan now (effective_limit limit) (db_jobs db))"
proof -
  let ?due = "map pg_due (filter (\<lambda>p. pr_next (snd p) \<le> now) (scan (db_jobs db)))"
  let ?all = "sort_key dj_NextFireTime ?due"
  have ids: "map dj_ID ?due = map fst (filter (\<lambda>p. pr_next (snd p) \<le> now) (scan (db_jobs db)))"
    by (simp add: pg_due_def)
  have "mset (map fst (scan (db_jobs db))) = mset (map fst (db_jobs db))"
    using assms(2) by (simp add: range_order_def)
  then have "distinct (map fst (scan (db_jobs db)))"
    using assms(1) mset_eq_imp_distinct_iff unfolding pg_inv_def by blast
  then have "distinct (map dj_ID ?due)" unfolding ids by (rule distinct_map_filter)
  moreover have "mset (map dj_ID ?all) = mset (map dj_ID ?due)" by (simp only: mset_map mset_sort)
  ultimately have dist: "distinct (map dj_ID ?all)" using mset_eq_imp_distinct_iff by blast
  have row: "pg_due (i, r) = due_of_row i (pg_jobrow r)" for i r by (simp add: pg_due_def due_of_row_def)
  have "d \<in> set ?all \<longleftrightarrow> (\<exists>r. pg_table db (dj_ID d) = Some r \<and> row_NextFire r \<le> now \<and> d = due_of_row (dj_ID d) r)" for d
  proof -
    have "d \<in> set ?all \<longleftrightarrow> (\<exists>i r. (i, r) \<in> set (db_jobs db) \<and> pr_next r \<le> now \<and> d = pg_due (i, r))"
      by (force simp: range_order_set [OF assms(2)])
    also have "\<dots> \<longleftrightarrow> (\<exists>i r. map_of (db_jobs db) i = Some r \<and> pr_next r \<le> now \<and> d = due_of_row i (pg_jobrow r))"
      using assms(1) by (simp add: row pg_inv_def)
    also have "\<dots> \<longleftrightarrow> (\<exists>r. pg_table db (dj_ID d) = Some r \<and> row_NextFire r \<le> now \<and> d = due_of_row (dj_ID d) r)"
      by (force simp: pg_table_def due_of_row_def)
    finally show ?thesis .
  qed
  from due_snapshot_take [OF dist sorted_sort_key this] show ?thesis by (simp add: pg_select_due_def)
qed

section \<open>The laws of the interface\<close>

lemma pg_ClaimJob_law:
  assumes "pg_inv db" "pg_ClaimJob ts db i t = (db', r)"
  shows "pg_inv db' \<and> db_runs db' = db_runs db \<and>
    (r = Inr True \<longrightarrow> claimable (pg_table db) i (ts t) \<and> pg_table db' = advance (pg_table db) i (ts t)) \<and>
    (r = Inr False \<longrightarrow> pg_table db' = pg_table db) \<and>
    (pg_table db' = pg_table db \<or> pg_table db' = advance (pg_table db) i (ts t))"
proof -
  obtain db1 a1 where t1: "pg_trip db = (db1, a1)" by fastforce
  obtain db2 a2 where t2: "pg_trip db1 = (db2, a2)" by fastforce
  obtain db3 a3 where t3: "pg_trip db2 = (db3, a3)" by fastforce
  obtain db4 a4 where t4: "pg_trip db3 = (db4, a4)" by fastforce
  obtain jobs k where u: "pg_update i (ts t) (\<lambda>n. n < ts t) (db_jobs db4) = (jobs, k)" by fastforce
  note frames = pg_trip_frame [OF t1] pg_trip_frame [OF t2] pg_trip_frame [OF t3] pg_trip_frame [OF t4]
  have inv4: "pg_inv db4" using frames assms(1) by blast
  note upd = pg_update_claim [OF inv4 u]
  have u3: "pg_update i (ts t) (\<lambda>n. n < ts t) (db_jobs db3) = (jobs, k)" using u frames by simp
  have cases: "db' = db1 \<and> (\<exists>e. r = Inl e) \<or> db' = db2 \<and> ((\<exists>e. r = Inl e) \<or> r = Inr False) \<or>
      db' = db3 \<and> ((\<exists>e. r = Inl e) \<or> r = Inr False) \<or> db' = db4 \<and> (\<exists>e. r = Inl e) \<or>
      db' = db4\<lparr>db_jobs := jobs\<rparr> \<and> k \<noteq> 0 \<and> ((\<exists>e. r = Inl e) \<or> r = Inr True)"
    using assms(2) t1 t2 t3 t4 u3 by (auto simp: pg_ClaimJob_def split: fate.splits if_splits)
  have runs4: "db_runs (db4\<lparr>db_jobs := jobs\<rparr>) = db_runs db4" by simp
  show ?thesis
    using cases frames upd assms(1) runs4 by (elim disjE conjE exE) simp_all
qed

lemma pg_ScheduleRetry_law:
  assumes "pg_inv db" "pg_ScheduleRetry ts db i t = (db', e)"
  shows "pg_inv db' \<and> db_runs db' = db_runs db \<and>
    (e = None \<longrightarrow> pg_table db' = pull_back (pg_table db) i (ts t)) \<and>
    (pg_table db' = pg_table db \<or> pg_table db' = pull_back (pg_table db) i (ts t))"
proof -
  obtain db1 a where t: "pg_trip db = (db1, a)" by fastforce
  obtain jobs k where u: "pg_update i (ts t) (\<lambda>n. ts t < n) (db_jobs db1) = (jobs, k)" by fastforce
  have inv: "pg_inv db1" using pg_trip_frame [OF t] assms(1) by blast
  show ?thesis
    using assms(2) pg_trip_frame [OF t] pg_update_retry [OF inv u] t u inv
    by (auto simp: pg_ScheduleRetry_def Let_def split: fate.splits)
qed

lemma pg_FetchDue_law:
  assumes "pg_inv db" "pg_FetchDue ts db now limit = (db', r)"
  shows "pg_inv db' \<and> pg_table db' = pg_table db \<and> db_runs db' = db_runs db \<and>
    (\<forall>ds. r = Inr ds \<longrightarrow> due_snapshot (pg_table db) (ts now) limit ds)"
proof -
  obtain db1 a where t: "pg_trip db = (db1, a)" by fastforce
  have inv: "pg_inv db1" "range_order (an_scan a)" "pg_table db1 = pg_table db" "db_runs db1 = db_runs db"
    using pg_trip_frame [OF t] assms(1) by (auto simp: pg_inv_def)
  have "db' = db1" "r = Inr ds \<Longrightarrow> ds = pg_select_due (an_scan a) (ts now) (effective_limit limit) (db_jobs db1)" for ds
    using assms(2) t by (auto simp: pg_FetchDue_def effective_limit_def Let_def split: fate.splits)
  with inv pg_select_due_snapshot [OF inv(1,2), of "ts now" limit] show ?thesis by auto
qed

lemma pg_EnsureJob_law:
  assumes "pg_inv db" "pg_EnsureJob ts db (Some j) first = (db', r)"
  shows "pg_inv db' \<and> db_runs db' = db_runs db \<and>
    (\<forall>i. r = Inr i \<longrightarrow> registered (pg_table db) j (ts first) i (pg_table db')) \<and>
    (pg_table db' = pg_table db \<or> (\<exists>i. registered (pg_table db) j (ts first) i (pg_table db')))"
proof -
  obtain db1 a where t: "pg_trip db = (db1, a)" by fastforce
  have inv: "pg_inv db1" "pg_table db1 = pg_table db" "db_runs db1 = db_runs db"
    using pg_trip_frame [OF t] assms(1) by auto
  let ?upsert = "pg_upsert (an_uuid a) (job_Name j) (schedule_String (job_Schedule j)) (schedule_Kind (job_Schedule j)) (ts first) (db_jobs db1)"
  show ?thesis
  proof (cases ?upsert)
    case (Inl e)
    then show ?thesis using assms(2) t inv by (auto simp: pg_EnsureJob_def split: fate.splits)
  next
    case (Inr p)
    then obtain i jobs where p: "?upsert = Inr (i, jobs)" by (cases p) auto
    show ?thesis
      using assms(2) t inv p pg_upsert_law [OF inv(1) p] by (auto simp: pg_EnsureJob_def split: fate.splits)
  qed
qed

lemma pg_contract:
  assumes "\<And>t u. t \<le> u \<Longrightarrow> ts t \<le> ts u"
  shows "storage_contract (PostgresStorage_ops ts) pg_table db_runs pg_inv ts"
proof (unfold_locales, goal_cases)
  case (1 t u)
  then show ?case by (rule assms)
next
  case (2 s i t s' r)
  then show ?case using pg_ClaimJob_law [of s ts i t s' r] by (simp add: PostgresStorage_ops_def)
next
  case (3 s i t s' e)
  then show ?case using pg_ScheduleRetry_law [of s ts i t s' e] by (simp add: PostgresStorage_ops_def)
next
  case (4 s now run s' e)
  obtain db a where t: "pg_trip s = (db, a)" by fastforce
  show ?case
    using 4 pg_trip_frame [OF t] t
    by (auto simp: PostgresStorage_ops_def pg_RecordRun_def pg_insert_run_def split: fate.splits if_splits sum.splits)
next
  case (5 s now limit s' r)
  then show ?case using pg_FetchDue_law [of s ts now limit s' r] by (simp add: PostgresStorage_ops_def)
next
  case (6 s j first s' r)
  then show ?case using pg_EnsureJob_law [of s ts j first s' r] by (simp add: PostgresStorage_ops_def)
next
  case (7 s first)
  show ?case by (simp add: PostgresStorage_ops_def pg_EnsureJob_def)
qed

text \<open>\<open>timestamptz\<close> keeps microseconds.\<close>

definition pg_timestamptz :: "gotime \<Rightarrow> gotime" where
  "pg_timestamptz t = t div 1000 * 1000"

lemma pg_timestamptz_mono: "t \<le> u \<Longrightarrow> pg_timestamptz t \<le> pg_timestamptz u"
  by (simp add: pg_timestamptz_def zdiv_mono1)

interpretation pg: storage_contract "PostgresStorage_ops pg_timestamptz" pg_table db_runs pg_inv pg_timestamptz
  by (rule pg_contract) (rule pg_timestamptz_mono)

section \<open>The hash\<close>

text \<open>The multiplier is odd, so that one round of the loop can be undone.\<close>

lemma fnv_prime_inverse: "(0x100000001b3 :: 64 word) * 0xce965057aff6957b = 1"
  by simp

lemma word_mult_cancel: "(p :: 64 word) * q = 1 \<Longrightarrow> a * p = b * p \<Longrightarrow> a = b"
proof -
  assume pq: "p * q = 1" and eq: "a * p = b * p"
  have "a * (p * q) = b * (p * q)" using eq by (simp only: mult.assoc [symmetric])
  then show "a = b" using pq by simp
qed

lemma fnv_round_inj: "(a :: 64 word) * 0x100000001b3 = b * 0x100000001b3 \<Longrightarrow> a = b"
  by (rule word_mult_cancel [OF fnv_prime_inverse])

lemma xor_right_cancel: "(a :: 64 word) XOR h = b XOR h \<Longrightarrow> a = b"
proof -
  assume "a XOR h = b XOR h"
  then have "(a XOR h) XOR h = (b XOR h) XOR h" by simp
  then show "a = b" by (simp add: xor.assoc)
qed

lemma xor_left_cancel: "(h :: 64 word) XOR a = h XOR b \<Longrightarrow> a = b"
  by (rule xor_right_cancel [of a h b]) (simp add: xor.commute)

lemma byte_word_inj: "(of_nat (of_char a) :: 64 word) = of_nat (of_char b) \<Longrightarrow> a = b"
proof -
  assume eq: "(of_nat (of_char a) :: 64 word) = of_nat (of_char b)"
  have small: "unat (of_nat (of_char c) :: 64 word) = of_char c" for c
  proof -
    have "(of_char c :: nat) < 2 ^ LENGTH(64)" by (rule less_trans [OF nat_of_char_less_256]) simp
    then show ?thesis unfolding unat_of_nat by (rule mod_less)
  qed
  show "a = b" using arg_cong [OF eq, of unat] unfolding small by simp
qed

lemma fnv_loop_inj: "fnv_loop h cs = fnv_loop h' cs \<Longrightarrow> h = h'"
  by (induction cs arbitrary: h h') (auto dest: fnv_round_inj xor_right_cancel)

lemma fnv_loop_append: "fnv_loop h (xs @ ys) = fnv_loop (fnv_loop h xs) ys"
  by (induction xs arbitrary: h) simp_all

section \<open>Properties\<close>

text \<open>
  The advisory key is a 64-bit signed integer, and two job ids of the
  same length that differ in one byte have different keys: jobs with such ids never block each
  other's claims.
\<close>

theorem advisory_key_distinct:
  "int64 (advisoryKey i) \<and> (advisoryKey (p @ a # q) = advisoryKey (p @ b # q) \<longrightarrow> a = b)"
proof (intro conjI impI)
  show "int64 (advisoryKey i)"
    using sint_greater_eq [of "fnv_loop 0xcbf29ce484222325 i"] sint_less [of "fnv_loop 0xcbf29ce484222325 i"]
    by (simp add: advisoryKey_def int64_def)
  let ?h = "fnv_loop 0xcbf29ce484222325 p"
  assume "advisoryKey (p @ a # q) = advisoryKey (p @ b # q)"
  then have "fnv_loop 0xcbf29ce484222325 (p @ a # q) = fnv_loop 0xcbf29ce484222325 (p @ b # q)"
    unfolding advisoryKey_def by (rule signed_word_eqI)
  then have "fnv_loop ?h (a # q) = fnv_loop ?h (b # q)" by (simp only: fnv_loop_append)
  then have "(?h XOR of_nat (of_char a)) * 0x100000001b3 = (?h XOR of_nat (of_char b)) * 0x100000001b3"
    by (simp only: fnv_loop.simps) (rule fnv_loop_inj)
  then show "a = b" by (rule byte_word_inj [OF xor_left_cancel [OF fnv_round_inj]])
qed

theorem advisory_key_distinct_witness:
  "advisoryKey ''aab'' \<noteq> advisoryKey ''acb''"
  using advisory_key_distinct [of "[]" "''a''" "CHR ''a''" "''b''" "CHR ''c''"] by auto

text \<open>
  Property C15. Whatever the server and the network do, the Postgres backend
  implements the abstract table: a claim that returns true advanced a claimable row, one that returns
  false changed nothing, one that fails changed nothing or advanced the row (the commit's reply was
  lost); a retry pulls back, a run is appended, a registration inserts or updates, and a failed call
  had its effect completely or not at all.
\<close>

theorem postgres_refines_table:
  assumes "\<And>t u. t \<le> u \<Longrightarrow> ts t \<le> ts u" "pg_inv db"
  shows "(case pg_ClaimJob ts db i t of (db', r) \<Rightarrow>
      pg_inv db' \<and> db_runs db' = db_runs db \<and>
      (case r of
         Inr True \<Rightarrow> claimable (pg_table db) i (ts t) \<and> pg_table db' = advance (pg_table db) i (ts t)
       | Inr False \<Rightarrow> pg_table db' = pg_table db
       | Inl e \<Rightarrow> pg_table db' \<in> {pg_table db, advance (pg_table db) i (ts t)})) \<and>
    (case pg_ScheduleRetry ts db i t of (db', e) \<Rightarrow>
      pg_inv db' \<and> db_runs db' = db_runs db \<and>
      pg_table db' \<in> (if e = None then {} else {pg_table db}) \<union> {pull_back (pg_table db) i (ts t)}) \<and>
    (case pg_RecordRun ts db t run of (db', e) \<Rightarrow>
      pg_inv db' \<and> pg_table db' = pg_table db \<and>
      db_runs db' \<in> (if e = None then {} else {db_runs db}) \<union> {db_runs db @ [run_ts ts (fill_run t run)]}) \<and>
    (case pg_EnsureJob ts db (Some j) t of (db', r) \<Rightarrow>
      pg_inv db' \<and> db_runs db' = db_runs db \<and>
      (case r of
         Inr k \<Rightarrow> registered (pg_table db) j (ts t) k (pg_table db')
       | Inl e \<Rightarrow> pg_table db' = pg_table db \<or> (\<exists>k. registered (pg_table db) j (ts t) k (pg_table db')))) \<and>
    (case pg_FetchDue ts db t limit of (db', r) \<Rightarrow>
      pg_inv db' \<and> pg_table db' = pg_table db \<and> db_runs db' = db_runs db \<and>
      (case r of Inr due \<Rightarrow> due_snapshot (pg_table db) (ts t) limit due | Inl e \<Rightarrow> True))"
proof -
  note C = pg_contract [of ts, OF assms(1)]
  note laws = storage_contract.claim_law [OF C assms(2)] storage_contract.retry_law [OF C assms(2)]
    storage_contract.record_law [OF C assms(2)] storage_contract.ensure_law [OF C assms(2)]
    storage_contract.fetch_law [OF C assms(2)]
  show ?thesis
    using laws(1) [of i t] laws(2) [of i t] laws(3) [of t run] laws(4) [of j t] laws(5) [of t limit]
    by (auto simp: PostgresStorage_ops_def split: prod.splits sum.splits bool.splits)
qed

definition demo_answer :: pg_answer where
  "demo_answer = \<lparr>an_fate = Answered, an_held = [], an_uuid = ''6c84fb90-12c4-11e1-840d-7b25c5ee775a'', an_scan = rev\<rparr>"

definition demo_db :: "nat \<Rightarrow> pg_answer \<Rightarrow> PgDB" where
  "demo_db k a =
     \<lparr>db_jobs = [(''id-1'', \<lparr>pr_name = ''j'', pr_schedule = ''10s'', pr_kind = ''every'', pr_next = 5000\<rparr>)], db_runs = [],
      db_answers = (\<lambda>n. if n = k then a else demo_answer), db_trips = 0\<rparr>"

lemma demo_db_inv: "range_order (an_scan a) \<Longrightarrow> pg_inv (demo_db k a)"
  by (simp add: pg_inv_def demo_db_def demo_answer_def)

theorem postgres_refines_table_witness:
  "pg_inv (fst (pg_ClaimJob pg_timestamptz (demo_db 0 demo_answer) ''id-1'' 9000))"
  using postgres_refines_table [of pg_timestamptz, OF pg_timestamptz_mono demo_db_inv [of demo_answer 0], of "''id-1''" 9000]
  by (simp add: case_prod_beta demo_answer_def)

text \<open>
  A fire target is won once: after a claim returned true, no claim for
  the same or an earlier target returns true any more, whatever operations other nodes perform in
  between, with whatever failures, as long as the job is not pulled back for a retry.
\<close>

theorem postgres_claim_once:
  assumes "\<And>t u. t \<le> u \<Longrightarrow> ts t \<le> ts u" "pg_inv db" "pg_ClaimJob ts db i t = (db1, Inr True)"
    and "list_all (\<lambda>c. \<not> retries_job i c) calls" "u \<le> t"
  shows "snd (pg_ClaimJob ts (fold (storage_step (PostgresStorage_ops ts)) calls db1) i u) \<noteq> Inr True"
  using storage_contract.claim_once_ever [OF pg_contract [of ts, OF assms(1)] assms(2) _ assms(4,5), of db1] assms(3)
  by (simp add: PostgresStorage_ops_def)

theorem postgres_claim_once_witness:
  "snd (pg_ClaimJob pg_timestamptz (demo_db 0 demo_answer) ''id-1'' 9000) = Inr True \<and>
   snd (pg_ClaimJob pg_timestamptz (fst (pg_ClaimJob pg_timestamptz (demo_db 0 demo_answer) ''id-1'' 9000)) ''id-1'' 9000) \<noteq> Inr True"
proof
  show won: "snd (pg_ClaimJob pg_timestamptz (demo_db 0 demo_answer) ''id-1'' 9000) = Inr True"
    by (simp add: pg_ClaimJob_def pg_trip_def demo_db_def demo_answer_def pg_update_def pg_timestamptz_def)
  obtain db1 where "pg_ClaimJob pg_timestamptz (demo_db 0 demo_answer) ''id-1'' 9000 = (db1, Inr True)"
    using won by (metis prod.collapse)
  with postgres_claim_once [of pg_timestamptz, OF pg_timestamptz_mono demo_db_inv [of demo_answer 0], of "''id-1''" 9000 db1 "[]" 9000]
  show "snd (pg_ClaimJob pg_timestamptz (fst (pg_ClaimJob pg_timestamptz (demo_db 0 demo_answer) ''id-1'' 9000)) ''id-1'' 9000) \<noteq> Inr True"
    by (simp add: demo_answer_def)
qed

end
