(* ===== verification/Sundial_Cluster.thy ===== *)
theory Sundial_Cluster
  imports Sundial_Run Dispatcher_Progress Dispatch_Segments Postgres_Storage
begin

text \<open>
  Several nodes over one storage and one leader state. A node runs the dispatcher of
  \<open>Sundial_Dispatcher\<close>; the steps of different nodes interleave wherever a node waits for the storage, a
  handler or the clock: between the fetch of a tick and the decision on each job it returned, between the decision (with
  its leader check) and the claim, between the executions of a replay, between the three
  segments of every execution, and at every crash. \<open>cl_activity\<close> is what the loop of a node has decided and not yet
  done. A loop that has returned stays so, while the goroutines it left behind go on; the next run of the same
  scheduler has a dispatcher of its own, hence counts as another node.

  The relation \<open>cluster_step\<close> is labelled with what happened. Two history variables record what the storage does
  not show: \<open>cl_won\<close> lists the claims that were won (node, job, instant of the tick, target) and \<open>cl_started\<close> the
  goroutines that went on to call their handler, in order.
\<close>

section \<open>The step relation\<close>

text \<open>An execution under way, in its own goroutine or, for a replay, inline in the loop of its node.\<close>

record frame =
  fr_job :: Job
  fr_dj :: DueJob
  fr_env :: exec_env
  fr_ctx :: Context
  fr_attempt :: int
  fr_outcome :: "RunOutcome option"
  fr_inline :: bool

record ('s, 'l) cluster =
  cl_storage :: 's
  cl_leader :: 'l
  cl_nodes :: "nat \<Rightarrow> ('s, 'l) dstate"
  cl_pending :: "nat \<Rightarrow> gotime \<times> DueJob list"
  cl_activity :: "nat \<Rightarrow> activity"
  cl_frames :: "nat \<Rightarrow> frame list"
  cl_won :: "(nat \<times> DueJob \<times> gotime \<times> gotime) list"
  cl_started :: "(nat \<times> DueJob \<times> gotime) list"

text \<open>
  What the surroundings do to the leader state: what the crash of a node does to it, and the changes
  that happen without any node.
\<close>

record 'l surroundings =
  sr_crash :: "nat \<Rightarrow> 'l \<Rightarrow> 'l"
  sr_leader :: "'l \<Rightarrow> 'l \<Rightarrow> bool"

definition quiet_surroundings :: "'l surroundings" where
  "quiet_surroundings = \<lparr>sr_crash = (\<lambda>n l. l), sr_leader = (\<lambda>l l'. False)\<rparr>"

text \<open>A settled execution is labelled with whether it is retried.\<close>

datatype cluster_event =
    Ev_Ensure nat
  | Ev_Fetch nat gotime
  | Ev_Look nat string
  | Ev_Skip nat string
  | Ev_Claim nat string
  | Ev_Replay nat string
  | Ev_Advance nat
  | Ev_Start nat string
  | Ev_Settle nat string bool
  | Ev_Record nat string
  | Ev_Renew nat
  | Ev_Stop nat
  | Ev_Crash nat
  | Ev_Leader

definition on_node :: "('s, 'l) cluster \<Rightarrow> nat \<Rightarrow> ('s, 'l) dstate" where
  "on_node c n = (cl_nodes c n)\<lparr>st_storage := cl_storage c, st_leader := cl_leader c\<rparr>"

definition put_node :: "('s, 'l) cluster \<Rightarrow> nat \<Rightarrow> ('s, 'l) dstate \<Rightarrow> ('s, 'l) cluster" where
  "put_node c n st = c\<lparr>cl_storage := st_storage st, cl_leader := st_leader st, cl_nodes := (cl_nodes c)(n := st)\<rparr>"

text \<open>The state of a process that starts, in place of node \<open>n\<close>.\<close>

definition restart_node :: "('s, 'l) cluster \<Rightarrow> nat \<Rightarrow> 'l \<Rightarrow> ('s, 'l) cluster" where
  "restart_node c n l =
     c\<lparr>cl_leader := l, cl_nodes := (cl_nodes c)(n := new_dstate (cl_storage c) l),
       cl_pending := (cl_pending c)(n := (0, [])), cl_activity := (cl_activity c)(n := Idle), cl_frames := (cl_frames c)(n := [])\<rparr>"

text \<open>The loop of a node is between two calls, or waits for an execution of its replay.\<close>

definition at_rest :: "('s, 'l) cluster \<Rightarrow> nat \<Rightarrow> bool" where
  "at_rest c n \<longleftrightarrow> cl_activity c n = Idle \<and> snd (cl_pending c n) = []"

definition inline_running :: "('s, 'l) cluster \<Rightarrow> nat \<Rightarrow> bool" where
  "inline_running c n \<longleftrightarrow> list_ex fr_inline (cl_frames c n)"

definition frame_error :: "frame \<Rightarrow> string option" where
  "frame_error f = safeRun (fr_ctx f) (job_Handler (fr_job f))"

text \<open>The goroutines a claim started.\<close>

definition spawned_since :: "('s, 'l) dstate \<Rightarrow> ('s, 'l) dstate \<Rightarrow> (Job \<times> DueJob \<times> gotime) list" where
  "spawned_since st st' = drop (length (st_spawned st)) (st_spawned st')"

inductive cluster_step ::
  "(nat \<Rightarrow> ('s, 'l) dispatcher) \<Rightarrow> 'l surroundings \<Rightarrow> ('s, 'l) cluster \<Rightarrow> cluster_event \<Rightarrow> ('s, 'l) cluster \<Rightarrow> bool"
  for D :: "nat \<Rightarrow> ('s, 'l) dispatcher" and W :: "'l surroundings" where
  ensure: "EnsureJob (d_storage (D n)) (cl_storage c) (Some j) t = (s, r) \<Longrightarrow>
     cluster_step D W c (Ev_Ensure n) (c\<lparr>cl_storage := s\<rparr>)"
| fetch: "at_rest c n \<Longrightarrow> FetchDue (d_storage (D n)) (cl_storage c) now 64 = (s, r) \<Longrightarrow>
     st = (case r of Inl err \<Rightarrow> logging Log_Error ''fetch due jobs'' [] ((on_node c n)\<lparr>st_storage := s\<rparr>)
           | Inr due \<Rightarrow> (on_node c n)\<lparr>st_storage := s\<rparr>) \<Longrightarrow>
     cluster_step D W c (Ev_Fetch n now)
       ((put_node c n st)\<lparr>cl_pending := (cl_pending c)(n := (now, case r of Inl err \<Rightarrow> [] | Inr due \<Rightarrow> due))\<rparr>)"
| look: "cl_pending c n = (now, dj # due) \<Longrightarrow> cl_activity c n = Idle \<Longrightarrow>
     dispatch_look (D n) dj now (on_node c n) = (st, act) \<Longrightarrow>
     cluster_step D W c (Ev_Look n (dj_ID dj))
       ((put_node c n st)\<lparr>cl_pending := (cl_pending c)(n := (now, due)), cl_activity := (cl_activity c)(n := act)\<rparr>)"
| skip: "cl_activity c n = Skipping job dj t \<Longrightarrow>
     cluster_step D W c (Ev_Skip n (dj_ID dj))
       ((put_node c n (dispatch_skip (D n) dj t (on_node c n)))\<lparr>cl_activity := (cl_activity c)(n := Idle)\<rparr>)"
| claim: "cl_activity c n = Claiming job dj now t \<Longrightarrow> st = dispatch_claim (D n) job dj now t (on_node c n) \<Longrightarrow>
     cluster_step D W c (Ev_Claim n (dj_ID dj))
       ((put_node c n st)\<lparr>cl_activity := (cl_activity c)(n := Idle),
          cl_won := cl_won c @ map (\<lambda>(job, d, t). (n, d, now, t)) (spawned_since (on_node c n) st)\<rparr>)"
| replay: "cl_activity c n = Replaying job (dj # djs) a \<Longrightarrow> \<not> inline_running c n \<Longrightarrow>
     execute_begin (D n) env ctx job dj ((on_node c n)\<lparr>st_inFlight := st_inFlight (cl_nodes c n) + 1\<rparr>) = (st, hctx, attempt) \<Longrightarrow>
     cluster_step D W c (Ev_Replay n (dj_ID dj))
       ((put_node c n (st\<lparr>st_calls := st_calls st @ [(dj, hctx)]\<rparr>))
          \<lparr>cl_activity := (cl_activity c)(n := Replaying job djs a),
           cl_frames := (cl_frames c)(n := cl_frames c n @
             [\<lparr>fr_job = job, fr_dj = dj, fr_env = env, fr_ctx = hctx, fr_attempt = attempt, fr_outcome = None, fr_inline = True\<rparr>])\<rparr>)"
| advance: "cl_activity c n = Replaying job [] a \<Longrightarrow> \<not> inline_running c n \<Longrightarrow>
     cluster_step D W c (Ev_Advance n)
       ((put_node c n (replay_close (D n) a (on_node c n)))\<lparr>cl_activity := (cl_activity c)(n := Idle)\<rparr>)"
| start: "st_spawned (cl_nodes c n) = xs @ (job, dj, t) # ys \<Longrightarrow>
     execute_begin (D n) env ctx job dj (on_node c n) = (st, hctx, attempt) \<Longrightarrow>
     cluster_step D W c (Ev_Start n (dj_ID dj))
       ((put_node c n (st\<lparr>st_spawned := xs @ ys, st_calls := st_calls st @ [(dj, hctx)]\<rparr>))
          \<lparr>cl_frames := (cl_frames c)(n := cl_frames c n @
             [\<lparr>fr_job = job, fr_dj = dj, fr_env = env, fr_ctx = hctx, fr_attempt = attempt, fr_outcome = None, fr_inline = False\<rparr>]),
           cl_started := cl_started c @ [(n, dj, t)]\<rparr>)"
| settle: "cl_frames c n = fs @ f # gs \<Longrightarrow> fr_outcome f = None \<Longrightarrow>
     execute_settle (D n) (fr_env f) (fr_job f) (fr_dj f) (fr_attempt f) (frame_error f) (on_node c n) = (st, out) \<Longrightarrow>
     cluster_step D W c (Ev_Settle n (dj_ID (fr_dj f)) (exec_retried (fr_job f) (fr_attempt f) (frame_error f)))
       ((put_node c n st)\<lparr>cl_frames := (cl_frames c)(n := fs @ f\<lparr>fr_outcome := Some out\<rparr> # gs)\<rparr>)"
| recorded: "cl_frames c n = fs @ f # gs \<Longrightarrow> fr_outcome f = Some out \<Longrightarrow>
     st = execute_record (D n) (fr_env f) (fr_dj f) (fr_attempt f) (frame_error f) out (on_node c n) \<Longrightarrow>
     cluster_step D W c (Ev_Record n (dj_ID (fr_dj f)))
       ((put_node c n st)\<lparr>cl_frames := (cl_frames c)(n := fs @ gs)\<rparr>)"
| renew: "at_rest c n \<Longrightarrow>
     cluster_step D W c (Ev_Renew n) (put_node c n (maybeRenewLeader (D n) (on_node c n)))"
| stop: "at_rest c n \<Longrightarrow> l = (case d_leader (D n) of None \<Rightarrow> cl_leader c | Some L \<Rightarrow> fst (Release L (cl_leader c))) \<Longrightarrow>
     cluster_step D W c (Ev_Stop n) (c\<lparr>cl_leader := l, cl_activity := (cl_activity c)(n := Stopped)\<rparr>)"
| crash: "cluster_step D W c (Ev_Crash n) (restart_node c n (sr_crash W n (cl_leader c)))"
| leader: "sr_leader W (cl_leader c) l \<Longrightarrow> cluster_step D W c Ev_Leader (c\<lparr>cl_leader := l\<rparr>)"

inductive_cases claim_stepE: "cluster_step D W c (Ev_Claim n i) c'"

inductive_cases crash_stepE: "cluster_step D W c (Ev_Crash n) c'"

inductive cluster_run ::
  "(nat \<Rightarrow> ('s, 'l) dispatcher) \<Rightarrow> 'l surroundings \<Rightarrow> ('s, 'l) cluster \<Rightarrow> cluster_event list \<Rightarrow> ('s, 'l) cluster \<Rightarrow> bool"
  for D :: "nat \<Rightarrow> ('s, 'l) dispatcher" and W :: "'l surroundings" where
  here: "cluster_run D W c [] c"
| further: "cluster_run D W c es c1 \<Longrightarrow> cluster_step D W c1 e c2 \<Longrightarrow> cluster_run D W c (es @ [e]) c2"

text \<open>The only event that can move the row of a job back: an execution that is retried.\<close>

fun pulls_back :: "string \<Rightarrow> cluster_event \<Rightarrow> bool" where
  "pulls_back i (Ev_Settle n k retried) \<longleftrightarrow> k = i \<and> retried"
| "pulls_back i e \<longleftrightarrow> False"

definition new_cluster :: "'s \<Rightarrow> 'l \<Rightarrow> ('s, 'l) cluster" where
  "new_cluster s l =
     \<lparr>cl_storage = s, cl_leader = l, cl_nodes = (\<lambda>_. new_dstate s l), cl_pending = (\<lambda>_. (0, [])), cl_activity = (\<lambda>_. Idle), cl_frames = (\<lambda>_. []),
      cl_won = [], cl_started = []\<rparr>"

lemma new_cluster_simps [simp]:
  "cl_storage (new_cluster s l) = s" "cl_leader (new_cluster s l) = l" "cl_nodes (new_cluster s l) n = new_dstate s l"
  "cl_pending (new_cluster s l) n = (0, [])" "cl_activity (new_cluster s l) n = Idle" "cl_frames (new_cluster s l) n = []"
  "cl_won (new_cluster s l) = []" "cl_started (new_cluster s l) = []" "at_rest (new_cluster s l) n"
  by (simp_all add: new_cluster_def at_rest_def)

text \<open>An invariant of the steps whose labels satisfy \<open>Q\<close> is an invariant of the runs.\<close>

lemma cluster_run_invariant:
  assumes "\<And>c e c'. cluster_step D W c e c' \<Longrightarrow> P c \<Longrightarrow> Q e \<Longrightarrow> P c'" "cluster_run D W c es c'" "P c" "list_all Q es"
  shows "P c'"
  using assms(2-4) by (induction rule: cluster_run.induct) (auto intro: assms(1))

lemma cluster_run_one: "cluster_step D W c e c' \<Longrightarrow> cluster_run D W c [e] c'"
  using cluster_run.further [OF cluster_run.here] by fastforce

lemma cluster_run_trans:
  assumes "cluster_run D W b fs c" "cluster_run D W a es b"
  shows "cluster_run D W a (es @ fs) c"
  using assms
proof (induction rule: cluster_run.induct)
  case (further c fs c1 e c2)
  then show ?case using cluster_run.further [of D W a "es @ fs" c1 e c2] by simp
qed simp

section \<open>Frame lemmas\<close>

lemma node_frame [simp]:
  "st_storage (on_node c n) = cl_storage c" "st_spawned (on_node c n) = st_spawned (cl_nodes c n)"
  "st_attempts (on_node c n) = st_attempts (cl_nodes c n)" "st_calls (on_node c n) = st_calls (cl_nodes c n)"
  "st_leader (on_node c n) = cl_leader c" "st_inFlight (on_node c n) = st_inFlight (cl_nodes c n)"
  "cl_storage (put_node c n st) = st_storage st" "cl_leader (put_node c n st) = st_leader st"
  "cl_nodes (put_node c n st) = (cl_nodes c)(n := st)"
  "cl_won (put_node c n st) = cl_won c" "cl_started (put_node c n st) = cl_started c"
  "cl_pending (put_node c n st) = cl_pending c" "cl_activity (put_node c n st) = cl_activity c"
  "cl_frames (put_node c n st) = cl_frames c"
  by (simp_all add: on_node_def put_node_def)

lemma restart_frame [simp]:
  "cl_storage (restart_node c n l) = cl_storage c" "cl_leader (restart_node c n l) = l"
  "cl_won (restart_node c n l) = cl_won c" "cl_started (restart_node c n l) = cl_started c"
  "cl_activity (restart_node c n l) = (cl_activity c)(n := Idle)" "cl_pending (restart_node c n l) = (cl_pending c)(n := (0, []))"
  "st_spawned (cl_nodes (restart_node c n l) k) = (if k = n then [] else st_spawned (cl_nodes c k))"
  by (simp_all add: restart_node_def new_dstate_def)

lemma claim_spawned_since [simp]:
  "spawned_since (on_node c n) (dispatch_claim D job dj now t (on_node c n)) =
     (if snd (ClaimJob (d_storage D) (cl_storage c) (dj_ID dj) t) = Inr True then [(job, dj, t)] else [])"
  by (simp add: spawned_since_def)

text \<open>The wins of one job, as targets the backend keeps.\<close>

definition won_targets :: "(gotime \<Rightarrow> gotime) \<Rightarrow> string \<Rightarrow> (nat \<times> DueJob \<times> gotime \<times> gotime) list \<Rightarrow> gotime list" where
  "won_targets ts i ws = map (\<lambda>(n, d, now, t). ts t) (filter (\<lambda>(n, d, now, t). dj_ID d = i) ws)"

lemma won_targets_simps [simp]:
  "won_targets ts i [] = []" "won_targets ts i (ws @ vs) = won_targets ts i ws @ won_targets ts i vs"
  "won_targets ts i [(n, d, now, t)] = (if dj_ID d = i then [ts t] else [])"
  by (simp_all add: won_targets_def)

section \<open>Claims increase\<close>

context storage_contract begin

text \<open>What the wins of a job, after the first \<open>k\<close> ones of the cluster, say about its row and about each other.\<close>

definition wins_ordered :: "string \<Rightarrow> nat \<Rightarrow> ('s, 'l) cluster \<Rightarrow> bool" where
  "wins_ordered i k c \<longleftrightarrow>
     inv (cl_storage c) \<and> k \<le> length (cl_won c) \<and> sorted_wrt (<) (won_targets ts i (drop k (cl_won c))) \<and>
     (\<forall>t \<in> set (won_targets ts i (drop k (cl_won c))). \<exists>r. table (cl_storage c) i = Some r \<and> t \<le> row_NextFire r)"

lemma wins_ordered_forward:
  assumes "wins_ordered i k c" "inv (cl_storage c')" "fire_forward i (table (cl_storage c)) (table (cl_storage c'))"
    and "cl_won c' = cl_won c"
  shows "wins_ordered i k c'"
  using assms unfolding wins_ordered_def fire_forward_def by (metis order_trans)

lemma wins_ordered_call:
  assumes "wins_ordered i k c" "cl_storage c' = storage_step S call (cl_storage c)" "\<not> retries_job i call" "cl_won c' = cl_won c"
  shows "wins_ordered i k c'"
proof -
  have "inv (cl_storage c)" using assms(1) by (simp add: wins_ordered_def)
  from step_keeps(1) [OF this, of call] step_keeps(3) [OF this, of i call] assms(2-4) show ?thesis
    by (intro wins_ordered_forward [OF assms(1)]) simp_all
qed

lemma settle_forward:
  assumes "d_storage D = S" "inv (st_storage st)" "dj_ID dj \<noteq> i \<or> \<not> exec_retried job n err"
  shows "inv (st_storage (fst (execute_settle D env job dj n err st))) \<and>
    fire_forward i (table (st_storage st)) (table (st_storage (fst (execute_settle D env job dj n err st))))"
  using step_keeps(1) [OF assms(2), of "Call_ScheduleRetry (dj_ID dj) (exec_retryAt D env job n)"]
    step_keeps(3) [OF assms(2), of i "Call_ScheduleRetry (dj_ID dj) (exec_retryAt D env job n)"] assms
  by auto

lemma wins_ordered_claim:
  assumes "wins_ordered i k c" "cl_storage c' = fst (ClaimJob S (cl_storage c) (dj_ID dj) t)"
    and "cl_won c' = cl_won c @ (if snd (ClaimJob S (cl_storage c) (dj_ID dj) t) = Inr True then [(n, dj, now, t)] else [])"
  shows "wins_ordered i k c'"
proof (cases "snd (ClaimJob S (cl_storage c) (dj_ID dj) t) = Inr True \<and> dj_ID dj = i")
  case False
  then have "won_targets ts i (drop k (cl_won c')) = won_targets ts i (drop k (cl_won c))"
    using assms(1,3) by (auto simp: wins_ordered_def)
  moreover have "wins_ordered i k (c'\<lparr>cl_won := cl_won c\<rparr>)"
    by (rule wins_ordered_call [OF assms(1), of _ "Call_ClaimJob (dj_ID dj) t"]) (simp_all add: assms(2))
  ultimately show ?thesis using assms(3) by (simp add: wins_ordered_def)
next
  case True
  have inv: "inv (cl_storage c)" using assms(1) by (simp add: wins_ordered_def)
  obtain s where claim: "ClaimJob S (cl_storage c) (dj_ID dj) t = (s, Inr True)" using True by (metis prod.collapse)
  have "claimable (table (cl_storage c)) i (ts t)" "table s = advance (table (cl_storage c)) i (ts t)"
    using claim_law [OF inv claim] True by auto
  then obtain r where r: "table (cl_storage c) i = Some r" "row_NextFire r < ts t"
    "table (cl_storage c') i = Some (r\<lparr>row_NextFire := ts t\<rparr>)"
    using claim assms(2) by (auto simp: claimable_def advance_def split: option.splits if_splits)
  have "x < ts t" if "x \<in> set (won_targets ts i (drop k (cl_won c)))" for x
    using that assms(1) r(1,2) by (fastforce simp: wins_ordered_def)
  moreover have "inv (cl_storage c')" using step_keeps(1) [OF inv, of "Call_ClaimJob (dj_ID dj) t"] assms(2) by simp
  ultimately show ?thesis
    using assms(1,3) True r(3) by (auto simp: wins_ordered_def sorted_wrt_append less_imp_le)
qed

lemma wins_ordered_step:
  assumes "\<And>n. d_storage (D n) = S" "cluster_step D W c e c'" "wins_ordered i k c" "\<not> pulls_back i e"
  shows "wins_ordered i k c'"
  using assms(2)
proof (cases rule: cluster_step.cases)
  case (ensure n j t s r)
  then show ?thesis
    using wins_ordered_call [OF assms(3), of c' "Call_EnsureJob (Some j) t"] assms(1) by simp
next
  case (fetch n now s r st)
  then have "st_storage st = fst (FetchDue S (cl_storage c) now 64)" using assms(1) by (auto split: sum.splits)
  with fetch(2) show ?thesis
    using wins_ordered_call [OF assms(3), of c' "Call_FetchDue now 64"] by simp
next
  case (look n now dj due st act)
  then have "st_storage st = cl_storage c" using dispatch_look_frame(1) [of "D n" dj now "on_node c n"] by simp
  with look(2) show ?thesis by (intro wins_ordered_forward [OF assms(3)]) (use assms(3) in \<open>simp_all add: wins_ordered_def\<close>)
next
  case (skip n job dj t)
  then show ?thesis
    using wins_ordered_call [OF assms(3), of c' "Call_ClaimJob (dj_ID dj) t"] assms(1) by simp
next
  case (claim n job dj now t st)
  then show ?thesis by (intro wins_ordered_claim [OF assms(3), of c' dj t n now]) (simp_all add: assms(1))
next
  case (replay n job dj djs a env ctx st hctx attempt)
  then have "st_storage st = cl_storage c"
    using execute_begin_frame(2) [of "D n" env ctx job dj "(on_node c n)\<lparr>st_inFlight := st_inFlight (cl_nodes c n) + 1\<rparr>"] by simp
  with replay(2) show ?thesis by (intro wins_ordered_forward [OF assms(3)]) (use assms(3) in \<open>simp_all add: wins_ordered_def\<close>)
next
  case (advance n job a)
  show ?thesis
  proof (cases a)
    case None
    with advance show ?thesis by (intro wins_ordered_forward [OF assms(3)]) (use assms(3) in \<open>simp_all add: wins_ordered_def\<close>)
  next
    case (Some x)
    then show ?thesis
      using wins_ordered_call [OF assms(3), of c' "Call_ClaimJob (dj_ID (fst x)) (snd x)"] advance(2) assms(1) by (cases x) simp
  qed
next
  case (start n xs job dj t ys env ctx st hctx attempt)
  then have "st_storage st = cl_storage c"
    using execute_begin_frame(2) [of "D n" env ctx job dj "on_node c n"] by simp
  with start(2) assms(3) show ?thesis by (intro wins_ordered_forward [OF assms(3)]) (simp_all add: wins_ordered_def)
next
  case (settle n fs f gs st out)
  have inv: "inv (st_storage (on_node c n))" using assms(3) by (simp add: wins_ordered_def)
  have "st = fst (execute_settle (D n) (fr_env f) (fr_job f) (fr_dj f) (fr_attempt f) (frame_error f) (on_node c n))"
    using settle(5) by simp
  with settle_forward [OF assms(1) inv, of "fr_dj f" i "fr_job f" "fr_attempt f" "frame_error f" n "fr_env f"] settle(1,2) assms(4)
  show ?thesis by (intro wins_ordered_forward [OF assms(3)]) auto
next
  case (recorded n fs f gs out st)
  have "\<exists>now run. st_storage st = fst (RecordRun S (cl_storage c) now run)"
    using recorded(5) assms(1) by (auto simp: execute_record_def Let_def case_prod_beta)
  then obtain now run where "st_storage st = storage_step S (Call_RecordRun now run) (cl_storage c)" by auto
  with recorded(2) show ?thesis
    using wins_ordered_call [OF assms(3), of c' "Call_RecordRun now run"] by simp
qed (use assms(3) in \<open>simp_all add: wins_ordered_def\<close>)

lemma wins_ordered_now: "inv (cl_storage c) \<Longrightarrow> wins_ordered i (length (cl_won c)) c"
  by (simp add: wins_ordered_def)

text \<open>The storage keeps its invariant; the job of the order is any one that the step does not retry.\<close>

lemma cluster_storage_inv:
  assumes "cluster_run D W (new_cluster s l) es c" "\<And>n. d_storage (D n) = S" "inv s"
  shows "inv (cl_storage c)"
proof (rule cluster_run_invariant [where P = "\<lambda>c. inv (cl_storage c)" and Q = "\<lambda>_. True", OF _ assms(1)])
  show "inv (cl_storage c2)" if "cluster_step D W c1 e c2" "inv (cl_storage c1)" for c1 e c2
  proof -
    have "\<exists>i. \<not> pulls_back i e" by (cases e) (auto intro: exI [of _ "x @ ''x''" for x])
    then obtain i where "\<not> pulls_back i e" by blast
    from wins_ordered_step [OF assms(2) that(1) wins_ordered_now [OF that(2)] this] show ?thesis by (simp add: wins_ordered_def)
  qed
qed (simp_all add: assms(3) new_cluster_def list_all_iff)

lemma wins_increase:
  assumes "cluster_run D W (new_cluster s l) es c" "cluster_run D W c es' c'" "\<And>n. d_storage (D n) = S" "inv s"
    and "list_all (\<lambda>e. \<not> pulls_back i e) es'"
  shows "sorted_wrt (<) (won_targets ts i (drop (length (cl_won c)) (cl_won c')))"
proof -
  have "wins_ordered i (length (cl_won c)) c'"
    by (rule cluster_run_invariant [where P = "wins_ordered i (length (cl_won c))", OF wins_ordered_step [OF assms(3)] assms(2)
          wins_ordered_now [OF cluster_storage_inv [OF assms(1,3,4)]] assms(5)])
  then show ?thesis by (simp add: wins_ordered_def)
qed

end

text \<open>Two fires of a schedule with slots: the later one was computed in a later slot.\<close>

context slotted_sequence begin

lemma slots_apart:
  assumes "schedule_Next s a < schedule_Next s b" "schedule_Next s a \<noteq> zero_time" "schedule_Next s b \<noteq> zero_time"
  shows "schedule_Next s a \<le> b"
proof (rule ccontr)
  assume "\<not> ?thesis"
  then have b: "b < schedule_Next s a" by simp
  show False
  proof (cases "a \<le> b")
    case True
    from next_first [OF this b] assms(1) show False by simp
  next
    case False
    have "a < schedule_Next s b" using next_later [of a] assms(1,2) by auto
    with next_first [of b a] False assms(1) show False by simp
  qed
qed

end

section \<open>What is won and what is started\<close>

lemma cluster_step_won:
  assumes "cluster_step D W c e c'"
  obtains (same) "cl_won c' = cl_won c"
  | (won) n job dj now t where "e = Ev_Claim n (dj_ID dj)" "cl_activity c n = Claiming job dj now t"
      "cl_won c' = cl_won c @ [(n, dj, now, t)]"
  using assms
proof (cases rule: cluster_step.cases)
  case (claim n job dj now t st)
  show ?thesis
  proof (cases "snd (ClaimJob (d_storage (D n)) (cl_storage c) (dj_ID dj) t) = Inr True")
    case True
    with claim show ?thesis by (intro won [of n dj job now t]) simp_all
  next
    case False
    with claim show ?thesis by (intro same) simp
  qed
qed (auto intro: same)

lemma cluster_run_won: "cluster_run D W c es c' \<Longrightarrow> \<exists>new. cl_won c' = cl_won c @ new"
  by (induction rule: cluster_run.induct) (auto elim: cluster_step_won)

text \<open>A node that is about to claim computed the target itself, at the instant of its tick.\<close>

definition claims_computed :: "(nat \<Rightarrow> ('s, 'l) dispatcher) \<Rightarrow> ('s, 'l) cluster \<Rightarrow> bool" where
  "claims_computed D c \<longleftrightarrow>
     (\<forall>n job dj now t. cl_activity c n = Claiming job dj now t \<longrightarrow> computeNextFire (d_cron (D n)) dj now = Inr t \<and> t \<noteq> zero_time) \<and>
     (\<forall>(n, dj, now, t) \<in> set (cl_won c). computeNextFire (d_cron (D n)) dj now = Inr t \<and> t \<noteq> zero_time)"

lemma cluster_step_activity:
  assumes "cluster_step D W c e c'"
  obtains (idle) "\<And>n. cl_activity c' n = cl_activity c n \<or> cl_activity c' n = Idle \<or> cl_activity c' n = Stopped"
  | (looked) n now dj due st act where "cl_pending c n = (now, dj # due)" "cl_activity c n = Idle"
      "dispatch_look (D n) dj now (on_node c n) = (st, act)" "cl_activity c' = (cl_activity c)(n := act)"
      "cl_leader c' = cl_leader c"
  | (replayed) n job dj djs a where "cl_activity c n = Replaying job (dj # djs) a"
      "cl_activity c' = (cl_activity c)(n := Replaying job djs a)"
  using assms
proof (cases rule: cluster_step.cases)
  case (look n now dj due st act)
  then show ?thesis using dispatch_look_frame(2) [of "D n" dj now "on_node c n"] by (intro looked [of n now dj due st act]) simp_all
next
  case (replay n job dj djs a env ctx st hctx attempt)
  then show ?thesis by (intro replayed [of n job dj djs a]) simp_all
qed (auto intro: idle)

lemma claims_computed_step:
  assumes "cluster_step D W c e c'" "claims_computed D c"
  shows "claims_computed D c'"
proof -
  have "computeNextFire (d_cron (D n)) dj now = Inr t \<and> t \<noteq> zero_time" if "cl_activity c' n = Claiming job dj now t" for n job dj now t
    using assms(1)
  proof (cases rule: cluster_step_activity)
    case idle
    with that assms(2) show ?thesis unfolding claims_computed_def by (metis activity.distinct)
  next
    case (looked m now' dj' due st act)
    show ?thesis
    proof (cases "m = n")
      case True
      then have "decide (D n) (on_node c n) dj now = Claim job t"
        using looked(3,4) that dispatch_look_decides(1) [of "D n" dj' now' "on_node c n" job dj now t] by simp
      from decide_branches(3) [OF this] show ?thesis by blast
    next
      case False
      with looked that assms(2) show ?thesis by (auto simp: claims_computed_def)
    qed
  next
    case (replayed m job' dj' djs a)
    with that assms(2) show ?thesis by (auto simp: claims_computed_def split: if_splits)
  qed
  moreover have "computeNextFire (d_cron (D n)) dj now = Inr t \<and> t \<noteq> zero_time" if "(n, dj, now, t) \<in> set (cl_won c')" for n dj now t
    using assms(1) by (cases rule: cluster_step_won) (use that assms(2) in \<open>fastforce simp: claims_computed_def\<close>)+
  ultimately show ?thesis unfolding claims_computed_def by blast
qed

lemma won_computed:
  assumes "cluster_run D W (new_cluster s l) es c" "(n, d, now, t) \<in> set (cl_won c)"
  shows "computeNextFire (d_cron (D n)) d now = Inr t \<and> t \<noteq> zero_time"
proof -
  have "claims_computed D c"
    by (rule cluster_run_invariant [where P = "claims_computed D" and Q = "\<lambda>_. True", OF claims_computed_step assms(1)])
      (simp_all add: claims_computed_def new_cluster_def list_all_iff)
  with assms(2) show ?thesis by (auto simp: claims_computed_def)
qed

text \<open>
  Every goroutine that waits or has called its handler won a claim of its own: \<open>base\<close> counts the ones there were when
  the cluster had seen \<open>k\<close> wins.
\<close>

definition begun :: "('s, 'l) cluster \<Rightarrow> nat \<times> DueJob \<times> gotime \<Rightarrow> nat" where
  "begun c = (\<lambda>(n, d, t). count_list (cl_started c) (n, d, t) + count_list (map snd (st_spawned (cl_nodes c n))) (d, t))"

abbreviation claims_of :: "(nat \<times> DueJob \<times> gotime \<times> gotime) list \<Rightarrow> (nat \<times> DueJob \<times> gotime) list" where
  "claims_of ws \<equiv> map (\<lambda>(n, d, now, t). (n, d, t)) ws"

definition starts_won :: "(nat \<times> DueJob \<times> gotime \<Rightarrow> nat) \<Rightarrow> nat \<Rightarrow> ('s, 'l) cluster \<Rightarrow> bool" where
  "starts_won base k c \<longleftrightarrow> k \<le> length (cl_won c) \<and> (\<forall>x. begun c x \<le> base x + count_list (claims_of (drop k (cl_won c))) x)"

lemma starts_won_mono:
  assumes "starts_won base k c" "\<And>x. begun c' x \<le> begun c x" "cl_won c' = cl_won c"
  shows "starts_won base k c'"
  using assms(1,3) order_trans [OF assms(2)] unfolding starts_won_def by simp

lemma starts_won_keep:
  assumes "starts_won base k c" "cl_started c' = cl_started c" "cl_won c' = cl_won c"
    and "\<And>n. st_spawned (cl_nodes c' n) = st_spawned (cl_nodes c n) \<or> st_spawned (cl_nodes c' n) = []"
  shows "starts_won base k c'"
proof -
  have "begun c' x \<le> begun c x" for x using assms(2) assms(4) [of "fst x"] by (auto simp: begun_def split: prod.splits)
  from starts_won_mono [OF assms(1) this assms(3)] show ?thesis .
qed

lemma starts_won_step:
  assumes "cluster_step D W c e c'" "starts_won base k c"
  shows "starts_won base k c'"
  using assms(1)
proof (cases rule: cluster_step.cases)
  case (fetch n now s r st)
  then show ?thesis by (intro starts_won_keep [OF assms(2)]) (auto split: sum.splits)
next
  case (look n now dj due st act)
  then have "st_spawned st = st_spawned (cl_nodes c n)" using dispatch_look_frame(3) [of "D n" dj now "on_node c n"] by simp
  with look(2) show ?thesis by (intro starts_won_keep [OF assms(2)]) auto
next
  case (claim n job dj now t st)
  have "begun c' (m, d, u) \<le> base (m, d, u) + count_list (claims_of (drop k (cl_won c'))) (m, d, u)" for m d u
    using assms(2) [unfolded starts_won_def, THEN conjunct2, rule_format, of "(m, d, u)"] assms(2) claim
    by (auto simp: begun_def starts_won_def)
  with assms(2) claim show ?thesis by (simp add: starts_won_def)
next
  case (replay n job dj djs a env ctx st hctx attempt)
  then have "st_spawned st = st_spawned (cl_nodes c n)"
    using execute_begin_frame(6) [of "D n" env ctx job dj "(on_node c n)\<lparr>st_inFlight := st_inFlight (cl_nodes c n) + 1\<rparr>"] by simp
  with replay(2) show ?thesis by (intro starts_won_keep [OF assms(2)]) auto
next
  case (start n xs job dj t ys env ctx st hctx attempt)
  have "begun c' x \<le> begun c x" for x using start(2,3) by (auto simp: begun_def split: prod.splits)
  from starts_won_mono [OF assms(2) this] start(2) show ?thesis by simp
next
  case (settle n fs f gs st out)
  then have "st_spawned st = st_spawned (cl_nodes c n)"
    using execute_settle_frame(6) [of "D n" "fr_env f" "fr_job f" "fr_dj f" "fr_attempt f" "frame_error f" "on_node c n"] by simp
  with settle(2) show ?thesis by (intro starts_won_keep [OF assms(2)]) auto
next
  case (crash n)
  then show ?thesis by (intro starts_won_keep [OF assms(2)]) auto
qed (intro starts_won_keep [OF assms(2)]; auto)+

lemma cluster_run_started: "cluster_run D W c es c' \<Longrightarrow> \<exists>new. cl_started c' = cl_started c @ new"
proof (induction rule: cluster_run.induct)
  case (further c es c1 e c2)
  from further(2) have "\<exists>new. cl_started c2 = cl_started c1 @ new" by (cases rule: cluster_step.cases) simp_all
  with further(3) show ?case by auto
qed simp

lemma starts_since:
  assumes "cluster_run D W c es c'"
  shows "begun c' x \<le> begun c x + count_list (claims_of (drop (length (cl_won c)) (cl_won c'))) x"
proof -
  have "starts_won (begun c) (length (cl_won c)) c'"
    by (rule cluster_run_invariant [where P = "starts_won (begun c) (length (cl_won c))" and Q = "\<lambda>_. True", OF starts_won_step assms])
      (simp_all add: starts_won_def list_all_iff)
  then show ?thesis unfolding starts_won_def by blast
qed

lemma begun_new [simp]: "begun (new_cluster s l) x = 0"
  by (auto simp: begun_def new_cluster_def new_dstate_def split: prod.splits)

lemma started_begun: "count_list (cl_started c) x \<le> begun c x"
  by (cases x) (simp add: begun_def)

section \<open>The leader state of a cluster on one server\<close>

definition pg_surroundings :: "lock_server surroundings" where
  "pg_surroundings =
     \<lparr>sr_crash = ls_crash, sr_leader = (\<lambda>w w'. \<exists>s. s \<notin> set (ls_acquired w) \<and> w' = ls_close s w)\<rparr>"

text \<open>The steps that change the leader state.\<close>

lemma cluster_step_leader_cases:
  assumes "cluster_step D W c e c'" "\<And>n. d_leader (D n) = Some (L n)"
  obtains (same) "cl_leader c' = cl_leader c"
  | (renew) n k r where "at_rest c n" "TryAcquire (L n) (cl_leader c) k = (cl_leader c', r)" "cl_activity c' = cl_activity c"
  | (stop) n x where "at_rest c n" "Release (L n) (cl_leader c) = (cl_leader c', x)" "cl_activity c' n = Stopped"
  | (crash) n where "cl_leader c' = sr_crash W n (cl_leader c)" "cl_activity c' n = Idle"
  | (leader) "sr_leader W (cl_leader c) (cl_leader c')"
  using assms(1)
proof (cases rule: cluster_step.cases)
  case (fetch n now s r st)
  then show ?thesis by (intro same) (auto split: sum.splits)
next
  case (look n now dj due st act)
  then show ?thesis using dispatch_look_frame(2) [of "D n" dj now "on_node c n"] by (intro same) simp
next
  case (replay n job dj djs a env ctx st hctx attempt)
  then show ?thesis
    using execute_begin_frame(3) [of "D n" env ctx job dj "(on_node c n)\<lparr>st_inFlight := st_inFlight (cl_nodes c n) + 1\<rparr>"]
    by (intro same) simp
next
  case (start n xs job dj t ys env ctx st hctx attempt)
  then show ?thesis using execute_begin_frame(3) [of "D n" env ctx job dj "on_node c n"] by (intro same) simp
next
  case (settle n fs f gs st out)
  then show ?thesis
    using execute_settle_frame(4) [of "D n" "fr_env f" "fr_job f" "fr_dj f" "fr_attempt f" "frame_error f" "on_node c n"]
    by (intro same) simp
next
  case (renew n)
  obtain l r where a: "TryAcquire (L n) (cl_leader c) (NodeID (node_opts (D n))) = (l, r)" by fastforce
  then have "cl_leader c' = l"
    using renew assms(2) by (auto simp: maybeRenewLeader_def Let_def split: sum.splits)
  with a renew show ?thesis by (intro that(2) [of n "NodeID (node_opts (D n))" r]) simp_all
next
  case (stop n l)
  with assms(2) show ?thesis by (intro that(3) [of n "snd (Release (L n) (cl_leader c))"]) simp_all
next
  case (crash n)
  then show ?thesis by (intro that(4) [of n]) simp_all
next
  case (leader l)
  then show ?thesis by (intro that(5)) simp
qed (auto intro: same)

lemma cluster_step_leader:
  assumes "cluster_step D pg_surroundings c e c'" "\<And>n. d_leader (D n) = Some (PostgresLeader_ops n)"
  shows "cl_leader c' = cl_leader c \<or> leader_step (cl_leader c) (cl_leader c')"
  using assms
proof (cases rule: cluster_step_leader_cases)
  case (crash n)
  then show ?thesis using leader_step.crash [of "cl_leader c" n] by (simp add: pg_surroundings_def)
next
  case leader
  then show ?thesis using leader_step.close by (auto simp: pg_surroundings_def)
qed (blast intro: leader_step.acquire leader_step.release)+

lemma cluster_leader_reachable:
  assumes "cluster_run D pg_surroundings (new_cluster s (ls_init answers)) es c" "\<And>n. d_leader (D n) = Some (PostgresLeader_ops n)"
  shows "leader_reachable (cl_leader c)"
  by (rule cluster_run_invariant [where P = "\<lambda>c. leader_reachable (cl_leader c)" and Q = "\<lambda>_. True", OF _ assms(1)])
    (use cluster_step_leader [OF _ assms(2)] leader_reachable.start leader_reachable.more
      in \<open>fastforce simp: new_cluster_def list_all_iff\<close>)+

text \<open>What only a leader does: to skip or claim a leader-only job, and to replay a window.\<close>

fun works_as_leader :: "activity \<Rightarrow> bool" where
  "works_as_leader (Skipping job dj t) \<longleftrightarrow> LeaderOnly (job_Options job)"
| "works_as_leader (Claiming job dj now t) \<longleftrightarrow> LeaderOnly (job_Options job)"
| "works_as_leader (Replaying job djs a) \<longleftrightarrow> True"
| "works_as_leader Idle \<longleftrightarrow> False"
| "works_as_leader Stopped \<longleftrightarrow> False"

lemma look_leads:
  assumes "dispatch_look D dj now st = (st', act)" "works_as_leader act"
  shows "\<not> follower D st"
proof (cases act)
  case (Skipping job dj' t)
  then have "decide D st dj now = Skip_to t" "lookup (d_scheduler D) (dj_Name dj) = Some job"
    using dispatch_look_decides(2) [of D dj now st job dj' t] assms(1) by simp_all
  with decide_branches(1) Skipping assms(2) show ?thesis by fastforce
next
  case (Claiming job dj' now' t)
  then have "decide D st dj now = Claim job t" using dispatch_look_decides(1) [of D dj now st job dj' now' t] assms(1) by simp
  with decide_branches(3) Claiming assms(2) show ?thesis by fastforce
next
  case (Replaying job djs a)
  then have "decide D st dj now = Replay job" using dispatch_look_decides(3) [of D dj now st job djs a] assms(1) by simp
  with decide_branches(2) show ?thesis by blast
qed (use assms(2) in simp_all)

text \<open>A node gives up its role only by a step of its own, at rest, or with its process.\<close>

lemma pl_others:
  "TryAcquire (PostgresLeader_ops m) w k = (w', r) \<Longrightarrow> n \<noteq> m \<Longrightarrow> ls_leaders w' n = ls_leaders w n"
  "Release (PostgresLeader_ops m) w = (w', x) \<Longrightarrow> n \<noteq> m \<Longrightarrow> ls_leaders w' n = ls_leaders w n"
  by (auto simp: PostgresLeader_ops_def ls_put_def split: prod.splits if_splits)

lemma cluster_step_keeps_role:
  assumes "cluster_step D pg_surroundings c e c'" "\<And>n. d_leader (D n) = Some (PostgresLeader_ops n)"
    and "pl_held (ls_leaders (cl_leader c) n)"
  shows "pl_held (ls_leaders (cl_leader c') n) \<or> \<not> works_as_leader (cl_activity c' n)"
  using assms(1,2)
proof (cases rule: cluster_step_leader_cases)
  case (renew m k r)
  with assms(3) pl_others(1) [OF renew(2), of n] show ?thesis by (cases "m = n") (simp_all add: at_rest_def)
next
  case (stop m x)
  with assms(3) pl_others(2) [OF stop(2), of n] show ?thesis by (cases "m = n") (simp_all add: at_rest_def)
next
  case (crash m)
  with assms(3) show ?thesis
    by (cases "m = n") (auto simp: pg_surroundings_def ls_crash_def ls_close_def Let_def split: option.splits)
next
  case leader
  with assms(3) show ?thesis by (auto simp: pg_surroundings_def ls_close_def)
qed (use assms(3) in simp)

definition workers_lead :: "('s, lock_server) cluster \<Rightarrow> bool" where
  "workers_lead c \<longleftrightarrow> (\<forall>n. works_as_leader (cl_activity c n) \<longrightarrow> pl_held (ls_leaders (cl_leader c) n))"

lemma workers_lead_step:
  assumes "cluster_step D pg_surroundings c e c'" "\<And>n. d_leader (D n) = Some (PostgresLeader_ops n)" "workers_lead c"
  shows "workers_lead c'"
  unfolding workers_lead_def
proof (intro allI impI)
  fix n
  assume w: "works_as_leader (cl_activity c' n)"
  have kept: "pl_held (ls_leaders (cl_leader c') n)" if "works_as_leader (cl_activity c n)"
    using cluster_step_keeps_role [OF assms(1,2), of n] assms(3) that w by (auto simp: workers_lead_def)
  from assms(1) show "pl_held (ls_leaders (cl_leader c') n)"
  proof (cases rule: cluster_step_activity)
    case idle
    then show ?thesis using kept w by (metis works_as_leader.simps(4,5))
  next
    case (looked m now dj due st act)
    show ?thesis
    proof (cases "m = n")
      case True
      then have "\<not> follower (D n) (on_node c n)" using look_leads [OF looked(3)] looked(4) w by simp
      then show ?thesis using assms(2) looked(5) by (simp add: follower_def PostgresLeader_ops_def pl_IsLeader_def)
    next
      case False
      then show ?thesis using kept w looked(4) by simp
    qed
  next
    case (replayed m job dj djs a)
    then show ?thesis using kept w by (cases "m = n") simp_all
  qed
qed

lemma cluster_workers_lead:
  assumes "cluster_run D pg_surroundings (new_cluster s l) es c" "\<And>n. d_leader (D n) = Some (PostgresLeader_ops n)"
  shows "workers_lead c"
  by (rule cluster_run_invariant [where P = workers_lead and Q = "\<lambda>_. True", OF workers_lead_step [OF _ assms(2)] assms(1)])
    (simp_all add: workers_lead_def new_cluster_def list_all_iff)

end
