(* ===== verification/Cluster_Properties.thy ===== *)
theory Cluster_Properties
  imports Sundial_Cluster
begin

text \<open>
  The properties of a cluster on Postgres. The first section is a race of two nodes over one row, from
  which the witnesses and the counterexample are built.
\<close>

section \<open>A race of two nodes\<close>

definition race_job :: "Schedule \<Rightarrow> bool \<Rightarrow> Job" where
  "race_job s leader_only =
     \<lparr>job_Name = ''j'', job_Schedule = s, job_Handler = (\<lambda>_. Returns None),
      job_Options = (withDefaults zero_JobOptions)\<lparr>LeaderOnly := leader_only\<rparr>\<rparr>"

definition race_D :: "cron_parser \<Rightarrow> Schedule \<Rightarrow> bool \<Rightarrow> 'l Leader option \<Rightarrow> (PgDB, 'l) dispatcher" where
  "race_D parse s leader_only L =
     \<lparr>d_scheduler = empty_scheduler\<lparr>sc_jobs := [(''j'', race_job s leader_only)]\<rparr>, d_storage = PostgresStorage_ops pg_timestamptz,
      d_leader = L, d_telemetry = newTelemetry None, d_cron = parse, d_oor = (\<lambda>x. 0)\<rparr>"

definition race_db :: "Schedule \<Rightarrow> nat \<Rightarrow> gotime \<Rightarrow> PgDB" where
  "race_db s k t =
     \<lparr>db_jobs = [(''id-1'', \<lparr>pr_name = ''j'', pr_schedule = schedule_String s, pr_kind = schedule_Kind s, pr_next = t\<rparr>)],
      db_runs = [], db_answers = (\<lambda>n. demo_answer), db_trips = k\<rparr>"

definition race_due :: "Schedule \<Rightarrow> gotime \<Rightarrow> DueJob" where
  "race_due s t = stored_due ''id-1'' ''j'' t s"

lemma race_fields [simp]:
  "d_storage (race_D parse s lo L) = PostgresStorage_ops pg_timestamptz" "d_leader (race_D parse s lo L) = L"
  "d_cron (race_D parse s lo L) = parse" "dj_ID (race_due s t) = ''id-1''" "dj_Name (race_due s t) = ''j''"
  "lookup (d_scheduler (race_D parse s lo L)) ''j'' = Some (race_job s lo)"
  "LeaderOnly (job_Options (race_job s lo)) = lo" "MissedFire (job_Options (race_job s lo)) = MissedFireRunOnce"
  by (simp_all add: race_D_def race_due_def stored_due_def lookup_def race_job_def withDefaults_def zero_JobOptions_def
      missed_fire_policies)

lemma race_inv: "pg_inv (race_db s k t)"
  by (simp add: pg_inv_def race_db_def demo_answer_def)

lemma race_fetch:
  "t \<le> pg_timestamptz now \<Longrightarrow>
     pg_FetchDue pg_timestamptz (race_db s k t) now 64 = (race_db s (Suc k) t, Inr [race_due s t])"
  by (simp add: pg_FetchDue_def pg_trip_def race_db_def demo_answer_def pg_select_due_def pg_due_def race_due_def stored_due_def)

lemma race_claim:
  "t < pg_timestamptz u \<Longrightarrow>
     pg_ClaimJob pg_timestamptz (race_db s k t) ''id-1'' u = (race_db s (k + 4) (pg_timestamptz u), Inr True)"
  by (simp add: pg_ClaimJob_def pg_trip_def race_db_def demo_answer_def pg_update_def numeral_eq_Suc)

lemma race_decide:
  assumes "loadScheduleFromDue parse (race_due s t) = Inr s" "schedule_Next s now \<noteq> zero_time"
    and "\<not> (lo \<and> follower (race_D parse s lo L) st)"
  shows "decide (race_D parse s lo L) st (race_due s t) now = Claim (race_job s lo) (schedule_Next s now)"
  using assms computeNextFire_load_Inr [OF assms(1), of now] by (intro decide_ClaimI) auto

lemma race_fetch_step:
  assumes "cl_storage c = race_db s k t" "at_rest c n" "t \<le> pg_timestamptz now"
    and "D n = race_D parse s lo L"
  obtains c' where "cluster_step D W c (Ev_Fetch n now) c'" "cl_storage c' = race_db s (Suc k) t"
    "cl_pending c' = (cl_pending c)(n := (now, [race_due s t]))" "cl_activity c' = cl_activity c" "cl_won c' = cl_won c"
    "cl_leader c' = cl_leader c" "cl_started c' = cl_started c" "\<And>m. st_spawned (cl_nodes c' m) = st_spawned (cl_nodes c m)"
proof
  let ?c' = "(put_node c n ((on_node c n)\<lparr>st_storage := race_db s (Suc k) t\<rparr>))\<lparr>cl_pending := (cl_pending c)(n := (now, [race_due s t]))\<rparr>"
  show "cluster_step D W c (Ev_Fetch n now) ?c'"
    using cluster_step.fetch [of c n D now "race_db s (Suc k) t" "Inr [race_due s t]"] race_fetch [OF assms(3), of s k] assms(1,2,4)
    by (simp add: PostgresStorage_ops_def)
qed simp_all

lemma race_look_step:
  assumes "decide (D n) (on_node c n) (race_due s f) now = Claim job u" "cl_pending c n = (now, [race_due s f])" "cl_activity c n = Idle"
  obtains c' where "cluster_step D W c (Ev_Look n ''id-1'') c'" "cl_storage c' = cl_storage c"
    "cl_pending c' = (cl_pending c)(n := (now, []))" "cl_activity c' = (cl_activity c)(n := Claiming job (race_due s f) now u)"
    "cl_won c' = cl_won c" "cl_leader c' = cl_leader c" "cl_started c' = cl_started c"
    "\<And>m. st_spawned (cl_nodes c' m) = st_spawned (cl_nodes c m)"
proof -
  obtain st where st: "dispatch_look (D n) (race_due s f) now (on_node c n) = (st, Claiming job (race_due s f) now u)"
    using dispatch_look_decides(1) assms(1) by (metis prod.collapse)
  then have "st_storage st = cl_storage c" "st_leader st = cl_leader c" "st_spawned st = st_spawned (cl_nodes c n)"
    using dispatch_look_frame(1-3) [of "D n" "race_due s f" now "on_node c n"] by simp_all
  with cluster_step.look [where D = D and W = W, OF assms(2,3) st] show thesis
    by (intro that [of "(put_node c n st)\<lparr>cl_pending := (cl_pending c)(n := (now, [])),
        cl_activity := (cl_activity c)(n := Claiming job (race_due s f) now u)\<rparr>"]) simp_all
qed

lemma race_claim_step:
  assumes "D n = race_D parse s lo L" "cl_activity c n = Claiming job (race_due s f) now u"
    and "cl_storage c = race_db s k t" "t < pg_timestamptz u"
  obtains c' where "cluster_step D W c (Ev_Claim n ''id-1'') c'" "cl_storage c' = race_db s (k + 4) (pg_timestamptz u)"
    "cl_activity c' = (cl_activity c)(n := Idle)" "cl_won c' = cl_won c @ [(n, race_due s f, now, u)]" "cl_pending c' = cl_pending c"
    "cl_started c' = cl_started c"
    "\<And>m. st_spawned (cl_nodes c' m) = st_spawned (cl_nodes c m) @ (if m = n then [(job, race_due s f, u)] else [])"
proof -
  let ?st = "dispatch_claim (D n) job (race_due s f) now u (on_node c n)"
  have "ClaimJob (d_storage (D n)) (cl_storage c) ''id-1'' u = (race_db s (k + 4) (pg_timestamptz u), Inr True)"
    using race_claim [OF assms(4)] assms(1,3) by (simp add: PostgresStorage_ops_def)
  with cluster_step.claim [of c n job "race_due s f" now u ?st D W] assms(2) show thesis
    by (intro that [of "(put_node c n ?st)\<lparr>cl_activity := (cl_activity c)(n := Idle),
        cl_won := cl_won c @ [(n, race_due s f, now, u)]\<rparr>"]) simp_all
qed

text \<open>The goroutine of a won claim calls its handler.\<close>

lemma race_start_step:
  assumes "st_spawned (cl_nodes c n) = [(job, race_due s f, u)]"
  obtains c' where "cluster_step D W c (Ev_Start n ''id-1'') c'" "cl_won c' = cl_won c" "cl_started c' = cl_started c @ [(n, race_due s f, u)]"
    "\<And>m. m \<noteq> n \<Longrightarrow> st_spawned (cl_nodes c' m) = st_spawned (cl_nodes c m)"
proof -
  obtain st hctx k where b: "execute_begin (D n) (demo_env 0) demo_ctx job (race_due s f) (on_node c n) = (st, hctx, k)"
    by (metis prod_cases3)
  let ?c' = "(put_node c n (st\<lparr>st_spawned := [], st_calls := st_calls st @ [(race_due s f, hctx)]\<rparr>))
    \<lparr>cl_frames := (cl_frames c)(n := cl_frames c n @
       [\<lparr>fr_job = job, fr_dj = race_due s f, fr_env = demo_env 0, fr_ctx = hctx, fr_attempt = k, fr_outcome = None, fr_inline = False\<rparr>]),
     cl_started := cl_started c @ [(n, race_due s f, u)]\<rparr>"
  have "cluster_step D W c (Ev_Start n ''id-1'') ?c'"
    using cluster_step.start [of c n "[]" job "race_due s f" u "[]" D "demo_env 0" demo_ctx st hctx k W] assms b by simp
  then show thesis by (rule that) simp_all
qed

text \<open>A node at rest fetches the row and decides to claim it.\<close>

lemma race_prepare:
  assumes "D n = race_D parse s lo L" "cl_storage c = race_db s k t" "at_rest c n" "t \<le> pg_timestamptz now"
    and "\<And>st. st_leader st = cl_leader c \<Longrightarrow> decide (D n) st (race_due s t) now = Claim job u"
  obtains c' where "cluster_run D W c [Ev_Fetch n now, Ev_Look n ''id-1''] c'" "cl_storage c' = race_db s (Suc k) t"
    "cl_pending c' = (cl_pending c)(n := (now, []))" "cl_activity c' = (cl_activity c)(n := Claiming job (race_due s t) now u)"
    "cl_won c' = cl_won c" "cl_leader c' = cl_leader c" "cl_started c' = cl_started c"
proof -
  obtain c1 where s1: "cluster_step D W c (Ev_Fetch n now) c1" and c1: "cl_storage c1 = race_db s (Suc k) t"
    "cl_pending c1 = (cl_pending c)(n := (now, [race_due s t]))" "cl_activity c1 = cl_activity c" "cl_won c1 = cl_won c"
    "cl_leader c1 = cl_leader c" "cl_started c1 = cl_started c"
    by (rule race_fetch_step [where D = D and W = W, OF assms(2-4,1)])
  obtain c2 where s2: "cluster_step D W c1 (Ev_Look n ''id-1'') c2" and c2: "cl_storage c2 = cl_storage c1"
    "cl_pending c2 = (cl_pending c1)(n := (now, []))" "cl_activity c2 = (cl_activity c1)(n := Claiming job (race_due s t) now u)"
    "cl_won c2 = cl_won c1" "cl_leader c2 = cl_leader c1" "cl_started c2 = cl_started c1"
    by (rule race_look_step [where D = D and W = W and c = c1 and n = n and f = t and s = s and now = now, OF assms(5)])
      (use c1 assms(3) in \<open>simp_all add: at_rest_def\<close>)
  show thesis using that [of c2] cluster_run.further [OF cluster_run.further [OF cluster_run.here s1] s2] c1 c2 by simp
qed

text \<open>Both nodes fetch the row and decide to claim it before either does, and both claims are won.\<close>

abbreviation race_events :: "gotime \<Rightarrow> gotime \<Rightarrow> cluster_event list" where
  "race_events a b \<equiv>
     [Ev_Fetch 0 a, Ev_Fetch 1 b, Ev_Look 0 ''id-1'', Ev_Look 1 ''id-1'', Ev_Claim 0 ''id-1'', Ev_Claim 1 ''id-1'']"

lemma race_run:
  assumes load: "loadScheduleFromDue parse (race_due s f) = Inr s"
    and nz: "schedule_Next s a \<noteq> zero_time" "schedule_Next s b \<noteq> zero_time"
    and "f \<le> pg_timestamptz a" "f \<le> pg_timestamptz b"
    and "f < pg_timestamptz (schedule_Next s a)" "pg_timestamptz (schedule_Next s a) < pg_timestamptz (schedule_Next s b)"
  shows "\<exists>c. cluster_run (\<lambda>_. race_D parse s False L) W (new_cluster (race_db s 0 f) l) (race_events a b) c \<and>
    cl_won c = [(0, race_due s f, a, schedule_Next s a), (1, race_due s f, b, schedule_Next s b)] \<and> cl_started c = [] \<and>
    st_spawned (cl_nodes c 0) = [(race_job s False, race_due s f, schedule_Next s a)] \<and>
    st_spawned (cl_nodes c 1) = [(race_job s False, race_due s f, schedule_Next s b)]"
proof -
  let ?D = "\<lambda>_ :: nat. race_D parse s False L"
  let ?c0 = "new_cluster (race_db s 0 f) l"
  note decides = race_decide [OF load _, of _ False L]
  note cases = new_cluster_def at_rest_def numeral_eq_Suc new_dstate_def
  obtain c1 where s1: "cluster_step ?D W ?c0 (Ev_Fetch 0 a) c1"
    and c1: "cl_storage c1 = race_db s 1 f" "cl_pending c1 = (cl_pending ?c0)(0 := (a, [race_due s f]))" "cl_activity c1 = (\<lambda>_. Idle)" "cl_won c1 = []"
      "\<And>m. st_spawned (cl_nodes c1 m) = []" "cl_started c1 = []"
    by (rule race_fetch_step [where W = W, of ?c0 s 0 f 0 a ?D]) (use assms(4) in \<open>simp_all add: cases\<close>)
  obtain c2 where s2: "cluster_step ?D W c1 (Ev_Fetch 1 b) c2"
    and c2: "cl_storage c2 = race_db s 2 f" "cl_pending c2 0 = (a, [race_due s f])" "cl_pending c2 1 = (b, [race_due s f])"
      "cl_activity c2 = (\<lambda>_. Idle)" "cl_won c2 = []" "\<And>m. st_spawned (cl_nodes c2 m) = []" "cl_started c2 = []"
    by (rule race_fetch_step [where W = W, of c1 s 1 f 1 b ?D]) (use assms(5) c1 in \<open>simp_all add: cases\<close>)
  obtain c3 where s3: "cluster_step ?D W c2 (Ev_Look 0 ''id-1'') c3"
    and c3: "cl_storage c3 = race_db s 2 f" "cl_pending c3 1 = (b, [race_due s f])"
      "cl_activity c3 = (\<lambda>_. Idle)(0 := Claiming (race_job s False) (race_due s f) a (schedule_Next s a))" "cl_won c3 = []"
      "\<And>m. st_spawned (cl_nodes c3 m) = []" "cl_started c3 = []"
    by (rule race_look_step [where W = W and D = ?D, OF decides [OF nz(1)] c2(2)]) (use c2 in simp_all)
  obtain c4 where s4: "cluster_step ?D W c3 (Ev_Look 1 ''id-1'') c4"
    and c4: "cl_storage c4 = race_db s 2 f" "cl_activity c4 0 = Claiming (race_job s False) (race_due s f) a (schedule_Next s a)"
      "cl_activity c4 1 = Claiming (race_job s False) (race_due s f) b (schedule_Next s b)" "cl_won c4 = []"
      "\<And>m. st_spawned (cl_nodes c4 m) = []" "cl_started c4 = []"
    by (rule race_look_step [where W = W and D = ?D, OF decides [OF nz(2)] c3(2)]) (use c3 in simp_all)
  obtain c5 where s5: "cluster_step ?D W c4 (Ev_Claim 0 ''id-1'') c5"
    and c5: "cl_storage c5 = race_db s 6 (pg_timestamptz (schedule_Next s a))"
      "cl_activity c5 1 = Claiming (race_job s False) (race_due s f) b (schedule_Next s b)" "cl_won c5 = [(0, race_due s f, a, schedule_Next s a)]"
      "\<And>m. st_spawned (cl_nodes c5 m) = (if m = 0 then [(race_job s False, race_due s f, schedule_Next s a)] else [])" "cl_started c5 = []"
    by (rule race_claim_step [where W = W and D = ?D, OF refl c4(2,1) assms(6)]) (use c4 in simp_all)
  obtain c6 where s6: "cluster_step ?D W c5 (Ev_Claim 1 ''id-1'') c6"
    and c6: "cl_won c6 = [(0, race_due s f, a, schedule_Next s a), (1, race_due s f, b, schedule_Next s b)]" "cl_started c6 = []"
      "\<And>m. st_spawned (cl_nodes c6 m) = st_spawned (cl_nodes c5 m) @ (if m = 1 then [(race_job s False, race_due s f, schedule_Next s b)] else [])"
    by (rule race_claim_step [where W = W and D = ?D, OF refl c5(2,1) assms(7)]) (use c5 in simp_all)
  from cluster_run.further [OF cluster_run.further [OF cluster_run.further [OF cluster_run.further [OF cluster_run.further
        [OF cluster_run.further [OF cluster_run.here s1] s2] s3] s4] s5] s6] c6 c5(4)
  show ?thesis by auto
qed

lemma pg_timestamptz_le: "pg_timestamptz t \<le> t"
  using pos_mod_sign [of 1000 t] div_mult_mod_eq [of t 1000] by (simp add: pg_timestamptz_def)

lemma pg_timestamptz_later: "1000 \<le> d \<Longrightarrow> pg_timestamptz t < pg_timestamptz (t + d)"
  using zdiv_mono1 [of "t + 1000" "t + d" 1000] by (simp add: pg_timestamptz_def)

text \<open>A cron schedule that fires at every full minute.\<close>

definition race_cron :: Schedule where
  "race_cron = cronSchedule ''* * * * *'' (\<lambda>t. (t div 60000000000 + 1) * 60000000000)"

definition race_parse :: cron_parser where
  "race_parse expr = Inr (\<lambda>t. (t div 60000000000 + 1) * 60000000000)"

lemma race_cron_load: "loadScheduleFromDue race_parse (race_due race_cron f) = Inr race_cron"
  unfolding race_due_def by (rule reload_cron [of _ "''* * * * *''"]) (simp add: Cron_def race_parse_def race_cron_def)

lemma race_cron_slots: "slotted_sequence race_cron"
proof
  fix t u :: gotime
  show "schedule_Next race_cron t = zero_time \<or> t < schedule_Next race_cron t"
    using next_slot_later [of 60000000000 t] by (simp add: race_cron_def)
  assume "t \<le> u" "u < schedule_Next race_cron t"
  then have "u div 60000000000 = t div 60000000000" by (intro same_slot) (simp_all add: race_cron_def)
  then show "schedule_Next race_cron u = schedule_Next race_cron t" by (simp add: race_cron_def)
qed

text \<open>A run in which two nodes win claims of different slots.\<close>

definition race_two :: "(PgDB, MemoryLeader) cluster \<Rightarrow> bool" where
  "race_two c \<longleftrightarrow>
     cluster_run (\<lambda>_. race_D race_parse race_cron False None) quiet_surroundings
       (new_cluster (race_db race_cron 0 Minute) NewMemoryLeader)
       (race_events (61 * Second) (121 * Second)) c"

definition race_two_won :: "(nat \<times> DueJob \<times> gotime \<times> gotime) list" where
  "race_two_won =
     [(0, race_due race_cron Minute, 61 * Second, 2 * Minute), (1, race_due race_cron Minute, 121 * Second, 3 * Minute)]"

lemma race_two_exists: "\<exists>c. race_two c \<and> cl_won c = race_two_won"
proof -
  have "schedule_Next race_cron (61 * Second) = 2 * Minute" "schedule_Next race_cron (121 * Second) = 3 * Minute"
    "2 * Minute \<noteq> zero_time" "3 * Minute \<noteq> zero_time" "Minute \<le> pg_timestamptz (61 * Second)" "Minute \<le> pg_timestamptz (121 * Second)"
    "Minute < pg_timestamptz (2 * Minute)" "pg_timestamptz (2 * Minute) < pg_timestamptz (3 * Minute)"
    by (simp_all add: race_cron_def pg_timestamptz_def duration_units)
  with race_run [OF race_cron_load, of "61 * Second" "121 * Second" Minute None quiet_surroundings NewMemoryLeader]
  show ?thesis unfolding race_two_def race_two_won_def by metis
qed

section \<open>Properties\<close>

text \<open>
  Property C1. Any number of nodes, in any interleaving of their fetches, decisions, claims,
  executions, replays, registrations, crashes and leader changes, with any failure of the server or the network at any
  round trip: in every stretch of a run in which no execution of a job is retried, the claims of the job that are won have strictly
  increasing targets, so that no target is won twice. And every goroutine that called a handler, in the whole run, has a won
  claim of its own: the handler is never called twice for one won claim.
\<close>

theorem cluster_claims_increase:
  assumes "\<And>t u. t \<le> u \<Longrightarrow> ts t \<le> ts u" "\<And>n. d_storage (D n) = PostgresStorage_ops ts" "pg_inv db"
    and "cluster_run D W (new_cluster db l) es c" "cluster_run D W c es' c'" "list_all (\<lambda>e. \<not> pulls_back i e) es'"
  shows "(\<exists>new. cl_won c' = cl_won c @ new \<and> sorted_wrt (<) (won_targets ts i new)) \<and>
    mset (cl_started c') \<subseteq># mset (claims_of (cl_won c'))"
proof -
  obtain new where new: "cl_won c' = cl_won c @ new" using cluster_run_won [OF assms(5)] by blast
  have "sorted_wrt (<) (won_targets ts i new)"
    using storage_contract.wins_increase [OF pg_contract [of ts, OF assms(1)] assms(4,5,2,3,6)] new by simp
  moreover have "cluster_run D W (new_cluster db l) (es @ es') c'" by (rule cluster_run_trans [OF assms(5,4)])
  from starts_since [OF this] have "count_list (cl_started c') x \<le> count_list (claims_of (cl_won c')) x" for x
    using order_trans [OF started_begun, of c' x] by simp
  then have "mset (cl_started c') \<subseteq># mset (claims_of (cl_won c'))" by (intro mset_subset_eqI) (simp only: count_mset)
  ultimately show ?thesis using new by blast
qed

theorem cluster_claims_increase_witness:
  "\<exists>c new. race_two c \<and> cl_won c = [] @ new \<and> won_targets pg_timestamptz ''id-1'' new = [2 * Minute, 3 * Minute] \<and>
     sorted_wrt (<) (won_targets pg_timestamptz ''id-1'' new)"
proof -
  obtain c where c: "race_two c" "cl_won c = race_two_won" using race_two_exists by blast
  have "won_targets pg_timestamptz ''id-1'' (cl_won c) = [2 * Minute, 3 * Minute]"
    unfolding c(2) race_two_won_def by (simp add: won_targets_def pg_timestamptz_def duration_units)
  moreover have "\<exists>new. cl_won c = cl_won (new_cluster (race_db race_cron 0 Minute) NewMemoryLeader) @ new \<and>
      sorted_wrt (<) (won_targets pg_timestamptz ''id-1'' new)"
    by (rule conjunct1 [OF cluster_claims_increase [OF pg_timestamptz_mono _ race_inv cluster_run.here c(1) [unfolded race_two_def]]]) simp_all
  ultimately show ?thesis using c(1) by (auto simp: new_cluster_def)
qed

text \<open>
  Property C2. A job whose schedule has slots (\<open>Next\<close> is the first fire after its
  argument, as for cron) is claimed, and started by a goroutine, at most once per slot on the whole cluster, whatever the
  clocks of the nodes read: in a stretch of a run without a retry of the job, after a claim for the fire \<open>t1\<close> was won
  another claim of the job is won only by a tick whose instant has reached \<open>t1\<close>. The nodes must read the same schedule
  from the row.
\<close>

theorem cron_once_per_slot:
  assumes "\<And>t u. t \<le> u \<Longrightarrow> ts t \<le> ts u" "\<And>n. d_storage (D n) = PostgresStorage_ops ts" "pg_inv db"
    and "cluster_run D W (new_cluster db l) es c" "cluster_run D W c es' c'" "list_all (\<lambda>e. \<not> pulls_back i e) es'"
    and "\<And>t. schedule_Next s t = zero_time \<or> t < schedule_Next s t"
    and "\<And>t u. t \<le> u \<Longrightarrow> u < schedule_Next s t \<Longrightarrow> schedule_Next s u = schedule_Next s t"
    and "\<And>n d now t. (n, d, now, t) \<in> set (cl_won c') \<Longrightarrow> dj_ID d = i \<Longrightarrow> loadScheduleFromDue (d_cron (D n)) d = Inr s"
    and "cl_won c' = cl_won c @ ws @ (n1, d1, now1, t1) # vs" "(n2, d2, now2, t2) \<in> set vs" "dj_ID d1 = i" "dj_ID d2 = i"
  shows "t1 \<le> now2"
proof -
  have run: "cluster_run D W (new_cluster db l) (es @ es') c'" by (rule cluster_run_trans [OF assms(5,4)])
  have next_t: "t = schedule_Next s now \<and> t \<noteq> zero_time" if "(n, d, now, t) \<in> set (cl_won c')" "dj_ID d = i" for n d now t
    using won_computed [OF run that(1)] assms(9) [OF that] computeNextFire_load_Inr by fastforce
  have "(n1, d1, now1, t1) \<in> set (cl_won c')" "(n2, d2, now2, t2) \<in> set (cl_won c')" using assms(10,11) by auto
  then have nexts: "t1 = schedule_Next s now1" "t1 \<noteq> zero_time" "t2 = schedule_Next s now2" "t2 \<noteq> zero_time"
    using next_t assms(12,13) by blast+
  have "sorted_wrt (<) (won_targets ts i (ws @ (n1, d1, now1, t1) # vs))"
    using storage_contract.wins_increase [OF pg_contract [of ts, OF assms(1)] assms(4,5,2,3,6)] assms(10) by simp
  then have "ts t1 < ts t2"
    using assms(11-13) by (force simp: won_targets_def sorted_wrt_append)
  then have less: "t1 < t2" using assms(1) [of t2 t1] by linarith
  have "slotted_sequence s" by unfold_locales (rule assms(7), rule assms(8))
  from slotted_sequence.slots_apart [OF this, of now1 now2] less nexts show ?thesis by simp
qed

theorem cron_once_per_slot_witness:
  "\<exists>c d now1 t1 now2 t2. race_two c \<and> cl_won c = [(0, d, now1, t1), (1, d, now2, t2)] \<and> now1 < t1 \<and> t1 \<le> now2"
proof -
  obtain c where c: "race_two c" "cl_won c = race_two_won" using race_two_exists by blast
  have load: "loadScheduleFromDue race_parse d = Inr race_cron" if "(n, d, now, t) \<in> set (cl_won c)" for n d now t
    using that race_cron_load unfolding c(2) race_two_won_def by auto
  have "2 * Minute \<le> 121 * Second"
    by (rule cron_once_per_slot [where ts = pg_timestamptz and D = "\<lambda>_. race_D race_parse race_cron False None" and s = race_cron
          and i = "''id-1''" and ws = "[]", OF pg_timestamptz_mono _ race_inv cluster_run.here c(1) [unfolded race_two_def] _ _ _ _ _ _])
      (use load c(2) fire_sequence.next_later [OF slotted_sequence.axioms(1) [OF race_cron_slots]]
        slotted_sequence.next_first [OF race_cron_slots] in \<open>auto simp: race_two_won_def new_cluster_def\<close>)
  then have "61 * Second < 2 * Minute \<and> 2 * Minute \<le> 121 * Second" by (simp add: duration_units)
  with c show ?thesis unfolding race_two_won_def by blast
qed

text \<open>
  Property C16. For interval jobs the claim does not exclude a second execution of the same
  fire: the target is the reader's own clock plus the interval. When two nodes both fetch the row before either claims
  it, at instants whose targets the database distinguishes, there is a run in which both win their claims and both goroutines call
  the handler, each for the fire \<open>f\<close>.
\<close>

theorem every_double_run:
  assumes "Every d = Inr s" "int64 d" "0 \<le> f" "f \<le> pg_timestamptz a" "pg_timestamptz (a + d) < pg_timestamptz (b + d)" "a \<le> b"
  shows "\<exists>c. cluster_run (\<lambda>_. race_D parse s False L) W (new_cluster (race_db s 0 f) l)
      (race_events a b @ [Ev_Start 0 ''id-1'', Ev_Start 1 ''id-1'']) c \<and>
    cl_won c = [(0, race_due s f, a, a + d), (1, race_due s f, b, b + d)] \<and>
    cl_started c = [(0, race_due s f, a + d), (1, race_due s f, b + d)]"
proof -
  let ?D = "\<lambda>_ :: nat. race_D parse s False L"
  have s: "s = intervalSchedule d" "Second \<le> d" using assms(1) by (simp_all add: Every_Inr)
  have load: "loadScheduleFromDue parse (race_due s f) = Inr s"
    unfolding race_due_def using assms(1,2) by (rule reload_every)
  have nexts: "schedule_Next s t = t + d" for t using s by (simp add: time_Add_def)
  have a: "0 \<le> a" using assms(3,4) pg_timestamptz_le [of a] by linarith
  have "pg_timestamptz a < pg_timestamptz (a + d)" using s(2) by (simp add: pg_timestamptz_later duration_units)
  then obtain c where run: "cluster_run ?D W (new_cluster (race_db s 0 f) l) (race_events a b) c"
    and c: "cl_won c = [(0, race_due s f, a, a + d), (1, race_due s f, b, b + d)]" "cl_started c = []"
      "st_spawned (cl_nodes c 0) = [(race_job s False, race_due s f, a + d)]" "st_spawned (cl_nodes c 1) = [(race_job s False, race_due s f, b + d)]"
    using race_run [OF load, of a b L W l] nexts assms a s(2) pg_timestamptz_mono [of a b] by (auto simp: duration_units)
  obtain c1 where s1: "cluster_step ?D W c (Ev_Start 0 ''id-1'') c1" and c1: "cl_won c1 = cl_won c" "cl_started c1 = [(0, race_due s f, a + d)]"
    "st_spawned (cl_nodes c1 1) = [(race_job s False, race_due s f, b + d)]"
    by (rule race_start_step [where D = ?D and W = W, OF c(3)]) (use c in simp)
  obtain c2 where s2: "cluster_step ?D W c1 (Ev_Start 1 ''id-1'') c2" and c2: "cl_won c2 = cl_won c1"
    "cl_started c2 = cl_started c1 @ [(1, race_due s f, b + d)]"
    by (rule race_start_step [where D = ?D and W = W, OF c1(3)])
  have "cluster_run ?D W (new_cluster (race_db s 0 f) l) (race_events a b @ [Ev_Start 0 ''id-1'', Ev_Start 1 ''id-1'']) c2"
    using cluster_run.further [OF cluster_run.further [OF run s1] s2] by simp
  with c c1 c2 show ?thesis by auto
qed

theorem every_double_run_witness:
  "\<exists>c. cluster_run (\<lambda>_. race_D race_parse (intervalSchedule (10 * Second)) False None) quiet_surroundings
      (new_cluster (race_db (intervalSchedule (10 * Second)) 0 1000000) NewMemoryLeader)
      (race_events 1001000 1002000 @ [Ev_Start 0 ''id-1'', Ev_Start 1 ''id-1'']) c \<and>
    map (\<lambda>(n, d, t). (n, dj_NextFireTime d)) (cl_started c) = [(0, 1000000), (1, 1000000)]"
proof -
  have "\<exists>c. cluster_run (\<lambda>_. race_D race_parse (intervalSchedule (10 * Second)) False None) quiet_surroundings
      (new_cluster (race_db (intervalSchedule (10 * Second)) 0 1000000) NewMemoryLeader)
      (race_events 1001000 1002000 @ [Ev_Start 0 ''id-1'', Ev_Start 1 ''id-1'']) c \<and>
    cl_won c = [(0, race_due (intervalSchedule (10 * Second)) 1000000, 1001000, 1001000 + 10 * Second),
      (1, race_due (intervalSchedule (10 * Second)) 1000000, 1002000, 1002000 + 10 * Second)] \<and>
    cl_started c = [(0, race_due (intervalSchedule (10 * Second)) 1000000, 1001000 + 10 * Second),
      (1, race_due (intervalSchedule (10 * Second)) 1000000, 1002000 + 10 * Second)]"
    by (rule every_double_run) (simp_all add: Every_Inr duration_units int64_def pg_timestamptz_def)
  then show ?thesis by (auto simp: race_due_def stored_due_def)
qed

text \<open>
  Property C17. A crash between a won claim and the start of its goroutine loses the claim, on the whole cluster:
  whatever happened on any node between the claim and the crash, and whatever happens afterwards, the handler is never called
  for this claim. As long as no execution of the job is retried, every later claim of it that any node wins is for a later target,
  so that the claim is not won again either.
\<close>

theorem crash_loses_fire:
  assumes "\<And>t u. t \<le> u \<Longrightarrow> ts t \<le> ts u" "\<And>n. d_storage (D n) = PostgresStorage_ops ts" "pg_inv db"
    and "cluster_run D W (new_cluster db l) es c"
    and "cluster_step D W c (Ev_Claim n (dj_ID dj)) c1" "cl_won c1 = cl_won c @ [(n, dj, now, t)]"
    and "cluster_run D W c1 es1 c2" "count_list (cl_started c2) (n, dj, t) = count_list (cl_started c1) (n, dj, t)"
    and "cluster_step D W c2 (Ev_Crash n) c3" "cluster_run D W c3 es' c'"
    and "list_all (\<lambda>e. \<not> pulls_back (dj_ID dj) e) (es1 @ es')"
  shows "count_list (cl_started c') (n, dj, t) = count_list (cl_started c) (n, dj, t) \<and>
    (\<exists>later. cl_won c' = cl_won c @ (n, dj, now, t) # later \<and> (\<forall>u \<in> set (won_targets ts (dj_ID dj) later). ts t < u))"
proof -
  have c1: "cl_started c1 = cl_started c" using assms(5) by (auto elim!: claim_stepE)
  have c3: "cl_started c3 = cl_started c2" "cl_won c3 = cl_won c2" "st_spawned (cl_nodes c3 n) = []"
    using assms(9) by (auto elim!: crash_stepE)
  obtain later1 where later1: "cl_won c3 = cl_won c @ (n, dj, now, t) # later1"
    using cluster_run_won [OF assms(7)] assms(6) c3(2) by auto
  obtain later2 where later2: "cl_won c' = cl_won c3 @ later2" using cluster_run_won [OF assms(10)] by blast
  have "cluster_run D W c ([Ev_Claim n (dj_ID dj)] @ es1 @ [Ev_Crash n] @ es') c'"
    by (rule cluster_run_trans [OF cluster_run_trans [OF cluster_run_trans [OF assms(10) cluster_run_one [OF assms(9)]] assms(7)]
          cluster_run_one [OF assms(5)]])
  from storage_contract.wins_increase [OF pg_contract [of ts, OF assms(1)] assms(4) this assms(2,3), of "dj_ID dj"]
  have less: "\<forall>u \<in> set (won_targets ts (dj_ID dj) (later1 @ later2)). ts t < u"
    using assms(11) later1 later2 by (simp add: won_targets_def)
  then have "(n, dj, t) \<notin> set (claims_of later2)" by (force simp: won_targets_def)
  then have "begun c' (n, dj, t) \<le> begun c3 (n, dj, t)"
    using starts_since [OF assms(10), of "(n, dj, t)"] later2 by (simp add: count_list_0_iff)
  then have "count_list (cl_started c') (n, dj, t) \<le> count_list (cl_started c) (n, dj, t)"
    using started_begun [of c' "(n, dj, t)"] c1 c3(1,3) assms(8) by (simp add: begun_def)
  moreover obtain new1 new2 where "cl_started c2 = cl_started c1 @ new1" "cl_started c' = cl_started c3 @ new2"
    using cluster_run_started [OF assms(7)] cluster_run_started [OF assms(10)] by blast
  ultimately show ?thesis using less later1 later2 c1 c3(1) by auto
qed

text \<open>Node 0 claims the fire of the first minute and crashes; node 1 wins the next claim, a minute later.\<close>

lemma race_crash_run:
  obtains es c c1 c2 es' c' where
    "cluster_run (\<lambda>_. race_D race_parse race_cron False None) quiet_surroundings (new_cluster (race_db race_cron 0 Minute) NewMemoryLeader) es c"
    "cluster_step (\<lambda>_. race_D race_parse race_cron False None) quiet_surroundings c (Ev_Claim 0 ''id-1'') c1"
    "cl_won c = []" "cl_started c = []" "cl_won c1 = [(0, race_due race_cron Minute, 61 * Second, 2 * Minute)]"
    "cluster_step (\<lambda>_. race_D race_parse race_cron False None) quiet_surroundings c1 (Ev_Crash 0) c2"
    "cluster_run (\<lambda>_. race_D race_parse race_cron False None) quiet_surroundings c2 es' c'" "list_all (\<lambda>e. \<not> pulls_back ''id-1'' e) es'"
    "cl_won c' = [(0, race_due race_cron Minute, 61 * Second, 2 * Minute), (1, race_due race_cron (2 * Minute), 121 * Second, 3 * Minute)]"
proof -
  let ?D = "\<lambda>_ :: nat. race_D race_parse race_cron False (None :: MemoryLeader Leader option)" and ?W = "quiet_surroundings :: MemoryLeader surroundings"
  let ?c0 = "new_cluster (race_db race_cron 0 Minute) NewMemoryLeader"
  have times: "schedule_Next race_cron (61 * Second) = 2 * Minute" "schedule_Next race_cron (121 * Second) = 3 * Minute"
    "Minute \<le> pg_timestamptz (61 * Second)" "2 * Minute \<le> pg_timestamptz (121 * Second)" "Minute < pg_timestamptz (2 * Minute)"
    "2 * Minute < pg_timestamptz (3 * Minute)" "pg_timestamptz (2 * Minute) = 2 * Minute" "Minute \<noteq> zero_time"
    by (simp_all add: race_cron_def pg_timestamptz_def duration_units)
  have decides: "decide (?D n) st (race_due race_cron Minute) (61 * Second) = Claim (race_job race_cron False) (2 * Minute)"
    "decide (?D n) st (race_due race_cron (2 * Minute)) (121 * Second) = Claim (race_job race_cron False) (3 * Minute)" for n st
    using race_decide [OF race_cron_load, of "61 * Second" False None st] race_decide [OF race_cron_load, of "121 * Second" False None st] times
    by simp_all
  obtain c where run: "cluster_run ?D ?W ?c0 [Ev_Fetch 0 (61 * Second), Ev_Look 0 ''id-1''] c" and c: "cl_storage c = race_db race_cron 1 Minute"
    "cl_activity c 0 = Claiming (race_job race_cron False) (race_due race_cron Minute) (61 * Second) (2 * Minute)" "cl_activity c 1 = Idle"
    "cl_pending c 1 = (0, [])" "cl_won c = []" "cl_started c = []"
    by (rule race_prepare [where W = ?W and D = ?D and c = ?c0 and n = 0, OF refl _ _ times(3) decides(1)]) auto
  obtain c1 where s1: "cluster_step ?D ?W c (Ev_Claim 0 ''id-1'') c1" and c1: "cl_storage c1 = race_db race_cron 5 (2 * Minute)"
    "cl_activity c1 1 = Idle" "cl_won c1 = [(0, race_due race_cron Minute, 61 * Second, 2 * Minute)]" "cl_pending c1 1 = (0, [])"
    by (rule race_claim_step [where W = ?W and D = ?D and c = c and n = 0, OF refl c(2,1) times(5)]) (use c times(7) in simp_all)
  let ?c2 = "restart_node c1 0 (sr_crash ?W 0 (cl_leader c1))"
  have s2: "cluster_step ?D ?W c1 (Ev_Crash 0) ?c2" by (rule cluster_step.crash)
  obtain c3 where s3: "cluster_run ?D ?W ?c2 [Ev_Fetch 1 (121 * Second), Ev_Look 1 ''id-1''] c3" and c3: "cl_storage c3 = race_db race_cron (Suc 5) (2 * Minute)"
    "cl_activity c3 1 = Claiming (race_job race_cron False) (race_due race_cron (2 * Minute)) (121 * Second) (3 * Minute)" "cl_won c3 = cl_won c1"
    by (rule race_prepare [where W = ?W and D = ?D and c = ?c2 and n = 1, OF refl _ _ times(4) decides(2)])
      (use c1 in \<open>auto simp: at_rest_def\<close>)
  obtain c' where s4: "cluster_step ?D ?W c3 (Ev_Claim 1 ''id-1'') c'" and c':
    "cl_won c' = cl_won c1 @ [(1, race_due race_cron (2 * Minute), 121 * Second, 3 * Minute)]"
    by (rule race_claim_step [where W = ?W and D = ?D and c = c3 and n = 1, OF refl c3(2,1) times(6)]) (use c3(3) in simp)
  show thesis
    by (rule that [OF run s1 c(5,6) c1(3) s2 cluster_run.further [OF s3 s4]]) (use c' c1(3) in simp_all)
qed

theorem crash_loses_fire_witness:
  "\<exists>es c. cluster_run (\<lambda>_. race_D race_parse race_cron False None) quiet_surroundings
       (new_cluster (race_db race_cron 0 Minute) NewMemoryLeader) es c \<and>
     cl_won c = [(0, race_due race_cron Minute, 61 * Second, 2 * Minute), (1, race_due race_cron (2 * Minute), 121 * Second, 3 * Minute)] \<and>
     (0, race_due race_cron Minute, 2 * Minute) \<notin> set (cl_started c)"
proof (rule race_crash_run)
  let ?D = "\<lambda>_ :: nat. race_D race_parse race_cron False (None :: MemoryLeader Leader option)" and ?W = "quiet_surroundings :: MemoryLeader surroundings"
  fix es c c1 c2 es' c'
  assume run: "cluster_run ?D ?W (new_cluster (race_db race_cron 0 Minute) NewMemoryLeader) es c"
    and s1: "cluster_step ?D ?W c (Ev_Claim 0 ''id-1'') c1" and c: "cl_won c = []" "cl_started c = []"
    and c1: "cl_won c1 = [(0, race_due race_cron Minute, 61 * Second, 2 * Minute)]" and s2: "cluster_step ?D ?W c1 (Ev_Crash 0) c2"
    and run': "cluster_run ?D ?W c2 es' c'" "list_all (\<lambda>e. \<not> pulls_back ''id-1'' e) es'"
    and c': "cl_won c' = [(0, race_due race_cron Minute, 61 * Second, 2 * Minute), (1, race_due race_cron (2 * Minute), 121 * Second, 3 * Minute)]"
  have "count_list (cl_started c') (0, race_due race_cron Minute, 2 * Minute) = count_list (cl_started c) (0, race_due race_cron Minute, 2 * Minute)"
    using crash_loses_fire [where ts = pg_timestamptz and dj = "race_due race_cron Minute", OF pg_timestamptz_mono _ race_inv run _ _ cluster_run.here refl s2 run'(1)]
      s1 c c1 run'(2) by simp
  then have "(0, race_due race_cron Minute, 2 * Minute) \<notin> set (cl_started c')" using c(2) by (simp add: count_list_0_iff)
  moreover have "cluster_run ?D ?W (new_cluster (race_db race_cron 0 Minute) NewMemoryLeader) (((es @ [Ev_Claim 0 ''id-1'']) @ [Ev_Crash 0]) @ es') c'"
    by (rule cluster_run_trans [OF run'(1) cluster_run.further [OF cluster_run.further [OF run s1] s2]])
  ultimately show ?thesis using c' by blast
qed

lemma pg_commit_reply_lost:
  assumes "pg_inv db" "claimable (pg_table db) i (ts t)"
    and "\<And>m. m < 3 \<Longrightarrow> an_fate (db_answers db (db_trips db + m)) = Answered"
    and "advisoryKey i \<notin> set (an_held (db_answers db (db_trips db + 1)))"
    and "an_fate (db_answers db (db_trips db + 3)) = Lost_after err"
  shows "\<exists>db' e. pg_ClaimJob ts db i t = (db', Inl e) \<and> pg_table db' = advance (pg_table db) i (ts t) \<and> db_runs db' = db_runs db"
proof -
  obtain jobs k where u: "pg_update i (ts t) (\<lambda>n. n < ts t) (db_jobs db) = (jobs, k)" by fastforce
  note upd = pg_update_claim [OF assms(1) u]
  have "k \<noteq> 0" using upd assms(2) by blast
  moreover have "pg_table (db\<lparr>db_trips := n, db_jobs := jobs\<rparr>) = pg_table (db\<lparr>db_jobs := jobs\<rparr>)" for n
    by (simp add: pg_table_def fun_eq_iff)
  ultimately show ?thesis
    using upd u assms(3) [of 0] assms(3) [of 1] assms(3) [of 2] assms(4,5)
    by (simp add: pg_ClaimJob_def pg_trip_def numeral_eq_Suc)
qed

text \<open>
  Property C18. When the server commits a claim and the reply is lost, the fire is lost: the
  row has moved to the next fire, no goroutine is started and no run is recorded, and a retry of the claim
  cannot succeed.
\<close>

theorem claim_reply_lost:
  assumes "d_storage D = PostgresStorage_ops ts" "decide D st dj now = Claim job t"
    and "pg_inv (st_storage st)" "claimable (pg_table (st_storage st)) (dj_ID dj) (ts t)"
    and "\<And>m. m < 3 \<Longrightarrow> an_fate (db_answers (st_storage st) (db_trips (st_storage st) + m)) = Answered"
    and "advisoryKey (dj_ID dj) \<notin> set (an_held (db_answers (st_storage st) (db_trips (st_storage st) + 1)))"
    and "an_fate (db_answers (st_storage st) (db_trips (st_storage st) + 3)) = Lost_after err"
  shows "let st' = maybeDispatch D envs ctx dj now st in
    st_spawned st' = st_spawned st \<and> st_calls st' = st_calls st \<and> db_runs (st_storage st') = db_runs (st_storage st) \<and>
    pg_table (st_storage st') = advance (pg_table (st_storage st)) (dj_ID dj) (ts t) \<and>
    \<not> claimable (pg_table (st_storage st')) (dj_ID dj) (ts t)"
proof -
  obtain db e where "ClaimJob (d_storage D) (st_storage st) (dj_ID dj) t = (db, Inl e)"
    "pg_table db = advance (pg_table (st_storage st)) (dj_ID dj) (ts t)" "db_runs db = db_runs (st_storage st)"
    using pg_commit_reply_lost [where ts = ts and t = t, OF assms(3-7)] assms(1) by (auto simp: PostgresStorage_ops_def)
  with decide_ClaimD [OF assms(2), of envs ctx] show ?thesis
    by (auto simp: claimable_def advance_def Let_def split: option.splits if_splits)
qed

definition lost_st :: "(PgDB, MemoryLeader) dstate" where
  "lost_st =
     new_dstate ((race_db race_cron 0 Minute)\<lparr>db_answers := \<lambda>n. if n = 3 then demo_answer\<lparr>an_fate := Lost_after (NewError ''reset'')\<rparr> else demo_answer\<rparr>)
       NewMemoryLeader"

theorem claim_reply_lost_witness:
  "st_spawned (maybeDispatch (race_D race_parse race_cron False None) (\<lambda>_. demo_env (61 * Second)) demo_ctx (race_due race_cron Minute)
     (61 * Second) lost_st) = []"
proof -
  have "schedule_Next race_cron (61 * Second) = 2 * Minute" by (simp add: race_cron_def duration_units)
  moreover have "Minute \<noteq> zero_time" by (simp add: duration_units)
  ultimately have "decide (race_D race_parse race_cron False None) lost_st (race_due race_cron Minute) (61 * Second) = Claim (race_job race_cron False) (2 * Minute)"
    using race_decide [OF race_cron_load, of "61 * Second" False None lost_st Minute] by simp
  moreover have "pg_inv (st_storage lost_st)" "claimable (pg_table (st_storage lost_st)) ''id-1'' (pg_timestamptz (2 * Minute))"
    using race_inv [of race_cron 0 Minute]
    by (simp_all add: lost_st_def new_dstate_def pg_inv_def race_db_def demo_answer_def claimable_def pg_table_def pg_timestamptz_def duration_units)
  moreover have "st_spawned lost_st = []" "dj_ID (race_due race_cron Minute) = ''id-1''" "db_trips (st_storage lost_st) = 0"
    "db_answers (st_storage lost_st) = (\<lambda>n. if n = 3 then demo_answer\<lparr>an_fate := Lost_after (NewError ''reset'')\<rparr> else demo_answer)"
    by (simp_all add: lost_st_def new_dstate_def race_due_def stored_due_def race_db_def)
  ultimately show ?thesis
    using claim_reply_lost [of "race_D race_parse race_cron False None" pg_timestamptz lost_st "race_due race_cron Minute" "61 * Second"
        "race_job race_cron False" "2 * Minute" "NewError ''reset''" "\<lambda>_. demo_env (61 * Second)" demo_ctx]
    by (simp add: demo_answer_def Let_def)
qed

text \<open>
  Property C19. On a cluster with Postgres leaders, in every interleaving with any failing query, any
  crash and any closed idle connection: from the moment a node decides to claim (or to skip) a leader-only job until it has
  done so, and through the whole replay of a missed window, that node leads and no other does. In particular
  two nodes never replay at the same time.
\<close>

theorem leader_only_one_node:
  assumes "\<And>n. d_leader (D n) = Some (PostgresLeader_ops n)"
    and "cluster_run D pg_surroundings (new_cluster s (ls_init answers)) es c" "works_as_leader (cl_activity c n)"
  shows "(IsLeader (PostgresLeader_ops m) (cl_leader c) \<longleftrightarrow> m = n) \<and> (works_as_leader (cl_activity c m) \<longrightarrow> m = n)"
proof -
  have lead: "pl_held (ls_leaders (cl_leader c) k)" if "works_as_leader (cl_activity c k)" for k
    using cluster_workers_lead [OF assms(2,1)] that by (simp add: workers_lead_def)
  have "leader_inv (cl_leader c)"
    using leader_reachable_inv [OF cluster_leader_reachable [OF assms(2,1)]] .
  then show ?thesis
    using leader_inv_unique lead [OF assms(3)] lead [of m] by (auto simp: PostgresLeader_ops_def pl_IsLeader_def)
qed

text \<open>Node 4 becomes the leader, fetches the row of the leader-only job, and decides to claim it.\<close>

definition led_D :: "nat \<Rightarrow> (PgDB, lock_server) dispatcher" where
  "led_D n = race_D race_parse race_cron True (Some (PostgresLeader_ops n))"

lemma led_renewed:
  obtains c where "cluster_step led_D W (new_cluster db demo_server) (Ev_Renew 4) c" "cl_storage c = db"
    "at_rest c 4" "IsLeader (PostgresLeader_ops 4) (cl_leader c)"
proof -
  let ?c0 = "new_cluster db demo_server"
  have id: "NodeID (node_opts (led_D 4)) = ''n1''" by (simp add: led_D_def race_D_def empty_scheduler_def)
  obtain w where w: "TryAcquire (PostgresLeader_ops 4) demo_server ''n1'' = (w, Inr True)"
    using acquire_free [of demo_server 0 "''n1''" 4] by (auto simp: demo_server_def ls_init_def pool_Acquire_def)
  have "cl_leader (put_node ?c0 4 (maybeRenewLeader (led_D 4) (on_node ?c0 4))) = w"
    using w id by (simp add: maybeRenewLeader_def led_D_def new_cluster_def Let_def)
  with cluster_step.renew [of ?c0 4 led_D W] pl.acquire_leads [OF w] show thesis
    by (intro that [of "put_node ?c0 4 (maybeRenewLeader (led_D 4) (on_node ?c0 4))"]) (simp_all add: new_cluster_def put_node_def at_rest_def)
qed

theorem leader_only_one_node_witness:
  "\<exists>c. (\<exists>es. cluster_run led_D pg_surroundings (new_cluster (race_db race_cron 0 Minute) demo_server) es c) \<and>
     cl_activity c 4 = Claiming (race_job race_cron True) (race_due race_cron Minute) (61 * Second) (2 * Minute) \<and>
     (\<forall>m. IsLeader (PostgresLeader_ops m) (cl_leader c) \<longleftrightarrow> m = 4)"
proof -
  let ?c0 = "new_cluster (race_db race_cron 0 Minute) demo_server"
  have nexts: "schedule_Next race_cron (61 * Second) = 2 * Minute" "2 * Minute \<noteq> zero_time" "Minute \<le> pg_timestamptz (61 * Second)"
    by (simp_all add: race_cron_def pg_timestamptz_def duration_units)
  obtain c1 where s1: "cluster_step led_D pg_surroundings ?c0 (Ev_Renew 4) c1" and c1: "cl_storage c1 = race_db race_cron 0 Minute"
    "at_rest c1 4" "IsLeader (PostgresLeader_ops 4) (cl_leader c1)"
    by (rule led_renewed)
  have d: "decide (led_D 4) st (race_due race_cron Minute) (61 * Second) = Claim (race_job race_cron True) (2 * Minute)"
    if "st_leader st = cl_leader c1" for st :: "(PgDB, lock_server) dstate"
    using race_decide [OF race_cron_load, of "61 * Second" True "Some (PostgresLeader_ops 4)" st] nexts(1,2) c1(3) that
    unfolding led_D_def by (simp add: follower_def)
  obtain c3 where s2: "cluster_run led_D pg_surroundings c1 [Ev_Fetch 4 (61 * Second), Ev_Look 4 ''id-1''] c3"
    and c3: "cl_activity c3 4 = Claiming (race_job race_cron True) (race_due race_cron Minute) (61 * Second) (2 * Minute)"
    by (rule race_prepare [where W = pg_surroundings and D = led_D and n = 4, OF led_D_def c1(1,2) nexts(3) d]) simp_all
  note run = cluster_run_trans [OF s2 cluster_run_one [OF s1]]
  have "IsLeader (PostgresLeader_ops m) (cl_leader c3) \<longleftrightarrow> m = 4" for m
    by (rule conjunct1 [OF leader_only_one_node [OF _ run [unfolded demo_server_def]]]) (use c3 in \<open>auto simp: led_D_def\<close>)
  with run c3 show ?thesis by blast
qed

end
