(* ===== verification/Cluster_Simulation.thy ===== *)
theory Cluster_Simulation
  imports Sundial_Cluster
begin

text \<open>
  The steps of \<open>Sundial_Cluster\<close> against the sequential dispatcher of \<open>Sundial_Dispatcher\<close>: what the loop of a node does
  in one go is a run of the cluster in which the other nodes do not move. Every behaviour of \<open>tick\<close> and
  \<open>maybeRenewLeader\<close> is thus among the interleavings the cluster properties speak about.
\<close>

section \<open>Runs of one node\<close>

text \<open>What a run of node \<open>n\<close> alone leaves as it is.\<close>

definition undisturbed :: "nat \<Rightarrow> ('s, 'l) cluster \<Rightarrow> ('s, 'l) cluster \<Rightarrow> bool" where
  "undisturbed n c c' \<longleftrightarrow>
     cl_frames c' = cl_frames c \<and> cl_started c' = cl_started c \<and>
     (\<forall>m. m \<noteq> n \<longrightarrow> cl_nodes c' m = cl_nodes c m \<and> cl_pending c' m = cl_pending c m \<and> cl_activity c' m = cl_activity c m)"

lemma undisturbed_refl [simp]: "undisturbed n c c"
  by (simp add: undisturbed_def)

lemma undisturbed_trans: "undisturbed n a b \<Longrightarrow> undisturbed n b c \<Longrightarrow> undisturbed n a c"
  by (simp add: undisturbed_def)

lemma undisturbed_inline: "undisturbed n c c' \<Longrightarrow> inline_running c' m \<longleftrightarrow> inline_running c m"
  by (simp add: undisturbed_def inline_running_def)

lemma on_put_node [simp]:
  "on_node (put_node c n st) n = st"
  "on_node (c\<lparr>cl_activity := a\<rparr>) n = on_node c n" "on_node (c\<lparr>cl_pending := p\<rparr>) n = on_node c n"
  "on_node (c\<lparr>cl_frames := f\<rparr>) n = on_node c n" "on_node (c\<lparr>cl_won := w\<rparr>) n = on_node c n"
  by (simp_all add: on_node_def put_node_def)

section \<open>One dispatch\<close>

text \<open>An execution of a replay, in its three segments.\<close>

lemma inline_execution:
  assumes "cl_activity c n = Replaying job (dj # djs) a" "\<not> inline_running c n"
  obtains es c' where "cluster_run D W c es c'" "on_node c' n = executeAtFire (D n) env ctx job dj (on_node c n)"
    "cl_activity c' = (cl_activity c)(n := Replaying job djs a)" "cl_pending c' = cl_pending c" "undisturbed n c c'"
proof -
  let ?st0 = "(on_node c n)\<lparr>st_inFlight := st_inFlight (cl_nodes c n) + 1\<rparr>"
  obtain st hctx k where b: "execute_begin (D n) env ctx job dj ?st0 = (st, hctx, k)" by (metis prod_cases3)
  let ?st1 = "st\<lparr>st_calls := st_calls st @ [(dj, hctx)]\<rparr>"
  let ?f = "\<lparr>fr_job = job, fr_dj = dj, fr_env = env, fr_ctx = hctx, fr_attempt = k, fr_outcome = None, fr_inline = True\<rparr>"
  let ?err = "safeRun hctx (job_Handler job)"
  let ?c1 = "(put_node c n ?st1)\<lparr>cl_activity := (cl_activity c)(n := Replaying job djs a),
      cl_frames := (cl_frames c)(n := cl_frames c n @ [?f])\<rparr>"
  obtain st2 out where s: "execute_settle (D n) env job dj k ?err ?st1 = (st2, out)" by fastforce
  let ?c2 = "(put_node ?c1 n st2)\<lparr>cl_frames := (cl_frames ?c1)(n := cl_frames c n @ ?f\<lparr>fr_outcome := Some out\<rparr> # [])\<rparr>"
  let ?st3 = "execute_record (D n) env dj k ?err out st2"
  let ?c3 = "(put_node ?c2 n ?st3)\<lparr>cl_frames := (cl_frames ?c2)(n := cl_frames c n @ [])\<rparr>"
  have err: "frame_error ?f = ?err" "frame_error (?f\<lparr>fr_outcome := Some out\<rparr>) = ?err" by (simp_all add: frame_error_def)
  have "cluster_step D W c (Ev_Replay n (dj_ID dj)) ?c1"
    by (rule cluster_step.replay [where D = D, OF assms b])
  moreover have "cluster_step D W ?c1 (Ev_Settle n (dj_ID dj) (exec_retried job k ?err)) ?c2"
    using cluster_step.settle [of ?c1 n "cl_frames c n" ?f "[]" D st2 out W] s err(1) by simp
  moreover have "cluster_step D W ?c2 (Ev_Record n (dj_ID dj)) ?c3"
    using cluster_step.recorded [of ?c2 n "cl_frames c n" "?f\<lparr>fr_outcome := Some out\<rparr>" "[]" out ?st3 D W] err(2) by simp
  ultimately have "cluster_run D W c ([Ev_Replay n (dj_ID dj)] @ [Ev_Settle n (dj_ID dj) (exec_retried job k ?err)] @ [Ev_Record n (dj_ID dj)]) ?c3"
    by (intro cluster_run_trans cluster_run_one)
  moreover have "?st3 = executeAtFire (D n) env ctx job dj (on_node c n)"
    using b s by (simp add: executeAtFire_def execute_def Let_def)
  ultimately show thesis by (intro that [of _ ?c3]) (simp_all add: undisturbed_def)
qed

lemma replay_simulated:
  assumes "cl_activity c n = Replaying job djs a" "\<not> inline_running c n"
  shows "\<exists>es c'. cluster_run D W c es c' \<and> on_node c' n = replay_close (D n) a (replay_each (D n) envs ctx job k djs (on_node c n)) \<and>
    cl_activity c' n = Idle \<and> cl_pending c' = cl_pending c \<and> undisturbed n c c'"
  using assms
proof (induction djs arbitrary: c k)
  case Nil
  let ?c' = "(put_node c n (replay_close (D n) a (on_node c n)))\<lparr>cl_activity := (cl_activity c)(n := Idle)\<rparr>"
  have "cluster_run D W c [Ev_Advance n] ?c'" by (rule cluster_run_one [OF cluster_step.advance [OF Nil]])
  moreover have "undisturbed n c ?c'" by (simp add: undisturbed_def)
  ultimately show ?case by (intro exI [of _ "[Ev_Advance n]"] exI [of _ ?c']) simp
next
  case (Cons dj djs)
  obtain es c1 where c1: "cluster_run D W c es c1" "on_node c1 n = executeAtFire (D n) (envs k) ctx job dj (on_node c n)"
    "cl_activity c1 = (cl_activity c)(n := Replaying job djs a)" "cl_pending c1 = cl_pending c" "undisturbed n c c1"
    by (rule inline_execution [OF Cons.prems])
  have "\<not> inline_running c1 n" using Cons.prems(2) undisturbed_inline [OF c1(5)] by simp
  from Cons.IH [of c1 "Suc k", OF _ this] obtain fs c' where "cluster_run D W c1 fs c'"
    "on_node c' n = replay_close (D n) a (replay_each (D n) envs ctx job (Suc k) djs (on_node c1 n))"
    "cl_activity c' n = Idle" "cl_pending c' = cl_pending c1" "undisturbed n c1 c'"
    using c1(3) by auto
  with c1 show ?case
    by (intro exI [of _ "es @ fs"] exI [of _ c']) (auto intro: cluster_run_trans undisturbed_trans)
qed

lemma finish_simulated:
  assumes "\<not> inline_running c n" "cl_activity c n \<noteq> Stopped"
  shows "\<exists>es c'. cluster_run D W c es c' \<and> on_node c' n = finish_activity (D n) envs ctx (cl_activity c n) (on_node c n) \<and>
    cl_activity c' n = Idle \<and> cl_pending c' = cl_pending c \<and> undisturbed n c c'"
proof (cases "cl_activity c n")
  case Idle
  then show ?thesis by (intro exI [of _ "[]"] exI [of _ c]) (auto intro: cluster_run.here)
next
  case (Skipping job dj t)
  note run = cluster_run_one [OF cluster_step.skip [where D = D, OF Skipping], of W]
  show ?thesis by (rule exI, rule exI, rule conjI, rule run) (simp add: Skipping undisturbed_def)
next
  case (Claiming job dj now t)
  note run = cluster_run_one [OF cluster_step.claim [where D = D, OF Claiming refl], of W]
  show ?thesis by (rule exI, rule exI, rule conjI, rule run) (simp add: Claiming undisturbed_def)
next
  case (Replaying job djs a)
  from replay_simulated [OF this assms(1)] Replaying show ?thesis by simp
qed (use assms(2) in simp)

lemma dispatch_simulated:
  assumes "cl_pending c n = (now, dj # due)" "cl_activity c n = Idle" "\<not> inline_running c n"
  shows "\<exists>es c'. cluster_run D W c es c' \<and> on_node c' n = maybeDispatch (D n) envs ctx dj now (on_node c n) \<and>
    cl_pending c' n = (now, due) \<and> cl_activity c' n = Idle \<and> undisturbed n c c'"
proof -
  obtain st act where l: "dispatch_look (D n) dj now (on_node c n) = (st, act)" by fastforce
  let ?c1 = "(put_node c n st)\<lparr>cl_pending := (cl_pending c)(n := (now, due)), cl_activity := (cl_activity c)(n := act)\<rparr>"
  have look: "cluster_run D W c [Ev_Look n (dj_ID dj)] ?c1" by (rule cluster_run_one [OF cluster_step.look [where D = D, OF assms(1,2) l]])
  have u: "undisturbed n c ?c1" by (simp add: undisturbed_def)
  then have "\<not> inline_running ?c1 n" using assms(3) undisturbed_inline by blast
  from finish_simulated [OF this, of D W envs ctx] dispatch_look_runs [of "D n" dj now "on_node c n"] l obtain es c' where "cluster_run D W ?c1 es c'"
    "on_node c' n = finish_activity (D n) envs ctx act st" "cl_activity c' n = Idle" "cl_pending c' n = (now, due)" "undisturbed n ?c1 c'"
    by auto
  with cluster_run_trans [OF _ look] u l show ?thesis
    by (intro exI [of _ "[Ev_Look n (dj_ID dj)] @ es"] exI [of _ c']) (auto simp: maybeDispatch_segments intro: undisturbed_trans)
qed

lemma dispatches_simulated:
  assumes "cl_pending c n = (now, due)" "cl_activity c n = Idle" "\<not> inline_running c n"
  shows "\<exists>es c'. cluster_run D W c es c' \<and> on_node c' n = dispatch_all (D n) envs ctx now k due (on_node c n) \<and>
    at_rest c' n \<and> undisturbed n c c'"
  using assms
proof (induction due arbitrary: c k)
  case Nil
  then show ?case by (intro exI [of _ "[]"] exI [of _ c]) (simp add: at_rest_def cluster_run.here)
next
  case (Cons dj due)
  from dispatch_simulated [OF Cons.prems, of D W "envs k" ctx] obtain es c1 where c1: "cluster_run D W c es c1"
    "on_node c1 n = maybeDispatch (D n) (envs k) ctx dj now (on_node c n)" "cl_pending c1 n = (now, due)" "cl_activity c1 n = Idle"
    "undisturbed n c c1" by blast
  have "\<not> inline_running c1 n" using Cons.prems(3) undisturbed_inline [OF c1(5)] by simp
  from Cons.IH [OF c1(3,4) this, of "Suc k"] obtain fs c' where "cluster_run D W c1 fs c'"
    "on_node c' n = dispatch_all (D n) envs ctx now (Suc k) due (on_node c1 n)" "at_rest c' n" "undisturbed n c1 c'" by blast
  with c1 show ?case
    by (intro exI [of _ "es @ fs"] exI [of _ c']) (auto intro: cluster_run_trans undisturbed_trans)
qed

section \<open>The loop\<close>

lemma tick_simulated:
  assumes "at_rest c n" "\<not> inline_running c n"
  shows "\<exists>es c'. cluster_run D W c es c' \<and> on_node c' n = tick (D n) envs ctx now (on_node c n) \<and> at_rest c' n \<and> undisturbed n c c'"
proof -
  obtain s r where f: "FetchDue (d_storage (D n)) (cl_storage c) now 64 = (s, r)" by fastforce
  let ?st = "case r of Inl err \<Rightarrow> logging Log_Error ''fetch due jobs'' [] ((on_node c n)\<lparr>st_storage := s\<rparr>)
      | Inr due \<Rightarrow> (on_node c n)\<lparr>st_storage := s\<rparr>"
  let ?due = "case r of Inl err \<Rightarrow> [] | Inr due \<Rightarrow> due"
  let ?c1 = "(put_node c n ?st)\<lparr>cl_pending := (cl_pending c)(n := (now, ?due))\<rparr>"
  have fetch: "cluster_run D W c [Ev_Fetch n now] ?c1" by (rule cluster_run_one [OF cluster_step.fetch [where D = D, OF assms(1) f refl]])
  have u: "undisturbed n c ?c1" by (simp add: undisturbed_def)
  then have "\<not> inline_running ?c1 n" using assms(2) undisturbed_inline by blast
  from dispatches_simulated [OF _ _ this, of now ?due D W envs ctx 0] obtain es c' where "cluster_run D W ?c1 es c'"
    "on_node c' n = dispatch_all (D n) envs ctx now 0 ?due ?st" "at_rest c' n" "undisturbed n ?c1 c'"
    using assms(1) by (auto simp: at_rest_def)
  moreover have "dispatch_all (D n) envs ctx now 0 ?due ?st = tick (D n) envs ctx now (on_node c n)"
    using f by (cases r) (simp_all add: tick_def)
  ultimately show ?thesis using cluster_run_trans [OF _ fetch] u
    by (intro exI [of _ "[Ev_Fetch n now] @ es"] exI [of _ c']) (auto intro: undisturbed_trans)
qed

lemma renewal_simulated:
  assumes "at_rest c n"
  shows "\<exists>es c'. cluster_run D W c es c' \<and> on_node c' n = maybeRenewLeader (D n) (on_node c n) \<and> at_rest c' n \<and> undisturbed n c c'"
  by (rule exI, rule exI, rule conjI, rule cluster_run_one [OF cluster_step.renew [OF assms]])
    (use assms in \<open>simp add: at_rest_def undisturbed_def\<close>)

fun loop_turn :: "('s, 'l) loop_event \<Rightarrow> bool" where
  "loop_turn (On_tick now envs) \<longleftrightarrow> True"
| "loop_turn (On_hung_tick now envs) \<longleftrightarrow> False"
| "loop_turn On_leader \<longleftrightarrow> True"
| "loop_turn (On_done err busy done_first) \<longleftrightarrow> False"
| "loop_turn (Elsewhere f) \<longleftrightarrow> False"

text \<open>
  Property C3. The fine-grained steps of the cluster contain the loop as the code runs it: whatever ticks and
  leader renewals the loop of a node at rest receives, there is a run of the cluster, of steps of this node only, that ends
  in exactly the state the loop reaches, with the node at rest again.
\<close>

theorem loop_simulated:
  assumes "at_rest c n" "\<not> inline_running c n" "list_all loop_turn evs"
  shows "\<exists>es c'. cluster_run D W c es c' \<and> run_loop (D n) ctx evs (on_node c n) = Running (on_node c' n) \<and>
    at_rest c' n \<and> undisturbed n c c'"
  using assms
proof (induction evs arbitrary: c)
  case Nil
  then show ?case by (intro exI [of _ "[]"] exI [of _ c]) (simp add: cluster_run.here)
next
  case (Cons ev evs)
  have "\<exists>es c1. cluster_run D W c es c1 \<and> run_loop (D n) ctx (ev # evs) (on_node c n) = run_loop (D n) ctx evs (on_node c1 n) \<and>
      at_rest c1 n \<and> undisturbed n c c1"
  proof (cases ev)
    case (On_tick now envs)
    from tick_simulated [OF Cons.prems(1,2), of D W envs ctx now] On_tick show ?thesis by force
  next
    case On_leader
    from renewal_simulated [OF Cons.prems(1), of D W] On_leader show ?thesis by force
  qed (use Cons.prems(3) in simp_all)
  then obtain es c1 where c1: "cluster_run D W c es c1"
    "run_loop (D n) ctx (ev # evs) (on_node c n) = run_loop (D n) ctx evs (on_node c1 n)" "at_rest c1 n" "undisturbed n c c1"
    by blast
  have "\<not> inline_running c1 n" using Cons.prems(2) undisturbed_inline [OF c1(4)] by simp
  from Cons.IH [OF c1(3) this] Cons.prems(3) obtain fs c' where "cluster_run D W c1 fs c'"
    "run_loop (D n) ctx evs (on_node c1 n) = Running (on_node c' n)" "at_rest c' n" "undisturbed n c1 c'" by auto
  with c1 show ?case
    by (intro exI [of _ "es @ fs"] exI [of _ c']) (auto intro: cluster_run_trans undisturbed_trans)
qed

text \<open>Two ticks of a node that leads the replay of a missed window; a second node does not move.\<close>

theorem loop_simulated_witness:
  "\<exists>es c'. cluster_run (\<lambda>_. demo_D (demo_job MissedFireRunAll (\<lambda>_. Returns None))) quiet_surroundings
       (new_cluster (demo_mem (10 * Second)) NewMemoryLeader) es c' \<and>
     run_loop (demo_D (demo_job MissedFireRunAll (\<lambda>_. Returns None))) demo_ctx
       [On_leader, On_tick (45 * Second) (\<lambda>_ _. demo_env (45 * Second)), On_tick (60 * Second) (\<lambda>_ _. demo_env (60 * Second))]
       (demo_st (demo_mem (10 * Second))) = Running (on_node c' 0) \<and>
     cl_nodes c' 1 = demo_st (demo_mem (10 * Second))"
proof -
  let ?c = "new_cluster (demo_mem (10 * Second)) NewMemoryLeader"
  have c: "on_node ?c 0 = demo_st (demo_mem (10 * Second))" "cl_nodes ?c 1 = demo_st (demo_mem (10 * Second))"
    "at_rest ?c 0" "\<not> inline_running ?c 0"
    by (simp_all add: on_node_def new_cluster_def new_dstate_def demo_st_def at_rest_def inline_running_def)
  let ?D = "\<lambda>_ :: nat. demo_D (demo_job MissedFireRunAll (\<lambda>_. Returns None))"
  let ?evs = "[On_leader, On_tick (45 * Second) (\<lambda>_ _. demo_env (45 * Second)), On_tick (60 * Second) (\<lambda>_ _. demo_env (60 * Second))]"
  obtain es c' where "cluster_run ?D quiet_surroundings ?c es c'" "run_loop (?D 0) demo_ctx ?evs (on_node ?c 0) = Running (on_node c' 0)"
    "undisturbed 0 ?c c'"
    using loop_simulated [OF c(3,4), of ?evs ?D quiet_surroundings demo_ctx] by auto
  with c(1,2) show ?thesis unfolding undisturbed_def by (metis zero_neq_one)
qed

end
