(* ===== verification/Hello_Example.thy ===== *)
theory Hello_Example
  imports Sundial_Run
begin

text \<open>
  \<open>examples/hello/main.go\<close>: the program that wires the library together. What \<open>main\<close> reads of its
  surroundings is the record \<open>hello_env\<close>: the answers of the operating system, of
  \<open>pgxpool.New\<close> and of the clock, the iteration order of the registry, and what \<open>Run\<close> of the
  scheduler returned. The counters the handlers print are not part of the model.
\<close>

section \<open>The connection string in the log\<close>

text \<open>The first loop: the index of the last \<open>@\<close>, or the initial value.\<close>

fun at_loop :: "string \<Rightarrow> int \<Rightarrow> int \<Rightarrow> int" where
  "at_loop [] i pos = pos"
| "at_loop (c # cs) i pos = at_loop cs (i + 1) (if c = CHR ''@'' then i else pos)"

text \<open>The second loop: the index of the first \<open>://\<close>.\<close>

fun scheme_loop :: "string \<Rightarrow> nat \<Rightarrow> nat option" where
  "scheme_loop (a # b # c # rest) i =
     (if a = CHR '':'' \<and> b = CHR ''/'' \<and> c = CHR ''/'' then Some i else scheme_loop (b # c # rest) (Suc i))"
| "scheme_loop _ i = None"

definition redacted :: "string \<Rightarrow> string" where
  "redacted url =
     (let pos = at_loop url 0 (- 1)
      in if pos < 0 then url
         else
           let scheme = (case scheme_loop url 0 of Some i \<Rightarrow> take (i + 3) url | None \<Rightarrow> [])
           in scheme @ ''***'' @ drop (nat pos) url)"

definition hostnameOr :: "go_error + string \<Rightarrow> string \<Rightarrow> string" where
  "hostnameOr hostname fallback = (case hostname of Inl err \<Rightarrow> fallback | Inr h \<Rightarrow> h)"

section \<open>The program\<close>

record hello_env =
  he_hostname :: "go_error + string"
  he_HOSTNAME :: string
  he_rand :: "(int \<times> int \<times> int \<times> int) option"
  he_DATABASE_URL :: string
  he_pool :: "go_error + pool"
  he_now :: gotime
  he_range :: job_range
  he_Run :: "Scheduler \<Rightarrow> go_error option option"

text \<open>How \<open>main\<close> ends: by itself, by \<open>os.Exit\<close>, by a nil pointer, or not at all while \<open>Run\<close> does not return.\<close>

datatype hello_end = Main_returns | Main_exit int | Main_panics | Main_runs

definition context_Canceled :: go_error where
  "context_Canceled = NewError ''context canceled''"

text \<open>\<open>register\<close> exits on an error; \<open>Inl\<close> is the log entry it leaves.\<close>

definition register ::
  "string \<Rightarrow> Schedule option \<Rightarrow> HandlerFunc \<Rightarrow> JobOption list \<Rightarrow> Scheduler \<Rightarrow> log_entry + Scheduler" where
  "register name sch fn opts s =
     (case Schedule_job s name sch (Some fn) opts of
        (s, Inl err) \<Rightarrow> Inl (Log_Error, ''Schedule'', name)
      | (s, Inr j) \<Rightarrow> Inr s)"

definition nil_or :: "go_error + Schedule \<Rightarrow> Schedule option" where
  "nil_or r = (case r of Inl err \<Rightarrow> None | Inr s \<Rightarrow> Some s)"

definition pad_right :: "nat \<Rightarrow> string \<Rightarrow> string" where
  "pad_right n s = s @ replicate (n - length s) CHR '' ''"

text \<open>\<open>fmt.Printf("  registered: %-22s  %s  (kind=%s)\n", ...)\<close>.\<close>

definition registered_line :: "Job \<Rightarrow> string" where
  "registered_line j =
     ''  registered: '' @ pad_right 22 (job_Name j) @ ''  '' @ schedule_String (job_Schedule j) @ ''  (kind='' @
     schedule_Kind (job_Schedule j) @ '')'' @ [char_of (10 :: nat)]"

text \<open>The three registrations.\<close>

definition hello_register :: "gotime \<Rightarrow> Scheduler \<Rightarrow> log_entry + Scheduler" where
  "hello_register now s =
     (let every5s = nil_or (Every (5 * Second)); every12s = nil_or (Every (12 * Second));
          tomorrow = Some (At (time_Add now (24 * 3600 * Second)))
      in case register ''report-every-12s'' every12s (\<lambda>_. Returns None) [WithLeaderOnly] s of
           Inl e \<Rightarrow> Inl e
         | Inr s \<Rightarrow>
             (case register ''health-probe-5s'' every5s (\<lambda>_. Returns None) [] s of
                Inl e \<Rightarrow> Inl e
              | Inr s \<Rightarrow> register ''send-launch-email'' tomorrow (\<lambda>_. Returns None) [WithMissedFire MissedFireRunOnce] s))"

text \<open>From the registrations to the end; the result is the log, the output and the end. The message
  of the start is cut at its dash.\<close>

definition hello_run :: "hello_env \<Rightarrow> log_entry list \<Rightarrow> Scheduler \<Rightarrow> log_entry list \<times> string list \<times> hello_end" where
  "hello_run env entries s =
     (case hello_register (he_now env) s of
        Inl e \<Rightarrow> (entries @ [e], [], Main_exit 1)
      | Inr s \<Rightarrow>
          (case those (map (map_option registered_line) (Jobs (he_range env) s)) of
             None \<Rightarrow> (entries, [], Main_panics)
           | Some out \<Rightarrow>
               let entries = entries @ [(Log_Info, ''scheduler running'', [])]
               in case he_Run env s of
                    None \<Rightarrow> (entries, out, Main_runs)
                  | Some (Some err) \<Rightarrow>
                      if \<not> errors_Is err context_Canceled
                      then (entries @ [(Log_Error, ''scheduler exited with error'', [])], out, Main_exit 1)
                      else (entries @ [(Log_Info, ''clean shutdown'', [])], out, Main_returns)
                  | Some None \<Rightarrow> (entries @ [(Log_Info, ''clean shutdown'', [])], out, Main_returns)))"

definition hello_options :: "hello_env \<Rightarrow> Options" where
  "hello_options env =
     \<lparr>NodeID = AutoNodeID (he_hostname env) (he_HOSTNAME env) (he_rand env), TickInterval = Second, ShutdownGrace = 0,
      Schema = [], LeaderRenewInterval = 0\<rparr>"

text \<open>The references: storage 0 is the new \<open>MemoryStorage\<close>, logger 1 the logger of \<open>main\<close>, logger 0 the default one.\<close>

definition hello_main :: "hello_env \<Rightarrow> log_entry list \<times> string list \<times> hello_end" where
  "hello_main env =
     (let url = he_DATABASE_URL env;
          connected =
            (if url \<noteq> [] then
               case he_pool env of
                 Inl err \<Rightarrow> Inl (Log_Error, ''connect to Postgres'', [])
               | Inr p \<Rightarrow> Inr (Some p, [], (Log_Info, ''using Postgres backend'', redacted url))
             else Inr (None, [WithStorage (Some (Given_storage 0))],
                    (Log_Info, ''using in-memory backend (set DATABASE_URL for Postgres)'', [])))
      in case connected of
           Inl e \<Rightarrow> ([e], [], Main_exit 1)
         | Inr (pool, schedOpts, e) \<Rightarrow>
             (case New 0 pool (hello_options env) (schedOpts @ [WithLogger (Some 1)]) of
                Inl err \<Rightarrow> ([e, (Log_Error, ''create scheduler'', [])], [], Main_exit 1)
              | Inr s \<Rightarrow> hello_run env [e] s))"

section \<open>The loops of the redaction\<close>

lemma at_loop_append: "at_loop (xs @ ys) i k = at_loop ys (i + int (length xs)) (at_loop xs i k)"
  by (induction xs arbitrary: i k) (simp_all add: algebra_simps)

lemma at_loop_none: "CHR ''@'' \<notin> set xs \<Longrightarrow> at_loop xs i k = k"
  by (induction xs arbitrary: i k) auto

lemma scheme_loop_first:
  "CHR '':'' \<notin> set xs \<Longrightarrow> scheme_loop (xs @ ''://'' @ ys) i = Some (i + length xs)"
proof (induction xs arbitrary: i)
  case Nil
  then show ?case by simp
next
  case (Cons x xs)
  obtain b c r where "xs @ CHR '':'' # CHR ''/'' # CHR ''/'' # ys = b # c # r" by (cases xs; cases "tl xs") auto
  then show ?case using Cons.IH [of "Suc i"] Cons.prems by auto
qed

lemma redacted_scheme:
  assumes "CHR '':'' \<notin> set scheme" "CHR ''@'' \<notin> set rest"
  shows "redacted (scheme @ ''://'' @ cred @ ''@'' @ rest) = scheme @ ''://***@'' @ rest"
proof -
  let ?url = "scheme @ ''://'' @ cred @ ''@'' @ rest"
  let ?p = "scheme @ ''://'' @ cred"
  have pos: "at_loop ?url 0 (- 1) = int (length ?p)"
    using assms(2) by (simp add: at_loop_append at_loop_none)
  have first: "scheme_loop ?url 0 = Some (length scheme)" using scheme_loop_first [OF assms(1), of _ 0] by simp
  have "redacted ?url = take (length scheme + 3) ?url @ ''***'' @ drop (length ?p) ?url"
    by (simp only: redacted_def Let_def pos first option.case nat_int of_nat_less_0_iff if_False append_assoc)
  also have "drop (length ?p) ?url = ''@'' @ rest" by (simp add: numeral_eq_Suc)
  finally show ?thesis by simp
qed

section \<open>What main sets up\<close>

definition hello_jobs :: "gotime \<Rightarrow> (string \<times> Job) list" where
  "hello_jobs now =
     [(''report-every-12s'', \<lparr>job_Name = ''report-every-12s'', job_Schedule = intervalSchedule (12 * Second),
         job_Handler = (\<lambda>_. Returns None), job_Options = (withDefaults zero_JobOptions)\<lparr>LeaderOnly := True\<rparr>\<rparr>),
      (''health-probe-5s'', \<lparr>job_Name = ''health-probe-5s'', job_Schedule = intervalSchedule (5 * Second),
         job_Handler = (\<lambda>_. Returns None), job_Options = withDefaults zero_JobOptions\<rparr>),
      (''send-launch-email'', \<lparr>job_Name = ''send-launch-email'', job_Schedule = atSchedule (now + 24 * 3600 * Second),
         job_Handler = (\<lambda>_. Returns None), job_Options = withDefaults zero_JobOptions\<rparr>)]"

lemma register_new:
  assumes "lookup s name = None" "name \<noteq> []" "\<not> sc_stopped s"
  shows "register name (Some sch) fn opts s =
    Inr (s\<lparr>sc_jobs := sc_jobs s @ [(name, \<lparr>job_Name = name, job_Schedule = sch, job_Handler = fn,
      job_Options = withDefaults (fold (\<lambda>apply o'. apply o') opts zero_JobOptions)\<rparr>)]\<rparr>)"
  by (cases rule: Schedule_job_cases [of s name "Some sch" "Some fn" opts])
    (use assms in \<open>auto simp: register_def Schedule_job_def Let_def\<close>)

lemma hello_registered:
  assumes "sc_jobs s = []" "\<not> sc_stopped s"
  shows "hello_register now s = Inr (s\<lparr>sc_jobs := hello_jobs now\<rparr>)"
proof -
  have every: "nil_or (Every (5 * Second)) = Some (intervalSchedule (5 * Second))"
    "nil_or (Every (12 * Second)) = Some (intervalSchedule (12 * Second))"
    by (simp_all add: nil_or_def Every_def Second_def)
  have "(fold (\<lambda>apply o'. apply o') [WithLeaderOnly] zero_JobOptions) = zero_JobOptions\<lparr>LeaderOnly := True\<rparr>"
    "(fold (\<lambda>apply o'. apply o') [WithMissedFire MissedFireRunOnce] zero_JobOptions) = zero_JobOptions"
    by (simp_all add: WithLeaderOnly_def WithMissedFire_def zero_JobOptions_def missed_fire_policies)
  then show ?thesis
    using assms
    by (simp add: hello_register_def every register_new lookup_def hello_jobs_def At_def time_Add_def Let_def withDefaults_def)
qed

lemma hello_jobs_printed:
  assumes "range_order rng" "sc_jobs s = hello_jobs now"
  shows "those (map (map_option registered_line) (Jobs rng s)) =
    Some (map registered_line [snd (hello_jobs now ! 1), snd (hello_jobs now ! 0), snd (hello_jobs now ! 2)])"
proof -
  have inv: "registry_inv s"
    using assms(2) withDefaults_policy_set [of zero_JobOptions] by (simp add: registry_inv_def hello_jobs_def)
  have "sort [''report-every-12s'', ''health-probe-5s'', ''send-launch-email''] =
      [''health-probe-5s'', ''report-every-12s'', ''send-launch-email'']"
    by code_simp
  then have "Jobs rng s = map (lookup s) [''health-probe-5s'', ''report-every-12s'', ''send-launch-email'']"
    using assms(2) by (simp add: Jobs_sorted [OF assms(1) inv] hello_jobs_def)
  then show ?thesis using assms(2) by (simp add: lookup_def hello_jobs_def)
qed

lemma AutoNodeID_nonempty: "AutoNodeID hostname env rand \<noteq> []"
  by (auto simp: AutoNodeID_def split: sum.splits option.splits)

lemma hello_New:
  "\<exists>s. New 0 None (hello_options env) [WithStorage (Some (Given_storage 0)), WithLogger (Some 1)] = Inr s \<and>
     sc_storage s = Some (Given_storage 0) \<and> sc_leader s = None \<and> sc_jobs s = [] \<and> \<not> sc_stopped s \<and> sc_logger s = 1"
  "\<exists>s. New 0 (Some p) (hello_options env) [WithLogger (Some 1)] = Inr s \<and>
     sc_storage s = Some (PostgresStorage_of p ''public'') \<and> sc_leader s = Some (PostgresLeader_of p) \<and> sc_jobs s = [] \<and>
     \<not> sc_stopped s \<and> sc_logger s = 1"
  using AutoNodeID_nonempty [of "he_hostname env" "he_HOSTNAME env" "he_rand env"]
  by (simp_all add: New_def hello_options_def option_defaults_def NewPostgresStorage_def Let_def duration_units)

section \<open>Properties\<close>

text \<open>
  Of a connection string with a scheme the log shows the scheme and what follows
  the last \<open>@\<close>, nothing of the credentials between, whatever characters they contain; a
  string without \<open>@\<close> is logged as it is.
\<close>

theorem redacted_hides:
  "(CHR '':'' \<notin> set scheme \<longrightarrow> CHR ''@'' \<notin> set rest \<longrightarrow>
      redacted (scheme @ ''://'' @ cred @ ''@'' @ rest) = scheme @ ''://***@'' @ rest) \<and>
   (CHR ''@'' \<notin> set url \<longrightarrow> redacted url = url)"
  using redacted_scheme by (simp add: redacted_def at_loop_none)

theorem redacted_hides_witness:
  "redacted ''postgres://sundial:p@ss@localhost:5432/sundial'' = ''postgres://***@localhost:5432/sundial'' \<and>
   redacted ''host=db password=secret'' = ''host=db password=secret''"
  using redacted_hides [of "''postgres''" "''localhost:5432/sundial''" "''sundial:p@ss''" "''host=db password=secret''"] by simp

text \<open>
  Property C40. The example runs a scheduler with its three jobs, in memory and without a
  leader when no database is configured, and otherwise on Postgres with the leader of the same pool; it prints
  the jobs in the order of their names and ends with status 1 exactly when the pool cannot be created or \<open>Run\<close> fails with anything
  but the cancellation.
\<close>

theorem hello_wiring:
  assumes "range_order (he_range env)"
  shows "(\<forall>e. he_DATABASE_URL env \<noteq> [] \<longrightarrow> he_pool env = Inl e \<longrightarrow> snd (snd (hello_main env)) = Main_exit 1) \<and>
    (\<forall>p. he_DATABASE_URL env = [] \<or> he_pool env = Inr p \<longrightarrow>
      (\<exists>s. sc_jobs s = hello_jobs (he_now env) \<and> \<not> sc_stopped s \<and>
         sc_storage s = Some (if he_DATABASE_URL env = [] then Given_storage 0 else PostgresStorage_of p ''public'') \<and>
         sc_leader s = (if he_DATABASE_URL env = [] then None else Some (PostgresLeader_of p)) \<and>
         fst (snd (hello_main env)) = map registered_line [snd (hello_jobs (he_now env) ! 1),
           snd (hello_jobs (he_now env) ! 0), snd (hello_jobs (he_now env) ! 2)] \<and>
         snd (snd (hello_main env)) =
           (case he_Run env s of
              None \<Rightarrow> Main_runs
            | Some None \<Rightarrow> Main_returns
            | Some (Some err) \<Rightarrow> if errors_Is err context_Canceled then Main_returns else Main_exit 1)))"
proof (intro conjI allI impI)
  show "snd (snd (hello_main env)) = Main_exit 1" if "he_DATABASE_URL env \<noteq> []" "he_pool env = Inl e" for e
    using that by (simp add: hello_main_def)
next
  fix p assume cond: "he_DATABASE_URL env = [] \<or> he_pool env = Inr p"
  obtain s entries where main: "hello_main env = hello_run env entries s" and s: "sc_jobs s = []" "\<not> sc_stopped s"
    "sc_storage s = Some (if he_DATABASE_URL env = [] then Given_storage 0 else PostgresStorage_of p ''public'')"
    "sc_leader s = (if he_DATABASE_URL env = [] then None else Some (PostgresLeader_of p))"
    using cond hello_New(1) [where env = env] hello_New(2) [where env = env and p = p] by (cases "he_DATABASE_URL env = []") (fastforce simp: hello_main_def)+
  let ?s = "s\<lparr>sc_jobs := hello_jobs (he_now env)\<rparr>"
  have printed: "those (map (map_option registered_line) (Jobs (he_range env) ?s)) =
      Some (map registered_line [snd (hello_jobs (he_now env) ! 1), snd (hello_jobs (he_now env) ! 0), snd (hello_jobs (he_now env) ! 2)])"
    by (rule hello_jobs_printed [OF assms]) simp
  show "\<exists>s. sc_jobs s = hello_jobs (he_now env) \<and> \<not> sc_stopped s \<and>
         sc_storage s = Some (if he_DATABASE_URL env = [] then Given_storage 0 else PostgresStorage_of p ''public'') \<and>
         sc_leader s = (if he_DATABASE_URL env = [] then None else Some (PostgresLeader_of p)) \<and>
         fst (snd (hello_main env)) = map registered_line [snd (hello_jobs (he_now env) ! 1),
           snd (hello_jobs (he_now env) ! 0), snd (hello_jobs (he_now env) ! 2)] \<and>
         snd (snd (hello_main env)) =
           (case he_Run env s of
              None \<Rightarrow> Main_runs
            | Some None \<Rightarrow> Main_returns
            | Some (Some err) \<Rightarrow> if errors_Is err context_Canceled then Main_returns else Main_exit 1)"
    unfolding main hello_run_def hello_registered [OF s(1,2)] sum.case printed option.case Let_def
    using s by (intro exI [of _ ?s]) (simp split: option.splits)
qed

definition demo_hello :: hello_env where
  "demo_hello =
     \<lparr>he_hostname = Inr ''localhost'', he_HOSTNAME = [], he_rand = Some (222, 173, 190, 239), he_DATABASE_URL = [],
      he_pool = Inl ErrJobNotFound, he_now = 0, he_range = rev, he_Run = (\<lambda>s. Some (Some context_Canceled))\<rparr>"

theorem hello_wiring_witness:
  "snd (snd (hello_main demo_hello)) = Main_returns"
  using hello_wiring [of demo_hello] by (auto simp: demo_hello_def context_Canceled_def)

end
