(* ===== verification/Spec2Isabelle.thy ===== *)
theory Spec2Isabelle
  imports Cluster_Properties Cluster_Simulation Hello_Example
begin

text \<open>
  Verification of sundial, a job scheduler written in Go (sources under \<open>src/\<close>).

  \<^bold>\<open>The program.\<close> A \<open>Scheduler\<close> (\<open>sundial.go\<close>) keeps a registry of jobs (\<open>job.go\<close>), each with a schedule
  (\<open>schedule.go\<close>, \<open>cron.go\<close>) and a handler. \<open>Run\<close> persists the jobs in a \<open>Storage\<close> (\<open>storage.go\<close>: Postgres, or in
  memory) and hands over to the dispatcher (\<open>dispatcher.go\<close>), which at every tick fetches the due rows and, for each,
  computes the next fire, decides what to do with a missed fire, claims the row by moving it to the next fire, and
  runs the handler in a goroutine. A failed handler is retried after a backoff, up to a number of attempts, then
  recorded as a dead letter. Several nodes may share one storage: the claim decides which node runs a fire, and an
  advisory lock (\<open>leader.go\<close>) which node is the leader for leader-only jobs and for the replay of missed fires.
  \<open>telemetry.go\<close> counts and traces all this. \<open>examples/hello/main.go\<close> is a program that uses the library.

  \<^bold>\<open>The theories\<close>, from the bottom, with the source each one models.

  \<^item> \<open>Sundial_Prelude\<close>: instants and durations, errors and \<open>errors.Is\<close>, the iteration order of a Go map
    (\<open>range_order\<close>: any permutation), the three fates of a round trip to a server (\<open>fate\<close>: answered, lost before
    or after it took effect), insertion sort as the sources write it, association lists.
  \<^item> \<open>Go_Float64\<close>, \<open>Go_Duration\<close>, \<open>Go_RFC3339\<close>: what the sources use of the Go library. Binary64 arithmetic with
    rounding to nearest even, overflow, infinities and NaN; \<open>Duration.String\<close> and \<open>ParseDuration\<close> with their 64-bit
    overflow checks, and the proof that parsing undoes printing; RFC 3339 texts and the proleptic calendar, with
    the same for instants.
  \<^item> \<open>Sundial_Schedule\<close> (\<open>schedule.go\<close>, \<open>cron.go\<close>): the schedules, \<open>Every\<close>, \<open>At\<close>, \<open>Cron\<close>, \<open>iterateSchedule\<close>. The
    locale \<open>fire_sequence\<close> is the contract of \<open>Next\<close>; \<open>slotted_sequence\<close> adds that \<open>Next\<close> is the first fire after its
    argument.
  \<^item> \<open>Sundial_Job\<close> (\<open>job.go\<close> and the job options of \<open>sundial.go\<close>): policies, options, \<open>withDefaults\<close>.
  \<^item> \<open>Sundial_Scheduler\<close> (\<open>sundial.go\<close> without \<open>Run\<close>): \<open>AutoNodeID\<close>, \<open>New\<close>, the functional options, the registry.
  \<^item> \<open>Sundial_Storage\<close> (the interface in \<open>storage.go\<close>): the data types and the abstract job table with its
    operations \<open>advance\<close>, \<open>pull_back\<close>, \<open>registered\<close>, \<open>due_snapshot\<close>. The locale \<open>storage_contract\<close> says what an
    implementation promises when calls may fail; \<open>reliable_storage\<close> extends it for backends that do not.
  \<^item> \<open>Memory_Storage\<close>, \<open>Postgres_Storage\<close> (\<open>storage.go\<close>): the two implementations, each interpreted as the contract.
  \<^item> \<open>Sundial_Leader\<close> (\<open>leader.go\<close>): both leader implementations as instances of the interface \<open>Leader\<close>. The record
    \<open>lock_server\<close> is the advisory locks of one server with the leader value of every node; its step relation has
    acquisitions and releases with any fate of their query, crashes, and connections that close while idle.
  \<^item> \<open>Sundial_Telemetry\<close> (\<open>telemetry.go\<close>): instruments with their fallbacks, and what is emitted.
  \<^item> \<open>Sundial_Retry\<close>, \<open>Sundial_Reload\<close>, \<open>Sundial_Dispatcher\<close> (\<open>dispatcher.go\<close>): attempt counters, \<open>computeBackoff\<close> and
    \<open>safeRun\<close>; the two switches that read a stored schedule back; the dispatcher itself. The record \<open>dispatcher\<close> holds
    the fields that do not change, \<open>dstate\<close> the mutable ones together with what can be observed: goroutines started,
    handlers called, telemetry, log.
  \<^item> \<open>Dispatcher_Correctness\<close>, \<open>Dispatcher_Properties\<close>: laws of the dispatcher proved once over the storage locales,
    then the properties, on the in-memory backend through its interpretation.
  \<^item> \<open>Dispatcher_Progress\<close>: what happens over many ticks: slots that are served, retries that come back, the
    whole budget of attempts, missed windows without fires, attempts spread over several nodes.
  \<^item> \<open>Sundial_Run\<close> (\<open>Run\<close> in \<open>sundial.go\<close>), \<open>Hello_Example\<close> (\<open>examples/hello/main.go\<close>).
  \<^item> \<open>Dispatch_Segments\<close>: \<open>maybeDispatch\<close> and \<open>runAllMissed\<close> cut at their calls of the storage and of handlers, and the
    proof that the segments in sequence are the functions.
  \<^item> \<open>Sundial_Cluster\<close>: any number of dispatchers over one storage and one leader state, as a labelled step relation
    with registrations, fetches, the segments of every dispatch, replay and execution, renewals, stops and crashes; its
    invariants. \<open>Cluster_Simulation\<close>: the loop of \<open>Sundial_Dispatcher\<close> is among the runs of the cluster.
    \<open>Cluster_Properties\<close>: the properties of the cluster and the runs that show them.

  \<^bold>\<open>What the theorems show.\<close> Schedules: the window of missed instants is exact, in closed form for intervals; a
  stored schedule reads back as it was. Storage: both backends refine the abstract table, the fetch is the sorted and
  cut set of due rows, ids and fire times survive a new registration. Retries: the backoff is within its bounds and
  grows as documented; a job that keeps failing on one node is attempted as often as its policy says, tick by tick, and
  then not before its next regular fire; every execution leaves one run record. Dispatcher: a tick starts what is due, oldest first, and only what it claimed; the
  missed-fire policies do what they say, except where a property says otherwise; from the moment the loop receives the
  cancellation the shutdown ends within its grace period, unless a handler that a replay called on the loop's own goroutine
  never returns. Construction: \<open>New\<close> in closed form. Over time: a node that keeps ticking starts a cron job exactly once for every slot it ticks in, and a failed
  attempt is followed by the next one at the first tick that finds its backoff over (at most 64 jobs, the limit of a fetch). Leadership: at most one leader as long as
  the leader's session lives, a new leader after a crash, and what happens when a session is lost behind its back. Cluster:
  between two retries of a job the claims won for it have increasing targets in every interleaving and under every
  failure, hence a cron job is started once per slot; a leader-only job is claimed, and a missed window replayed, by the one
  leader only, which stays leader until it is done.
  Several properties state behaviour the code has against its documentation: one-shot jobs never run, a replay with
  an empty window runs without a claim at every tick, a replay stops at 256 instants and drops the rest, a skipped fire leaves no
  record, a replay that hangs blocks the shutdown, rows nobody can advance starve the others, two nodes can both run one fire
  of an interval job, a lost commit reply and a crash after the claim lose a fire, a shared in-memory leader reports two leaders, the budget
  of attempts is per node.

  \<^bold>\<open>Choices of the model.\<close> Instants are unbounded integers (nanoseconds since the zero time), durations integers
  with the wrap-around of \<open>int64\<close> written out where the sources multiply them; the attempt counter wraps. What the
  program cannot determine is an argument: the clock readings and the random number of an execution (\<open>exec_env\<close>), map
  orders, the cron parser (a function from texts to \<open>Next\<close> functions or errors), the conversion of a float out of the
  range of \<open>int64\<close> (\<open>d_oor\<close>), the meter, the events of the loop and, for Postgres, the answer to every round trip and the
  precision \<open>ts\<close> of a stored instant. A handler is a function of its context, which carries the number of the call, so
  that it may behave differently at every call; its result is the result of a call that ends. A call in a goroutine that does not end is an
  execution that is never settled in \<open>Sundial_Cluster\<close>, and an unbounded \<open>busy\<close> time in \<open>drain\<close>; a call of a replay that
  does not end is the event \<open>On_hung_tick\<close> of the loop, which then hangs (\<open>Hung\<close>). An execution is split in three segments at its uses of shared state, a dispatch
  in its decision and its claims; in \<open>Sundial_Cluster\<close> the segments of all nodes interleave. A claim transaction is
  atomic: it holds the row lock from its update to its commit. No definition uses fuel: \<open>iterateSchedule\<close> recurses on its limit (256
  in the only call), \<open>run_loop\<close> on the list of the events received.

  \<^bold>\<open>Not modelled.\<close> The text of the SQL statements and the schema qualification (the statements are functions on the
  tables), the migrations (their constraints are in those functions), the OpenTelemetry SDK, \<open>slog\<close>, pgx and
  robfig/cron (arguments of the model), the attributes of log lines other than the job, the counters the example's
  handlers print, tests, benchmarks and documents.
\<close>

end
